(* ===== verification/Kernel_Prelude.thy ===== *)
theory Kernel_Prelude
  imports Main "HOL-Library.Word" "HOL-Library.Monad_Syntax" "HOL-Library.Multiset"
begin

text \<open>
  Shared vocabulary of the development: the machine types of the 32-bit kernel, the
  kernel panic as a value, byte buffers with \<^verbatim>\<open>memcpy\<close>, the rounding macros of
  \<^verbatim>\<open>lib/round.h\<close>, little-endian words, and the generic lemmas on lists and options that the
  components use.

  A computation that may reach \<^verbatim>\<open>debug_panic\<close> (a failed \<^verbatim>\<open>ASSERT\<close>, a \<^verbatim>\<open>PANIC\<close>, a null
  dereference) has type \<open>'a option\<close>: \<open>None\<close> is the panic, after which the kernel does not
  continue. A null result of a C function is an inner \<open>option\<close>.
\<close>

unbundle bit_operations_syntax

named_theorems panic_simps \<open>how a guarded computation proceeds\<close>

section \<open>Types\<close>

type_synonym u8 = "8 word"
type_synonym u32 = "32 word"
type_synonym u64 = "64 word"

text \<open>A byte buffer, an address, a disk sector number and a file offset.\<close>

type_synonym bytes = "u8 list"
type_synonym addr = nat
type_synonym block_sector_t = u32
type_synonym off_t = int

abbreviation NULL :: addr where "NULL \<equiv> 0"

section \<open>Panic\<close>

definition ASSERT :: "bool \<Rightarrow> unit option" where
  "ASSERT b = (if b then Some () else None)"

definition PANIC :: "'a option" where
  "PANIC = None"

lemma ASSERT_True [simp, panic_simps]: "ASSERT True = Some ()"
  by (simp add: ASSERT_def)

lemma ASSERT_False [simp, panic_simps]: "ASSERT False = None"
  by (simp add: ASSERT_def)

lemma ASSERT_bind_eq_Some [simp]:
  "(ASSERT b \<bind> (\<lambda>_. f)) = Some r \<longleftrightarrow> b \<and> f = Some r"
  by (simp add: ASSERT_def)

lemma ASSERT_bind [panic_simps]: "b \<Longrightarrow> (ASSERT b \<bind> f) = f ()"
  by (simp add: ASSERT_def)

section \<open>Rounding and widths\<close>

definition SIZE_MAX :: nat where
  "SIZE_MAX = 4294967295"

text \<open>Addition of two \<^verbatim>\<open>size_t\<close> values.\<close>

definition size_add :: "nat \<Rightarrow> nat \<Rightarrow> nat" where
  "size_add a b = (a + b) mod 4294967296"

text \<open>The rounding macros on \<^verbatim>\<open>size_t\<close>, whose sum wraps.\<close>

definition DIV_ROUND_UP :: "nat \<Rightarrow> nat \<Rightarrow> nat" where
  "DIV_ROUND_UP x step = size_add x (step - 1) div step"

definition ROUND_UP :: "nat \<Rightarrow> nat \<Rightarrow> nat" where
  "ROUND_UP x step = size_add x (step - 1) div step * step"

definition ROUND_DOWN :: "nat \<Rightarrow> nat \<Rightarrow> nat" where
  "ROUND_DOWN x step = x div step * step"

lemma size_add_small [simp]: "a + b < 4294967296 \<Longrightarrow> size_add a b = a + b"
  by (simp add: size_add_def)

lemma DIV_ROUND_UP_mult_ge:
  assumes "0 < step" and "x + (step - 1) < 4294967296"
  shows "x \<le> DIV_ROUND_UP x step * step"
proof -
  have "x + (step - 1) < (x + (step - 1)) div step * step + step"
    using assms by (metis div_mult_mod_eq mod_less_divisor nat_add_left_cancel_less)
  then show ?thesis using assms by (simp add: DIV_ROUND_UP_def)
qed

lemma DIV_ROUND_UP_less:
  "0 < step \<Longrightarrow> x + (step - 1) < 4294967296 \<Longrightarrow> i < x \<Longrightarrow> i div step < DIV_ROUND_UP x step"
  by (metis DIV_ROUND_UP_mult_ge div_less_iff_less_mult order_less_le_trans)

section \<open>Lists\<close>

lemma in_set_tlD: "x \<in> set (tl xs) \<Longrightarrow> x \<in> set xs"
  by (cases xs) auto

lemma last_notin_butlast [simp]: "distinct xs \<Longrightarrow> last xs \<notin> set (butlast xs)"
  by (induction xs) (auto dest: in_set_butlastD)

lemma hd_notin_tl [simp]: "distinct xs \<Longrightarrow> hd xs \<notin> set (tl xs)"
  by (cases xs) auto

section \<open>Byte buffers\<close>

text \<open>\<open>memcpy dst ofs src\<close> overwrites the bytes of \<open>dst\<close> from \<open>ofs\<close> on with \<open>src\<close>.\<close>

definition memcpy_at :: "'a list \<Rightarrow> nat \<Rightarrow> 'a list \<Rightarrow> 'a list" where
  "memcpy_at dst ofs src = take ofs dst @ src @ drop (ofs + length src) dst"

lemma length_memcpy_at [simp]:
  "ofs + length src \<le> length dst \<Longrightarrow> length (memcpy_at dst ofs src) = length dst"
  by (simp add: memcpy_at_def)

lemma memcpy_at_whole [simp]: "length src = length dst \<Longrightarrow> memcpy_at dst 0 src = src"
  by (simp add: memcpy_at_def)

lemma nth_memcpy_at:
  assumes "ofs + length src \<le> length dst" and "i < length dst"
  shows "memcpy_at dst ofs src ! i
    = (if ofs \<le> i \<and> i < ofs + length src then src ! (i - ofs) else dst ! i)"
  using assms by (auto simp: memcpy_at_def nth_append)

lemma take_drop_memcpy_at:
  "ofs + length src \<le> length dst \<Longrightarrow> take (length src) (drop ofs (memcpy_at dst ofs src)) = src"
  by (simp add: memcpy_at_def)

lemma memcpy_at_append:
  assumes "ofs + length a + length b \<le> length dst"
  shows "memcpy_at (memcpy_at dst ofs a) (ofs + length a) b = memcpy_at dst ofs (a @ b)"
  using assms by (simp add: memcpy_at_def ac_simps)

lemma memcpy_at_Nil [simp]: "memcpy_at dst ofs [] = dst"
  by (simp add: memcpy_at_def)

section \<open>Little-endian words\<close>

definition bytes_of_u32 :: "u32 \<Rightarrow> bytes" where
  "bytes_of_u32 w = [ucast w, ucast (drop_bit 8 w), ucast (drop_bit 16 w), ucast (drop_bit 24 w)]"

definition u32_of_bytes :: "bytes \<Rightarrow> u32" where
  "u32_of_bytes bs =
     ucast (bs ! 0) OR push_bit 8 (ucast (bs ! 1)) OR push_bit 16 (ucast (bs ! 2))
       OR push_bit 24 (ucast (bs ! 3))"

lemma length_bytes_of_u32 [simp]: "length (bytes_of_u32 w) = 4"
  by (simp add: bytes_of_u32_def)

lemma u32_of_bytes_of_u32 [simp]: "u32_of_bytes (bytes_of_u32 w) = w"
proof (rule bit_word_eqI)
  fix n
  assume "n < LENGTH(32)"
  then show "bit (u32_of_bytes (bytes_of_u32 w)) n \<longleftrightarrow> bit w n"
    by (cases "n < 24"; cases "n < 16")
      (auto simp: u32_of_bytes_def bytes_of_u32_def bit_or_iff bit_push_bit_iff bit_ucast_iff
        bit_drop_bit_eq)
qed

lemma u32_of_bytes_append [simp]:
  "u32_of_bytes (bytes_of_u32 w @ bs) = w"
  using u32_of_bytes_of_u32 [of w] by (simp add: u32_of_bytes_def bytes_of_u32_def)

end
