(* ===== verification/Kernel_Lock.thy ===== *)
theory Kernel_Lock
  imports Kernel_Prelude
begin

text \<open>
  Locks as their clients see them (\<^verbatim>\<open>threads/synch.c\<close>): a lock is the thread that holds it, if any.
  A computation of a thread that uses locks ends in one of four ways: it returns (\<open>Inr\<close>), it
  panics, it has to wait for another thread, or it copies past the end of a buffer. A waiting
  computation has not happened: the thread starts it again in the state the other threads leave.
\<close>

section \<open>Computations of one thread\<close>

type_synonym tid_t = nat

datatype stop = Panics | Waits | Overruns

definition andThen :: "stop + 'a \<Rightarrow> ('a \<Rightarrow> stop + 'b) \<Rightarrow> stop + 'b" where
  "andThen m f = (case m of Inl e \<Rightarrow> Inl e | Inr x \<Rightarrow> f x)"

lemma andThen_simps [simp]: "andThen (Inr x) f = f x" "andThen (Inl e) f = Inl e"
  by (simp_all add: andThen_def)

lemma andThen_eq_Inr: "andThen m f = Inr y \<longleftrightarrow> (\<exists>x. m = Inr x \<and> f x = Inr y)"
  by (cases m) auto

text \<open>The value of a computation that returns.\<close>

definition returned :: "stop + 'a \<Rightarrow> 'a option" where
  "returned m = (case m of Inl e \<Rightarrow> None | Inr x \<Rightarrow> Some x)"

lemma returned_simps [simp]: "returned (Inr x) = Some x" "returned (Inl e) = None"
  by (simp_all add: returned_def)

section \<open>Locks\<close>

type_synonym lock = "tid_t option"

definition lock_init :: lock where
  "lock_init = None"

definition lock_held_by_current_thread :: "tid_t \<Rightarrow> lock \<Rightarrow> bool" where
  "lock_held_by_current_thread me l \<longleftrightarrow> l = Some me"

definition lock_acquire :: "tid_t \<Rightarrow> lock \<Rightarrow> stop + lock" where
  "lock_acquire me l =
     (if lock_held_by_current_thread me l then Inl Panics
      else if l = None then Inr (Some me) else Inl Waits)"

definition lock_try_acquire :: "tid_t \<Rightarrow> lock \<Rightarrow> stop + bool \<times> lock" where
  "lock_try_acquire me l =
     (if lock_held_by_current_thread me l then Inl Panics
      else if l = None then Inr (True, Some me) else Inr (False, l))"

definition lock_release :: "tid_t \<Rightarrow> lock \<Rightarrow> stop + lock" where
  "lock_release me l = (if lock_held_by_current_thread me l then Inr None else Inl Panics)"

lemma lock_free_simps [simp]:
  "lock_acquire me None = Inr (Some me)" "lock_try_acquire me None = Inr (True, Some me)"
  "lock_release me (Some me) = Inr None"
  "lock_held_by_current_thread me None = False" "lock_held_by_current_thread me (Some t) = (t = me)"
  by (auto simp: lock_acquire_def lock_try_acquire_def lock_release_def lock_held_by_current_thread_def)

lemma lock_busy_simps:
  "t \<noteq> me \<Longrightarrow> lock_acquire me (Some t) = Inl Waits"
  "t \<noteq> me \<Longrightarrow> lock_try_acquire me (Some t) = Inr (False, Some t)"
  "t \<noteq> me \<Longrightarrow> lock_release me (Some t) = Inl Panics"
  "lock_acquire me (Some me) = Inl Panics" "lock_release me None = Inl Panics"
  by (auto simp: lock_acquire_def lock_try_acquire_def lock_release_def)

end
