(* ===== verification/Block_Device.thy ===== *)
theory Block_Device
  imports Kernel_Lock
begin

text \<open>
  Block devices (\<^verbatim>\<open>devices/block.c\<close>). A driver's \<^verbatim>\<open>read\<close> and \<^verbatim>\<open>write\<close> operations are the array of
  sectors \<open>contents\<close> they give access to; the counters are the statistics the device keeps.
\<close>

section \<open>A device\<close>

datatype block_type = BLOCK_KERNEL | BLOCK_FILESYS | BLOCK_SCRATCH | BLOCK_SWAP | BLOCK_RAW | BLOCK_FOREIGN

definition BLOCK_SECTOR_SIZE :: nat where
  "BLOCK_SECTOR_SIZE = 512"

record block =
  blk_name :: string
  blk_type :: block_type
  blk_size :: block_sector_t
  contents :: "block_sector_t \<Rightarrow> bytes"
  read_cnt :: u64
  write_cnt :: u64

definition block_type_name :: "block_type \<Rightarrow> string" where
  "block_type_name t = (case t of BLOCK_KERNEL \<Rightarrow> ''kernel'' | BLOCK_FILESYS \<Rightarrow> ''filesys''
     | BLOCK_SCRATCH \<Rightarrow> ''scratch'' | BLOCK_SWAP \<Rightarrow> ''swap'' | BLOCK_RAW \<Rightarrow> ''raw''
     | BLOCK_FOREIGN \<Rightarrow> ''foreign'')"

definition check_sector :: "block \<Rightarrow> block_sector_t \<Rightarrow> stop + unit" where
  "check_sector b sector = (if blk_size b \<le> sector then Inl Panics else Inr ())"

definition block_read :: "block \<Rightarrow> block_sector_t \<Rightarrow> stop + bytes \<times> block" where
  "block_read b sector = andThen (check_sector b sector) (\<lambda>_.
     Inr (contents b sector, b\<lparr>read_cnt := read_cnt b + 1\<rparr>))"

definition block_write :: "block \<Rightarrow> block_sector_t \<Rightarrow> bytes \<Rightarrow> stop + block" where
  "block_write b sector buffer = andThen (check_sector b sector) (\<lambda>_.
     if blk_type b = BLOCK_FOREIGN then Inl Panics
     else Inr (b\<lparr>contents := (contents b)(sector := buffer), write_cnt := write_cnt b + 1\<rparr>))"

section \<open>The registry of devices\<close>

text \<open>A device is its position in \<open>all_blocks\<close>, the probe order.\<close>

record block_registry =
  all_blocks :: "block list"
  block_by_role :: "block_type \<Rightarrow> nat option"

definition is_role :: "block_type \<Rightarrow> bool" where
  "is_role t \<longleftrightarrow> t \<in> {BLOCK_KERNEL, BLOCK_FILESYS, BLOCK_SCRATCH, BLOCK_SWAP}"

definition block_get_role :: "block_registry \<Rightarrow> block_type \<Rightarrow> nat option option" where
  "block_get_role r role = do { ASSERT (is_role role); Some (block_by_role r role) }"

definition block_set_role :: "block_registry \<Rightarrow> block_type \<Rightarrow> nat \<Rightarrow> block_registry option" where
  "block_set_role r role b = do {
     ASSERT (is_role role);
     Some (r\<lparr>block_by_role := (block_by_role r)(role := Some b)\<rparr>) }"

definition list_elem_to_block :: "block_registry \<Rightarrow> nat \<Rightarrow> nat option" where
  "list_elem_to_block r i = (if i \<noteq> length (all_blocks r) then Some i else None)"

definition block_first :: "block_registry \<Rightarrow> nat option" where
  "block_first r = list_elem_to_block r 0"

definition block_next :: "block_registry \<Rightarrow> nat \<Rightarrow> nat option" where
  "block_next r b = list_elem_to_block r (b + 1)"

fun block_get_by_name_from :: "string \<Rightarrow> nat \<Rightarrow> block list \<Rightarrow> nat option" where
  "block_get_by_name_from name i [] = None"
| "block_get_by_name_from name i (b # bs) =
     (if name = blk_name b then Some i else block_get_by_name_from name (i + 1) bs)"

definition block_get_by_name :: "block_registry \<Rightarrow> string \<Rightarrow> nat option" where
  "block_get_by_name r name = block_get_by_name_from name 0 (all_blocks r)"

text \<open>\<^verbatim>\<open>strlcpy\<close> into the 16 bytes of the name keeps 15 characters.\<close>

definition block_register ::
  "block_registry \<Rightarrow> string \<Rightarrow> block_type \<Rightarrow> block_sector_t \<Rightarrow> (block_sector_t \<Rightarrow> bytes) \<Rightarrow>
   nat \<times> block_registry" where
  "block_register r name t sz ops =
     (length (all_blocks r),
      r\<lparr>all_blocks := all_blocks r @
          [\<lparr>blk_name = take 15 name, blk_type = t, blk_size = sz, contents = ops,
            read_cnt = 0, write_cnt = 0\<rparr>]\<rparr>)"

section \<open>Lemmas\<close>

lemma block_read_ok: "sector < blk_size b \<Longrightarrow>
  block_read b sector = Inr (contents b sector, b\<lparr>read_cnt := read_cnt b + 1\<rparr>)"
  by (simp add: block_read_def check_sector_def not_le)

lemma block_write_ok: "sector < blk_size b \<Longrightarrow> blk_type b \<noteq> BLOCK_FOREIGN \<Longrightarrow>
  block_write b sector buffer
    = Inr (b\<lparr>contents := (contents b)(sector := buffer), write_cnt := write_cnt b + 1\<rparr>)"
  by (simp add: block_write_def check_sector_def not_le)

lemma block_past_end:
  "blk_size b \<le> sector \<Longrightarrow> block_read b sector = Inl Panics"
  "blk_size b \<le> sector \<Longrightarrow> block_write b sector buffer = Inl Panics"
  by (simp_all add: block_read_def block_write_def check_sector_def)

lemma block_get_by_name_from_append:
  "name \<notin> blk_name ` set bs \<Longrightarrow>
   block_get_by_name_from name i (bs @ [b]) = (if name = blk_name b then Some (i + length bs) else None)"
  by (induction name i bs rule: block_get_by_name_from.induct) auto

text \<open>A newly registered device is found by its name when no earlier device has that name.\<close>

lemma block_register_get_by_name:
  assumes "block_register r name t sz ops = (b, r')" and "length name \<le> 15"
    and "name \<notin> blk_name ` set (all_blocks r)"
  shows "block_get_by_name r' name = Some b"
  using assms block_get_by_name_from_append
  by (auto simp: block_register_def block_get_by_name_def)

end
