(* ===== verification/Buffer_Cache.thy ===== *)
theory Buffer_Cache
  imports Block_Device
begin

text \<open>
  The buffer cache (\<^verbatim>\<open>filesys/cache.c\<close>): 64 blocks, each with a lock, reader and writer counts, the
  sector it holds, its state bits and its data. Every operation is run by a thread \<open>me\<close>. The
  operations that hold \<open>cache_sync\<close> or a \<open>data_lock\<close> throughout are single steps; \<open>block_lock\<close> is
  what stays held between calls. \<open>Waits\<close> is a thread that blocks on a lock, or that sleeps a second
  in \<^verbatim>\<open>cache_lock\<close> before it tries again. A \<^verbatim>\<open>struct cache_block *\<close> is an index into \<open>cache\<close>.

  The first part translates the operations, the second shows that for one client at a time the
  cache is transparent: reads and writes of a sector act on the \<open>view\<close>, which is what the sector
  contains, whether it is cached or not. The last part exhibits interleavings in which it is not.
\<close>

section \<open>State\<close>

definition INVALID_SECTOR :: block_sector_t where
  "INVALID_SECTOR = -1"

definition CACHE_CNT :: nat where
  "CACHE_CNT = 64"

datatype lock_type = NON_EXCLUSIVE | EXCLUSIVE

record cache_block =
  block_lock :: lock
  readers :: int
  read_waiters :: int
  writers :: int
  write_waiters :: int
  sector :: block_sector_t
  up_to_date :: bool
  dirty :: bool
  data_lock :: lock
  data :: bytes

record buffer_cache =
  cache :: "cache_block list"
  cache_sync :: lock
  hand :: nat
  fs_device :: block

definition upd_block :: "nat \<Rightarrow> (cache_block \<Rightarrow> cache_block) \<Rightarrow> buffer_cache \<Rightarrow> buffer_cache" where
  "upd_block i f s = s\<lparr>cache := (cache s)[i := f (cache s ! i)]\<rparr>"

section \<open>Operations\<close>

definition clear_block :: "cache_block \<Rightarrow> cache_block" where
  "clear_block cb = cb\<lparr>sector := INVALID_SECTOR, up_to_date := False, dirty := False\<rparr>"

text \<open>\<open>raw\<close> is the memory of the static array before initialisation.\<close>

definition cache_init_block :: "cache_block \<Rightarrow> cache_block" where
  "cache_init_block cb = clear_block
     (cb\<lparr>block_lock := lock_init, data_lock := lock_init, readers := 0, read_waiters := 0,
        writers := 0, write_waiters := 0\<rparr>)"

definition cache_init :: "cache_block list \<Rightarrow> block \<Rightarrow> buffer_cache" where
  "cache_init raw dev =
     \<lparr>cache = map cache_init_block (take CACHE_CNT raw), cache_sync = lock_init, hand = 0,
      fs_device = dev\<rparr>"

text \<open>
  The loop that \<^verbatim>\<open>in_cache\<close> and \<^verbatim>\<open>find_empty\<close> share: try the lock of each block, return the first
  block whose sector passes the test with its lock held, and release the locks of the others.
\<close>

function scan_from :: "tid_t \<Rightarrow> (block_sector_t \<Rightarrow> bool) \<Rightarrow> nat \<Rightarrow> buffer_cache \<Rightarrow> stop + nat option \<times> buffer_cache" where
  "scan_from me p i s =
     (if i < CACHE_CNT then
        if \<not> lock_held_by_current_thread me (block_lock (cache s ! i)) then
          andThen (lock_try_acquire me (block_lock (cache s ! i))) (\<lambda>(success, l).
            if success then
              let s = upd_block i (block_lock_update (\<lambda>_. l)) s in
              if p (sector (cache s ! i)) then Inr (Some i, s)
              else andThen (lock_release me (block_lock (cache s ! i))) (\<lambda>l.
                scan_from me p (i + 1) (upd_block i (block_lock_update (\<lambda>_. l)) s))
            else scan_from me p (i + 1) s)
        else scan_from me p (i + 1) s
      else Inr (None, s))"
  by pat_completeness auto
termination
  by (relation "measure (\<lambda>(me, p, i, s). CACHE_CNT - i)") auto

declare scan_from.simps [simp del]

definition in_cache :: "tid_t \<Rightarrow> block_sector_t \<Rightarrow> buffer_cache \<Rightarrow> stop + nat option \<times> buffer_cache" where
  "in_cache me sec s = scan_from me (\<lambda>x. x = sec) 0 s"

definition find_empty :: "tid_t \<Rightarrow> buffer_cache \<Rightarrow> stop + nat option \<times> buffer_cache" where
  "find_empty me s = scan_from me (\<lambda>x. x = INVALID_SECTOR) 0 s"

definition flush_block :: "tid_t \<Rightarrow> nat \<Rightarrow> buffer_cache \<Rightarrow> stop + buffer_cache" where
  "flush_block me i s =
     andThen (lock_acquire me (data_lock (cache s ! i))) (\<lambda>l.
       let s = upd_block i (data_lock_update (\<lambda>_. l)) s; cb = cache s ! i in
       andThen
         (if dirty cb \<and> sector cb \<noteq> INVALID_SECTOR then
            andThen (block_write (fs_device s) (sector cb) (data cb)) (\<lambda>dev.
              Inr (upd_block i clear_block (s\<lparr>fs_device := dev\<rparr>)))
          else Inr s) (\<lambda>s.
       andThen (lock_release me (data_lock (cache s ! i))) (\<lambda>l.
         Inr (upd_block i (data_lock_update (\<lambda>_. l)) s))))"

definition unused :: "cache_block \<Rightarrow> bool" where
  "unused cb \<longleftrightarrow> readers cb = 0 \<and> read_waiters cb = 0 \<and> writers cb = 0 \<and> write_waiters cb = 0"

text \<open>The two loops of \<^verbatim>\<open>try_to_empty\<close>, which advance the clock hand up to a bound.\<close>

function try_to_empty_until :: "tid_t \<Rightarrow> nat \<Rightarrow> buffer_cache \<Rightarrow> stop + nat option \<times> buffer_cache" where
  "try_to_empty_until me bound s =
     (if hand s < bound then
        let i = hand s; nxt = s\<lparr>hand := hand s + 1\<rparr> in
        if \<not> lock_held_by_current_thread me (block_lock (cache s ! i)) then
          andThen (lock_try_acquire me (block_lock (cache s ! i))) (\<lambda>(success, l).
            if success then
              let s = upd_block i (block_lock_update (\<lambda>_. l)) s in
              if unused (cache s ! i) then andThen (flush_block me i s) (\<lambda>s. Inr (Some i, s))
              else andThen (lock_release me (block_lock (cache s ! i))) (\<lambda>l.
                try_to_empty_until me bound (upd_block i (block_lock_update (\<lambda>_. l)) (s\<lparr>hand := hand s + 1\<rparr>)))
            else try_to_empty_until me bound nxt)
        else try_to_empty_until me bound nxt
      else Inr (None, s))"
  by pat_completeness auto
termination
  by (relation "measure (\<lambda>(me, bound, s). bound - hand s)") (auto simp: upd_block_def)

declare try_to_empty_until.simps [simp del]

definition try_to_empty :: "tid_t \<Rightarrow> buffer_cache \<Rightarrow> stop + nat option \<times> buffer_cache" where
  "try_to_empty me s =
     (let hand_start = hand s in
      andThen (try_to_empty_until me CACHE_CNT s) (\<lambda>(found, s).
        if found \<noteq> None then Inr (found, s)
        else try_to_empty_until me hand_start (s\<lparr>hand := 0\<rparr>)))"

definition add_exclusive_lock :: "nat \<Rightarrow> buffer_cache \<Rightarrow> stop + buffer_cache" where
  "add_exclusive_lock i s = Inr (upd_block i (\<lambda>cb. cb\<lparr>writers := writers cb + 1\<rparr>) s)"

definition add_nonexclusive_lock :: "tid_t \<Rightarrow> nat \<Rightarrow> buffer_cache \<Rightarrow> stop + buffer_cache" where
  "add_nonexclusive_lock me i s =
     (let s = upd_block i (\<lambda>cb. cb\<lparr>readers := readers cb + 1\<rparr>) s in
      andThen (lock_release me (block_lock (cache s ! i))) (\<lambda>l.
        Inr (upd_block i (block_lock_update (\<lambda>_. l)) s)))"

definition add_lock :: "tid_t \<Rightarrow> nat \<Rightarrow> lock_type \<Rightarrow> buffer_cache \<Rightarrow> stop + buffer_cache" where
  "add_lock me i t s = (if t = EXCLUSIVE then add_exclusive_lock i s else add_nonexclusive_lock me i s)"

function cache_flush_from :: "tid_t \<Rightarrow> nat \<Rightarrow> buffer_cache \<Rightarrow> stop + buffer_cache" where
  "cache_flush_from me i s =
     (if i < CACHE_CNT then andThen (flush_block me i s) (cache_flush_from me (i + 1)) else Inr s)"
  by pat_completeness auto
termination
  by (relation "measure (\<lambda>(me, i, s). CACHE_CNT - i)") auto

declare cache_flush_from.simps [simp del]

definition with_cache_sync :: "tid_t \<Rightarrow> (buffer_cache \<Rightarrow> stop + 'a \<times> buffer_cache) \<Rightarrow> buffer_cache \<Rightarrow> stop + 'a \<times> buffer_cache" where
  "with_cache_sync me body s =
     andThen (lock_acquire me (cache_sync s)) (\<lambda>l.
       andThen (body (s\<lparr>cache_sync := l\<rparr>)) (\<lambda>(r, s).
         andThen (lock_release me (cache_sync s)) (\<lambda>l. Inr (r, s\<lparr>cache_sync := l\<rparr>))))"

definition cache_flush :: "tid_t \<Rightarrow> buffer_cache \<Rightarrow> stop + unit \<times> buffer_cache" where
  "cache_flush me s =
     with_cache_sync me (\<lambda>s. andThen (cache_flush_from me 0 s) (\<lambda>s. Inr ((), s))) s"

text \<open>
  One attempt of \<^verbatim>\<open>cache_lock\<close>, under \<open>cache_sync\<close>. An attempt that finds no block ends with the
  thread asleep; the next one starts from the beginning.
\<close>

definition cache_lock_attempt :: "tid_t \<Rightarrow> block_sector_t \<Rightarrow> lock_type \<Rightarrow> buffer_cache \<Rightarrow> stop + nat option \<times> buffer_cache" where
  "cache_lock_attempt me sec t s =
     andThen (in_cache me sec s) (\<lambda>(found, s).
       case found of
         Some i \<Rightarrow> andThen (add_lock me i t (upd_block i (sector_update (\<lambda>_. sec)) s)) (\<lambda>s. Inr (Some i, s))
       | None \<Rightarrow>
           andThen (find_empty me s) (\<lambda>(found, s).
             case found of
               Some i \<Rightarrow> andThen (add_lock me i t (upd_block i (sector_update (\<lambda>_. sec)) s)) (\<lambda>s. Inr (Some i, s))
             | None \<Rightarrow>
                 andThen (try_to_empty me s) (\<lambda>(found, s).
                   case found of
                     Some i \<Rightarrow> andThen (add_lock me i t
                         (upd_block i (\<lambda>cb. cb\<lparr>sector := sec, up_to_date := False\<rparr>) s)) (\<lambda>s. Inr (Some i, s))
                   | None \<Rightarrow> Inr (None, s))))"

definition cache_lock :: "tid_t \<Rightarrow> block_sector_t \<Rightarrow> lock_type \<Rightarrow> buffer_cache \<Rightarrow> stop + nat \<times> buffer_cache" where
  "cache_lock me sec t s =
     andThen (with_cache_sync me (cache_lock_attempt me sec t) s) (\<lambda>(found, s).
       case found of Some i \<Rightarrow> Inr (i, s) | None \<Rightarrow> Inl Waits)"

text \<open>The pointer \<^verbatim>\<open>cache_read\<close> returns is the data of the block.\<close>

definition cache_read :: "tid_t \<Rightarrow> nat \<Rightarrow> buffer_cache \<Rightarrow> stop + buffer_cache" where
  "cache_read me i s =
     andThen (lock_acquire me (data_lock (cache s ! i))) (\<lambda>l.
       let s = upd_block i (data_lock_update (\<lambda>_. l)) s in
       if up_to_date (cache s ! i) then
         andThen (lock_release me (data_lock (cache s ! i))) (\<lambda>l.
           Inr (upd_block i (data_lock_update (\<lambda>_. l)) s))
       else
         let s = upd_block i (up_to_date_update (\<lambda>_. True)) s in
         andThen (block_read (fs_device s) (sector (cache s ! i))) (\<lambda>(bs, dev).
           let s = upd_block i (data_update (\<lambda>_. bs)) (s\<lparr>fs_device := dev\<rparr>) in
           andThen (lock_release me (data_lock (cache s ! i))) (\<lambda>l.
             Inr (upd_block i (data_lock_update (\<lambda>_. l)) s))))"

definition cache_write :: "tid_t \<Rightarrow> nat \<Rightarrow> bytes \<Rightarrow> nat \<Rightarrow> buffer_cache \<Rightarrow> stop + buffer_cache" where
  "cache_write me i src offset s =
     andThen (lock_acquire me (data_lock (cache s ! i))) (\<lambda>l.
       let s = upd_block i (\<lambda>cb. cb\<lparr>data_lock := l, up_to_date := True, dirty := True\<rparr>) s in
       if offset + length src \<le> BLOCK_SECTOR_SIZE then
         let s = upd_block i (\<lambda>cb. cb\<lparr>data := memcpy_at (data cb) offset src\<rparr>) s in
         andThen (lock_release me (data_lock (cache s ! i))) (\<lambda>l.
           Inr (upd_block i (data_lock_update (\<lambda>_. l)) s))
       else Inl Overruns)"

text \<open>\<^verbatim>\<open>cache_zero\<close> returns null unless the caller holds the block exclusively.\<close>

definition cache_zero :: "tid_t \<Rightarrow> nat \<Rightarrow> buffer_cache \<Rightarrow> stop + nat option \<times> buffer_cache" where
  "cache_zero me i s =
     (if lock_held_by_current_thread me (block_lock (cache s ! i)) then
        andThen (lock_acquire me (data_lock (cache s ! i))) (\<lambda>l.
          let s = upd_block i (\<lambda>cb. cb\<lparr>data_lock := l, data := replicate BLOCK_SECTOR_SIZE 0\<rparr>) s in
          andThen (lock_release me (data_lock (cache s ! i))) (\<lambda>l.
            Inr (Some i, upd_block i (data_lock_update (\<lambda>_. l)) s)))
      else Inr (None, s))"

definition cache_dirty :: "tid_t \<Rightarrow> nat \<Rightarrow> buffer_cache \<Rightarrow> stop + buffer_cache" where
  "cache_dirty me i s =
     andThen (lock_acquire me (block_lock (cache s ! i))) (\<lambda>l.
       let s = upd_block i (\<lambda>cb. cb\<lparr>block_lock := l, dirty := True\<rparr>) s in
       andThen (lock_release me (block_lock (cache s ! i))) (\<lambda>l.
         Inr (upd_block i (block_lock_update (\<lambda>_. l)) s)))"

definition cache_unlock :: "tid_t \<Rightarrow> nat \<Rightarrow> buffer_cache \<Rightarrow> stop + buffer_cache" where
  "cache_unlock me i s =
     (if \<not> lock_held_by_current_thread me (block_lock (cache s ! i)) then
        andThen (lock_acquire me (block_lock (cache s ! i))) (\<lambda>l.
          let s = upd_block i (\<lambda>cb. cb\<lparr>block_lock := l, readers := readers cb - 1\<rparr>) s in
          andThen (lock_release me (block_lock (cache s ! i))) (\<lambda>l.
            Inr (upd_block i (block_lock_update (\<lambda>_. l)) s)))
      else
        let s = upd_block i (\<lambda>cb. cb\<lparr>writers := writers cb - 1\<rparr>) s in
        andThen (lock_release me (block_lock (cache s ! i))) (\<lambda>l.
          Inr (upd_block i (block_lock_update (\<lambda>_. l)) s)))"

definition cache_free :: "tid_t \<Rightarrow> block_sector_t \<Rightarrow> buffer_cache \<Rightarrow> stop + buffer_cache" where
  "cache_free me sec s =
     andThen (in_cache me sec s) (\<lambda>(found, s).
       case found of
         None \<Rightarrow> Inr s
       | Some i \<Rightarrow>
           andThen (lock_acquire me (block_lock (cache s ! i))) (\<lambda>l.
             let s = upd_block i (\<lambda>cb. clear_block (cb\<lparr>block_lock := l\<rparr>)) s in
             andThen (lock_release me (block_lock (cache s ! i))) (\<lambda>l.
               Inr (upd_block i (block_lock_update (\<lambda>_. l)) s))))"

definition full_read :: "tid_t \<Rightarrow> block_sector_t \<Rightarrow> nat \<Rightarrow> nat \<Rightarrow> buffer_cache \<Rightarrow> stop + bytes \<times> buffer_cache" where
  "full_read me sec sz offset s =
     andThen (cache_lock me sec NON_EXCLUSIVE s) (\<lambda>(i, s).
       andThen (cache_read me i s) (\<lambda>s.
         if offset + sz \<le> BLOCK_SECTOR_SIZE then
           let buffer = take sz (drop offset (data (cache s ! i))) in
           andThen (cache_unlock me i s) (\<lambda>s. Inr (buffer, s))
         else Inl Overruns))"

definition full_write :: "tid_t \<Rightarrow> block_sector_t \<Rightarrow> bytes \<Rightarrow> nat \<Rightarrow> buffer_cache \<Rightarrow> stop + buffer_cache" where
  "full_write me sec buffer offset s =
     andThen (cache_lock me sec EXCLUSIVE s) (\<lambda>(i, s).
       andThen
         (if offset = 0 \<and> length buffer = BLOCK_SECTOR_SIZE then cache_write me i buffer offset s
          else andThen (cache_read me i s) (cache_write me i buffer offset))
         (cache_unlock me i))"

section \<open>Invariant and view\<close>

text \<open>What a sector contains: the data of the up-to-date block that holds it, or the disk.\<close>

definition view :: "buffer_cache \<Rightarrow> block_sector_t \<Rightarrow> bytes" where
  "view s sec = (case find (\<lambda>cb. sector cb = sec \<and> up_to_date cb) (cache s) of
     Some cb \<Rightarrow> data cb | None \<Rightarrow> contents (fs_device s) sec)"

definition block_ok :: "block \<Rightarrow> cache_block \<Rightarrow> bool" where
  "block_ok dev cb \<longleftrightarrow> length (data cb) = BLOCK_SECTOR_SIZE
     \<and> (if sector cb = INVALID_SECTOR then \<not> up_to_date cb \<and> \<not> dirty cb else sector cb < blk_size dev)
     \<and> (dirty cb \<longrightarrow> up_to_date cb)
     \<and> (up_to_date cb \<and> \<not> dirty cb \<longrightarrow> data cb = contents dev (sector cb))"

definition dev_ok :: "block \<Rightarrow> bool" where
  "dev_ok dev \<longleftrightarrow> blk_type dev \<noteq> BLOCK_FOREIGN \<and> (\<forall>sec. length (contents dev sec) = BLOCK_SECTOR_SIZE)"

definition data_inv :: "buffer_cache \<Rightarrow> bool" where
  "data_inv s \<longleftrightarrow> length (cache s) = CACHE_CNT \<and> dev_ok (fs_device s)
     \<and> (\<forall>i < CACHE_CNT. block_ok (fs_device s) (cache s ! i))
     \<and> (\<forall>i < CACHE_CNT. \<forall>j < CACHE_CNT. i \<noteq> j \<longrightarrow> sector (cache s ! i) = sector (cache s ! j) \<longrightarrow>
          sector (cache s ! i) = INVALID_SECTOR)"

text \<open>No thread is inside the cache: no lock is held and no block is pinned.\<close>

definition quiet :: "cache_block \<Rightarrow> bool" where
  "quiet cb \<longleftrightarrow> block_lock cb = None \<and> data_lock cb = None \<and> unused cb"

definition cache_inv :: "buffer_cache \<Rightarrow> bool" where
  "cache_inv s \<longleftrightarrow> data_inv s \<and> cache_sync s = None \<and> hand s < CACHE_CNT
     \<and> (\<forall>i < CACHE_CNT. quiet (cache s ! i))"

text \<open>Block \<open>i\<close> is pinned by \<open>me\<close>, everything else is quiet.\<close>

definition held :: "tid_t \<Rightarrow> lock_type \<Rightarrow> cache_block \<Rightarrow> bool" where
  "held me t cb \<longleftrightarrow> data_lock cb = None \<and> read_waiters cb = 0 \<and> write_waiters cb = 0
     \<and> (case t of EXCLUSIVE \<Rightarrow> block_lock cb = Some me \<and> writers cb = 1 \<and> readers cb = 0
        | NON_EXCLUSIVE \<Rightarrow> block_lock cb = None \<and> writers cb = 0 \<and> readers cb = 1)"

definition pinned :: "tid_t \<Rightarrow> lock_type \<Rightarrow> nat \<Rightarrow> buffer_cache \<Rightarrow> bool" where
  "pinned me t i s \<longleftrightarrow> data_inv s \<and> cache_sync s = None \<and> hand s < CACHE_CNT \<and> i < CACHE_CNT
     \<and> held me t (cache s ! i) \<and> (\<forall>j < CACHE_CNT. j \<noteq> i \<longrightarrow> quiet (cache s ! j))"

lemma upd_block_simps [simp]:
  "cache (upd_block i f s) = (cache s)[i := f (cache s ! i)]"
  "fs_device (upd_block i f s) = fs_device s"
  "cache_sync (upd_block i f s) = cache_sync s"
  "hand (upd_block i f s) = hand s"
  by (simp_all add: upd_block_def)

lemma upd_block_upd_block [simp]:
  "i < length (cache s) \<Longrightarrow> upd_block i f (upd_block i g s) = upd_block i (f \<circ> g) s"
  by (simp add: upd_block_def)

lemma upd_block_same: "f (cache s ! i) = cache s ! i \<Longrightarrow> upd_block i f s = s"
  by (simp add: upd_block_def)

lemma view_cached:
  assumes "data_inv s" "i < CACHE_CNT" "up_to_date (cache s ! i)" "sector (cache s ! i) = sec"
  shows "view s sec = data (cache s ! i)"
proof -
  have "find (\<lambda>cb. sector cb = sec \<and> up_to_date cb) (cache s) \<noteq> None"
    using assms by (auto simp: find_None_iff data_inv_def)
  then obtain cb where cb: "find (\<lambda>cb. sector cb = sec \<and> up_to_date cb) (cache s) = Some cb" by blast
  then obtain j where j: "j < CACHE_CNT" "cb = cache s ! j" "sector cb = sec" "up_to_date cb"
    using assms(1) by (auto simp: find_Some_iff data_inv_def)
  have "sector cb \<noteq> INVALID_SECTOR" using assms(1) j by (auto simp: data_inv_def block_ok_def)
  then have "j = i" using assms j unfolding data_inv_def by metis
  then show ?thesis using cb j by (simp add: view_def)
qed

lemma view_uncached:
  assumes "length (cache s) = CACHE_CNT"
    and "\<And>i. i < CACHE_CNT \<Longrightarrow> sector (cache s ! i) = sec \<Longrightarrow> \<not> up_to_date (cache s ! i)"
  shows "view s sec = contents (fs_device s) sec"
proof -
  have "find (\<lambda>cb. sector cb = sec \<and> up_to_date cb) (cache s) = None"
    using assms by (auto simp: find_None_iff in_set_conv_nth)
  then show ?thesis by (simp add: view_def)
qed

lemma view_length: "data_inv s \<Longrightarrow> length (view s sec) = BLOCK_SECTOR_SIZE"
  by (auto simp: view_def data_inv_def dev_ok_def block_ok_def find_Some_iff split: option.splits)

text \<open>Replacing one block, and possibly the disk, at once.\<close>

definition put :: "nat \<Rightarrow> cache_block \<Rightarrow> block \<Rightarrow> buffer_cache \<Rightarrow> buffer_cache" where
  "put i cb dev s = s\<lparr>cache := (cache s)[i := cb], fs_device := dev\<rparr>"

lemma view_put:
  assumes inv: "data_inv s" "data_inv (put i cb dev s)" and i: "i < CACHE_CNT"
  shows "view (put i cb dev s) sec =
    (if up_to_date cb \<and> sector cb = sec then data cb
     else if \<exists>j < CACHE_CNT. j \<noteq> i \<and> sector (cache s ! j) = sec \<and> up_to_date (cache s ! j) then view s sec
     else contents dev sec)"
proof -
  have len: "length (cache s) = CACHE_CNT" using inv(1) by (simp add: data_inv_def)
  have nth: "cache (put i cb dev s) ! j = (if j = i then cb else cache s ! j)" if "j < CACHE_CNT" for j
    using that len by (simp add: put_def)
  show ?thesis
  proof (cases "up_to_date cb \<and> sector cb = sec")
    case True
    then show ?thesis using view_cached [OF inv(2) i, of sec] nth [OF i] by simp
  next
    case nf: False
    show ?thesis
    proof (cases "\<exists>j < CACHE_CNT. j \<noteq> i \<and> sector (cache s ! j) = sec \<and> up_to_date (cache s ! j)")
      case True
      then obtain j where j: "j < CACHE_CNT" "j \<noteq> i" "sector (cache s ! j) = sec" "up_to_date (cache s ! j)"
        by blast
      then have "view (put i cb dev s) sec = view s sec"
        using view_cached [OF inv(2) j(1), of sec] view_cached [OF inv(1) j(1), of sec] nth [OF j(1)]
        by simp
      then show ?thesis using True nf by auto
    next
      case False
      have "\<not> up_to_date (cache (put i cb dev s) ! j)"
        if "j < CACHE_CNT" "sector (cache (put i cb dev s) ! j) = sec" for j
        using False nf nth [OF that(1)] that by (auto split: if_splits)
      then have "view (put i cb dev s) sec = contents (fs_device (put i cb dev s)) sec"
        by (intro view_uncached) (auto simp: len put_def)
      then show ?thesis using False nf by (auto simp: put_def)
    qed
  qed
qed

lemma data_inv_put:
  assumes inv: "data_inv s" and i: "i < CACHE_CNT"
    and dev: "dev_ok dev" "blk_size dev = blk_size (fs_device s)"
    and cb: "block_ok dev cb"
    and other: "\<And>j. j < CACHE_CNT \<Longrightarrow> j \<noteq> i \<Longrightarrow> sector (cache s ! j) = sector cb \<Longrightarrow> sector cb = INVALID_SECTOR"
    and same: "\<And>j. j < CACHE_CNT \<Longrightarrow> j \<noteq> i \<Longrightarrow> sector (cache s ! j) \<noteq> INVALID_SECTOR \<Longrightarrow>
      contents dev (sector (cache s ! j)) = contents (fs_device s) (sector (cache s ! j))"
  shows "data_inv (put i cb dev s)"
proof -
  have len: "length (cache s) = CACHE_CNT" using inv by (simp add: data_inv_def)
  have "block_ok dev (cache s ! j)" if "j < CACHE_CNT" "j \<noteq> i" for j
  proof -
    have "block_ok (fs_device s) (cache s ! j)" using inv that by (simp add: data_inv_def)
    then show ?thesis using dev same [OF that] unfolding block_ok_def by (simp split: if_splits)
  qed
  moreover have "sector (cache s ! j) = INVALID_SECTOR"
    if "j < CACHE_CNT" "k < CACHE_CNT" "j \<noteq> k" "sector (cache s ! j) = sector (cache s ! k)" for j k
    using inv that unfolding data_inv_def by blast
  ultimately show ?thesis
    using dev cb i other unfolding data_inv_def put_def
    by (auto simp: nth_list_update len)
qed

text \<open>The last part of the invariant depends only on the data of the blocks, not on their locks.\<close>

lemma data_inv_locks:
  assumes "data_inv s" and "i < CACHE_CNT"
    and "sector cb = sector (cache s ! i)" "up_to_date cb = up_to_date (cache s ! i)"
      "dirty cb = dirty (cache s ! i)" "data cb = data (cache s ! i)"
    and "dev_ok dev" "contents dev = contents (fs_device s)" "blk_size dev = blk_size (fs_device s)"
  shows "data_inv (put i cb dev s)" "view (put i cb dev s) = view s"
proof -
  have "block_ok (fs_device s) (cache s ! i)" using assms(1,2) by (simp add: data_inv_def)
  then have "block_ok dev cb" using assms(3-) by (simp add: block_ok_def)
  then show inv: "data_inv (put i cb dev s)"
    using assms unfolding data_inv_def [of s] by (intro data_inv_put) (auto simp: assms(1))
  show "view (put i cb dev s) = view s"
  proof
    fix sec
    show "view (put i cb dev s) sec = view s sec"
    proof (cases "\<exists>j < CACHE_CNT. sector (cache s ! j) = sec \<and> up_to_date (cache s ! j)")
      case True
      then show ?thesis
        using view_put [OF assms(1) inv assms(2), of sec] assms(2-) view_cached [OF assms(1,2), of sec]
        by (auto split: if_splits)
    next
      case False
      then have "view s sec = contents (fs_device s) sec"
        using assms(1) by (intro view_uncached) (auto simp: data_inv_def)
      then show ?thesis
        using False view_put [OF assms(1) inv assms(2), of sec] assms(2-) by auto
    qed
  qed
qed

section \<open>The operations for one client at a time\<close>

text \<open>The thread holds no block itself.\<close>

abbreviation holds_none :: "tid_t \<Rightarrow> buffer_cache \<Rightarrow> bool" where
  "holds_none me s \<equiv> length (cache s) = CACHE_CNT \<and> (\<forall>i < CACHE_CNT. block_lock (cache s ! i) \<noteq> Some me)"

lemma relock [simp]:
  "block_lock cb = None \<Longrightarrow> cb\<lparr>block_lock := None\<rparr> = cb"
  "data_lock cb = None \<Longrightarrow> cb\<lparr>data_lock := None\<rparr> = cb"
  by (cases cb; simp)+

lemma scan_from_spec:
  assumes "holds_none me s"
  shows "(\<exists>k < CACHE_CNT. i \<le> k \<and> block_lock (cache s ! k) = None \<and> p (sector (cache s ! k))
      \<and> scan_from me p i s = Inr (Some k, upd_block k (block_lock_update (\<lambda>_. Some me)) s))
    \<or> ((\<forall>k < CACHE_CNT. i \<le> k \<longrightarrow> block_lock (cache s ! k) = None \<longrightarrow> \<not> p (sector (cache s ! k)))
      \<and> scan_from me p i s = Inr (None, s))"
  using assms
proof (induction "CACHE_CNT - i" arbitrary: i)
  case 0
  then show ?case by (auto simp: scan_from.simps)
next
  case (Suc n)
  let ?cb = "cache s ! i"
  have i: "i < CACHE_CNT" using Suc.hyps(2) by simp
  then have lk: "block_lock ?cb \<noteq> Some me" and len: "i < length (cache s)" using Suc.prems by auto
  show ?case
  proof (cases "block_lock ?cb = None \<and> p (sector ?cb)")
    case True
    then show ?thesis using i len by (intro disjI1 exI [of _ i]) (simp add: scan_from.simps [of me p i])
  next
    case False
    have "scan_from me p i s = scan_from me p (Suc i) s"
    proof (cases "block_lock ?cb")
      case None
      then show ?thesis using False i len by (simp add: scan_from.simps [of me p i] upd_block_same)
    next
      case (Some t)
      then show ?thesis using lk i by (simp add: scan_from.simps [of me p i] lock_busy_simps)
    qed
    moreover have "(\<forall>k < CACHE_CNT. i \<le> k \<longrightarrow> block_lock (cache s ! k) = None \<longrightarrow> \<not> p (sector (cache s ! k)))
      \<longleftrightarrow> (\<forall>k < CACHE_CNT. Suc i \<le> k \<longrightarrow> block_lock (cache s ! k) = None \<longrightarrow> \<not> p (sector (cache s ! k)))"
      using False by (metis Suc_leD Suc_leI le_neq_implies_less)
    ultimately show ?thesis
      using Suc.hyps(1) [of "Suc i"] Suc.hyps(2) Suc.prems by (metis Suc_leD diff_Suc diff_Suc_Suc nat.case(2))
  qed
qed

text \<open>The state after one block has been written back.\<close>

definition flushed :: "nat \<Rightarrow> buffer_cache \<Rightarrow> buffer_cache" where
  "flushed i s =
    (if dirty (cache s ! i) \<and> sector (cache s ! i) \<noteq> INVALID_SECTOR
     then put i (clear_block (cache s ! i))
       (fs_device s\<lparr>contents := (contents (fs_device s))(sector (cache s ! i) := data (cache s ! i)),
          write_cnt := write_cnt (fs_device s) + 1\<rparr>) s
     else s)"

lemma flush_block_flushed:
  assumes "data_inv s" and "i < CACHE_CNT" and "data_lock (cache s ! i) = None"
  shows "flush_block me i s = Inr (flushed i s)"
proof -
  have dl: "data_lock (cache s ! i) = None" "i < length (cache s)"
    using assms by (auto simp: data_inv_def)
  have "block_ok (fs_device s) (cache s ! i)" using assms(1,2) by (simp add: data_inv_def)
  then have sec: "sector (cache s ! i) \<noteq> INVALID_SECTOR \<Longrightarrow> sector (cache s ! i) < blk_size (fs_device s)"
    by (simp add: block_ok_def)
  have relock_clear: "(clear_block (cb\<lparr>data_lock := l\<rparr>))\<lparr>data_lock := None\<rparr> = clear_block cb"
    if "data_lock cb = None" for cb l
    using that by (cases cb) (simp add: clear_block_def)
  have lock_clear: "data_lock (clear_block (cb\<lparr>data_lock := l\<rparr>)) = l" for cb l
    by (simp add: clear_block_def)
  show ?thesis
  proof (cases "dirty (cache s ! i) \<and> sector (cache s ! i) \<noteq> INVALID_SECTOR")
    case True
    then have "block_write (fs_device s) (sector (cache s ! i)) (data (cache s ! i)) =
      Inr (fs_device s\<lparr>contents := (contents (fs_device s))(sector (cache s ! i) := data (cache s ! i)),
          write_cnt := write_cnt (fs_device s) + 1\<rparr>)"
      using sec assms(1) by (intro block_write_ok) (auto simp: data_inv_def dev_ok_def)
    with True dl show ?thesis
      by (simp add: flush_block_def flushed_def put_def upd_block_def lock_clear relock_clear)
  next
    case False
    then have "flush_block me i s = Inr s"
      using dl by (auto simp: flush_block_def upd_block_same)
    with False show ?thesis by (auto simp: flushed_def)
  qed
qed

lemma upd_block_put: "upd_block i f s = put i (f (cache s ! i)) (fs_device s) s"
  by (simp add: upd_block_def put_def)

lemma put_simps [simp]:
  "cache (put i cb dev s) = (cache s)[i := cb]" "fs_device (put i cb dev s) = dev"
  "hand (put i cb dev s) = hand s" "cache_sync (put i cb dev s) = cache_sync s"
  by (simp_all add: put_def)

lemma data_inv_length: "data_inv s \<Longrightarrow> length (cache s) = CACHE_CNT"
  by (simp add: data_inv_def)

lemma data_inv_block: "data_inv s \<Longrightarrow> i < CACHE_CNT \<Longrightarrow> block_ok (fs_device s) (cache s ! i)"
  by (simp add: data_inv_def)

lemma data_inv_sectors:
  "data_inv s \<Longrightarrow> i < CACHE_CNT \<Longrightarrow> j < CACHE_CNT \<Longrightarrow> i \<noteq> j \<Longrightarrow>
   sector (cache s ! i) = sector (cache s ! j) \<Longrightarrow> sector (cache s ! i) = INVALID_SECTOR"
  unfolding data_inv_def by blast

text \<open>Giving up a clean block: its data is on the disk.\<close>

lemma replace_clean_block:
  assumes inv: "data_inv s" and i: "i < CACHE_CNT"
    and clean: "\<not> up_to_date cb" "\<not> dirty cb" "length (data cb) = BLOCK_SECTOR_SIZE"
    and sec: "sector cb \<noteq> INVALID_SECTOR \<Longrightarrow> sector cb < blk_size (fs_device s)"
      "\<And>j. j < CACHE_CNT \<Longrightarrow> j \<noteq> i \<Longrightarrow> sector (cache s ! j) \<noteq> INVALID_SECTOR \<Longrightarrow>
        sector (cache s ! j) \<noteq> sector cb"
    and dev: "dev_ok dev" "blk_size dev = blk_size (fs_device s)"
    and written: "contents dev = (if dirty (cache s ! i)
        then (contents (fs_device s))(sector (cache s ! i) := data (cache s ! i))
        else contents (fs_device s))"
  shows "data_inv (put i cb dev s)" "view (put i cb dev s) = view s"
proof -
  have old: "block_ok (fs_device s) (cache s ! i)" using inv i by (rule data_inv_block)
  have ne: "sector (cache s ! j) \<noteq> sector (cache s ! i)"
    if "j < CACHE_CNT" "j \<noteq> i" "sector (cache s ! j) \<noteq> INVALID_SECTOR" for j
    using data_inv_sectors [OF inv that(1) i that(2)] that(3) by metis
  show inv': "data_inv (put i cb dev s)"
  proof (rule data_inv_put [OF inv i dev])
    show "block_ok dev cb" using clean sec(1) dev by (simp add: block_ok_def)
    show "sector (cache s ! j) = sector cb \<Longrightarrow> sector cb = INVALID_SECTOR"
      if "j < CACHE_CNT" "j \<noteq> i" for j
      using sec(2) [OF that] by metis
    show "contents dev (sector (cache s ! j)) = contents (fs_device s) (sector (cache s ! j))"
      if "j < CACHE_CNT" "j \<noteq> i" "sector (cache s ! j) \<noteq> INVALID_SECTOR" for j
      using ne [OF that] written by simp
  qed
  show "view (put i cb dev s) = view s"
  proof
    fix x
    let ?other = "\<exists>j < CACHE_CNT. j \<noteq> i \<and> sector (cache s ! j) = x \<and> up_to_date (cache s ! j)"
    have v: "view (put i cb dev s) x = (if ?other then view s x else contents dev x)"
      using view_put [OF inv inv' i, of x] clean(1) by simp
    show "view (put i cb dev s) x = view s x"
    proof (cases "?other")
      case False
      show ?thesis
      proof (cases "sector (cache s ! i) = x \<and> up_to_date (cache s ! i)")
        case True
        then have "view s x = data (cache s ! i)" using view_cached [OF inv i] by blast
        moreover have "contents dev x = data (cache s ! i)"
          using True written old by (auto simp: block_ok_def)
        ultimately show ?thesis using v False by simp
      next
        case nf: False
        then have "view s x = contents (fs_device s) x"
          using False data_inv_length [OF inv] by (intro view_uncached) auto
        moreover have "contents dev x = contents (fs_device s) x"
          using nf written old by (auto simp: block_ok_def)
        ultimately show ?thesis using v False by auto
      qed
    qed (use v in auto)
  qed
qed

lemma flushed_props:
  assumes inv: "data_inv s" and i: "i < CACHE_CNT"
  shows "data_inv (flushed i s)" "view (flushed i s) = view s" "\<not> dirty (cache (flushed i s) ! i)"
    "hand (flushed i s) = hand s" "cache_sync (flushed i s) = cache_sync s"
    "blk_size (fs_device (flushed i s)) = blk_size (fs_device s)"
    "j \<noteq> i \<Longrightarrow> cache (flushed i s) ! j = cache s ! j"
    "sector (cache (flushed i s) ! i) \<in> {sector (cache s ! i), INVALID_SECTOR}"
    "quiet (cache s ! j) \<Longrightarrow> quiet (cache (flushed i s) ! j)"
proof -
  let ?cb = "cache s ! i"
  have old: "block_ok (fs_device s) ?cb" using inv i by (rule data_inv_block)
  have len: "length (cache s) = CACHE_CNT" using inv by (rule data_inv_length)
  have "data_inv (flushed i s) \<and> view (flushed i s) = view s"
  proof (cases "dirty ?cb \<and> sector ?cb \<noteq> INVALID_SECTOR")
    case True
    let ?dev = "fs_device s\<lparr>contents := (contents (fs_device s))(sector ?cb := data ?cb),
      write_cnt := write_cnt (fs_device s) + 1\<rparr>"
    have "dev_ok ?dev" using inv old by (auto simp: data_inv_def dev_ok_def block_ok_def)
    then have "data_inv (put i (clear_block ?cb) ?dev s)" "view (put i (clear_block ?cb) ?dev s) = view s"
      using True old
      by (intro replace_clean_block [OF inv i]; simp add: clear_block_def block_ok_def)+
    with True show ?thesis by (simp add: flushed_def)
  qed (use inv in \<open>auto simp: flushed_def\<close>)
  then show "data_inv (flushed i s)" "view (flushed i s) = view s" by auto
  show "\<not> dirty (cache (flushed i s) ! i)"
    using old i len by (auto simp: flushed_def clear_block_def block_ok_def)
  show "quiet (cache s ! j) \<Longrightarrow> quiet (cache (flushed i s) ! j)"
    using i len by (cases "j = i") (auto simp: flushed_def clear_block_def quiet_def unused_def)
qed (auto simp: flushed_def clear_block_def i data_inv_length [OF inv])

lemma flushed_nth:
  assumes "data_inv s" and "i < CACHE_CNT"
  shows "cache (flushed i s) ! j = (if j = i \<and> dirty (cache s ! i) then clear_block (cache s ! i) else cache s ! j)"
proof -
  have "dirty (cache s ! i) \<Longrightarrow> sector (cache s ! i) \<noteq> INVALID_SECTOR"
    using data_inv_block [OF assms] by (auto simp: block_ok_def split: if_splits)
  then show ?thesis using assms by (auto simp: flushed_def data_inv_length)
qed

lemma clear_block_simps [simp]:
  "block_lock (clear_block cb) = block_lock cb" "data_lock (clear_block cb) = data_lock cb"
  "sector (clear_block cb) = INVALID_SECTOR" "\<not> dirty (clear_block cb)" "\<not> up_to_date (clear_block cb)"
  "data (clear_block cb) = data cb" "quiet (clear_block cb) = quiet cb" "held me t (clear_block cb) = held me t cb"
  by (auto simp: clear_block_def quiet_def unused_def held_def split: lock_type.splits)

text \<open>Flushing writes back and empties exactly the dirty blocks, whoever has them pinned.\<close>

lemma cache_flush_from_spec:
  assumes "data_inv s" and "\<forall>j < CACHE_CNT. data_lock (cache s ! j) = None" and "i \<le> CACHE_CNT"
  shows "\<exists>s'. cache_flush_from me i s = Inr s' \<and> data_inv s' \<and> view s' = view s \<and> hand s' = hand s
    \<and> cache_sync s' = cache_sync s \<and> blk_size (fs_device s') = blk_size (fs_device s)
    \<and> (\<forall>j < CACHE_CNT. cache s' ! j
          = (if i \<le> j \<and> dirty (cache s ! j) then clear_block (cache s ! j) else cache s ! j))"
  using assms
proof (induction "CACHE_CNT - i" arbitrary: i s)
  case 0
  then show ?case by (subst cache_flush_from.simps) auto
next
  case (Suc n)
  then have i: "i < CACHE_CNT" by simp
  note fl = flushed_props [OF Suc.prems(1) i] and nth = flushed_nth [OF Suc.prems(1) i]
  have "flush_block me i s = Inr (flushed i s)"
    using Suc.prems(1,2) i by (intro flush_block_flushed) auto
  then have step: "cache_flush_from me i s = cache_flush_from me (i + 1) (flushed i s)"
    using i by (simp add: cache_flush_from.simps [of me i])
  have "\<exists>s'. cache_flush_from me (i + 1) (flushed i s) = Inr s' \<and> data_inv s' \<and> view s' = view (flushed i s)
    \<and> hand s' = hand (flushed i s) \<and> cache_sync s' = cache_sync (flushed i s)
    \<and> blk_size (fs_device s') = blk_size (fs_device (flushed i s))
    \<and> (\<forall>j < CACHE_CNT. cache s' ! j = (if i + 1 \<le> j \<and> dirty (cache (flushed i s) ! j)
          then clear_block (cache (flushed i s) ! j) else cache (flushed i s) ! j))"
    using Suc.hyps(2) i Suc.prems(2) fl(1) by (intro Suc.hyps(1)) (auto simp: nth)
  then obtain s' where s': "cache_flush_from me (i + 1) (flushed i s) = Inr s'" "data_inv s'"
    "view s' = view (flushed i s)" "hand s' = hand (flushed i s)" "cache_sync s' = cache_sync (flushed i s)"
    "blk_size (fs_device s') = blk_size (fs_device (flushed i s))"
    and blocks: "\<forall>j < CACHE_CNT. cache s' ! j = (if i + 1 \<le> j \<and> dirty (cache (flushed i s) ! j)
          then clear_block (cache (flushed i s) ! j) else cache (flushed i s) ! j)"
    by blast
  have "cache s' ! j = (if i \<le> j \<and> dirty (cache s ! j) then clear_block (cache s ! j) else cache s ! j)"
    if "j < CACHE_CNT" for j
    using blocks that nth by (cases "j = i") auto
  then show ?case unfolding step using s' fl by simp
qed

lemma view_clean:
  assumes "data_inv s" and "\<forall>j < CACHE_CNT. \<not> dirty (cache s ! j)"
  shows "contents (fs_device s) = view s"
proof
  fix x
  show "contents (fs_device s) x = view s x"
  proof (cases "\<exists>i < CACHE_CNT. sector (cache s ! i) = x \<and> up_to_date (cache s ! i)")
    case True
    then obtain i where i: "i < CACHE_CNT" "sector (cache s ! i) = x" "up_to_date (cache s ! i)" by blast
    then show ?thesis
      using view_cached [OF assms(1) i(1,3,2)] data_inv_block [OF assms(1) i(1)] assms(2)
      by (auto simp: block_ok_def)
  next
    case False
    then have "view s x = contents (fs_device s) x"
      by (intro view_uncached) (auto simp: data_inv_length [OF assms(1)])
    then show ?thesis ..
  qed
qed

lemma sync:
  "view (s\<lparr>cache_sync := l\<rparr>) = view s" "data_inv (s\<lparr>cache_sync := l\<rparr>) = data_inv s"
  "view (s\<lparr>hand := n\<rparr>) = view s" "data_inv (s\<lparr>hand := n\<rparr>) = data_inv s"
  by (simp_all add: view_def data_inv_def fun_eq_iff split: option.split)

lemma cache_flush_blocks:
  assumes inv: "data_inv s" and lk: "\<forall>j < CACHE_CNT. data_lock (cache s ! j) = None" "cache_sync s = None"
  shows "\<exists>s'. cache_flush me s = Inr ((), s') \<and> data_inv s' \<and> view s' = view s \<and> hand s' = hand s
    \<and> cache_sync s' = None \<and> blk_size (fs_device s') = blk_size (fs_device s)
    \<and> contents (fs_device s') = view s
    \<and> (\<forall>j < CACHE_CNT. cache s' ! j = (if dirty (cache s ! j) then clear_block (cache s ! j) else cache s ! j))"
proof -
  let ?s = "s\<lparr>cache_sync := Some me\<rparr>"
  obtain s' where s': "cache_flush_from me 0 ?s = Inr s'" "data_inv s'" "view s' = view s"
    "hand s' = hand s" "cache_sync s' = Some me" "blk_size (fs_device s') = blk_size (fs_device s)"
    "\<forall>j < CACHE_CNT. cache s' ! j = (if dirty (cache s ! j) then clear_block (cache s ! j) else cache s ! j)"
    using cache_flush_from_spec [of ?s 0 me] assms by (auto simp: sync)
  then have "cache_flush me s = Inr ((), s'\<lparr>cache_sync := None\<rparr>)"
    using lk by (simp add: cache_flush_def with_cache_sync_def)
  moreover have "\<not> dirty (cache s' ! j)" if "j < CACHE_CNT" for j using s'(7) that by simp
  then have "contents (fs_device s') = view s" using view_clean [OF s'(2)] s'(3) by simp
  ultimately show ?thesis using s' by (auto simp: sync)
qed

lemma cache_flush_spec:
  assumes "cache_inv s"
  shows "\<exists>s'. cache_flush me s = Inr ((), s') \<and> cache_inv s' \<and> view s' = view s
    \<and> contents (fs_device s') = view s \<and> blk_size (fs_device s') = blk_size (fs_device s)"
proof -
  have lk: "data_inv s" "\<forall>j < CACHE_CNT. data_lock (cache s ! j) = None" "cache_sync s = None"
    using assms by (auto simp: cache_inv_def quiet_def)
  obtain s' where s': "cache_flush me s = Inr ((), s')" "data_inv s'" "view s' = view s" "hand s' = hand s"
    "cache_sync s' = None" "blk_size (fs_device s') = blk_size (fs_device s)" "contents (fs_device s') = view s"
    "\<forall>j < CACHE_CNT. cache s' ! j = (if dirty (cache s ! j) then clear_block (cache s ! j) else cache s ! j)"
    using cache_flush_blocks [OF lk] by blast
  moreover have "cache_inv s'" using s' assms by (simp add: cache_inv_def)
  ultimately show ?thesis by blast
qed

subsection \<open>Pinning a sector\<close>

primrec pin :: "lock_type \<Rightarrow> cache_block \<Rightarrow> cache_block" where
  "pin EXCLUSIVE cb = cb\<lparr>writers := writers cb + 1\<rparr>"
| "pin NON_EXCLUSIVE cb = cb\<lparr>readers := readers cb + 1, block_lock := None\<rparr>"

lemma pin_data [simp]:
  "sector (pin t cb) = sector cb" "up_to_date (pin t cb) = up_to_date cb"
  "dirty (pin t cb) = dirty cb" "data (pin t cb) = data cb"
  by (cases t; simp)+

lemma add_lock_pin:
  "i < length (cache s) \<Longrightarrow> block_lock (cache s ! i) = Some me \<Longrightarrow>
   add_lock me i t s = Inr (upd_block i (pin t) s)"
  by (cases t) (simp_all add: add_lock_def add_exclusive_lock_def add_nonexclusive_lock_def upd_block_def)

definition locked :: "tid_t \<Rightarrow> cache_block \<Rightarrow> bool" where
  "locked me cb \<longleftrightarrow> block_lock cb = Some me \<and> data_lock cb = None \<and> unused cb"

lemma held_pin: "locked me cb \<Longrightarrow> held me t (pin t cb)"
  by (cases t) (auto simp: locked_def held_def unused_def)

lemma locked_upd [simp]:
  "locked me (cb\<lparr>sector := x\<rparr>) = locked me cb" "locked me (cb\<lparr>up_to_date := u\<rparr>) = locked me cb"
  "quiet cb \<Longrightarrow> locked me (cb\<lparr>block_lock := Some me\<rparr>)"
  by (auto simp: locked_def quiet_def unused_def)

lemma flushed_locked:
  "i < length (cache s) \<Longrightarrow> locked me (cache (flushed i s) ! i) = locked me (cache s ! i)"
  by (auto simp: flushed_def clear_block_def locked_def unused_def)

lemma data_inv_lock_block:
  assumes "data_inv s" and "i < CACHE_CNT"
  shows "data_inv (upd_block i (block_lock_update (\<lambda>_. l)) s)"
    "view (upd_block i (block_lock_update (\<lambda>_. l)) s) = view s"
  unfolding upd_block_put using assms
  by (intro data_inv_locks; simp add: data_inv_def)+

text \<open>In a quiet cache the block under the clock hand can be evicted.\<close>

lemma try_to_empty_quiet:
  assumes inv: "data_inv s" and quiet: "\<forall>j < CACHE_CNT. quiet (cache s ! j)" and h: "hand s < CACHE_CNT"
  shows "try_to_empty me s = Inr (Some (hand s), flushed (hand s) (upd_block (hand s) (block_lock_update (\<lambda>_. Some me)) s))"
proof -
  let ?i = "hand s" and ?s = "upd_block (hand s) (block_lock_update (\<lambda>_. Some me)) s"
  have q: "block_lock (cache s ! ?i) = None" "data_lock (cache s ! ?i) = None" "unused (cache s ! ?i)"
    using quiet h by (auto simp: quiet_def)
  have len: "length (cache s) = CACHE_CNT" using inv by (rule data_inv_length)
  have "flush_block me ?i ?s = Inr (flushed ?i ?s)"
    by (rule flush_block_flushed) (use data_inv_lock_block [OF inv h] h q len in simp_all)
  moreover have "unused (cache ?s ! ?i)" using q h len by (simp add: unused_def)
  ultimately have "try_to_empty_until me CACHE_CNT s = Inr (Some ?i, flushed ?i ?s)"
    using q h by (subst try_to_empty_until.simps) (simp add: Let_def)
  then show ?thesis by (simp add: try_to_empty_def)
qed

definition pinned_for :: "tid_t \<Rightarrow> block_sector_t \<Rightarrow> lock_type \<Rightarrow> buffer_cache \<Rightarrow> nat \<Rightarrow> buffer_cache \<Rightarrow> bool" where
  "pinned_for me sec t s i s' \<longleftrightarrow> i < CACHE_CNT \<and> data_inv s' \<and> view s' = view s \<and> hand s' = hand s
     \<and> cache_sync s' = cache_sync s \<and> blk_size (fs_device s') = blk_size (fs_device s)
     \<and> held me t (cache s' ! i) \<and> sector (cache s' ! i) = sec
     \<and> (\<forall>j < CACHE_CNT. j \<noteq> i \<longrightarrow> quiet (cache s' ! j))"

lemma cache_lock_attempt_spec:
  assumes inv: "data_inv s" and quiet: "\<forall>j < CACHE_CNT. quiet (cache s ! j)" and h: "hand s < CACHE_CNT"
    and sec: "sec < blk_size (fs_device s)"
  shows "\<exists>i s'. cache_lock_attempt me sec t s = Inr (Some i, s') \<and> pinned_for me sec t s i s'"
proof -
  have len: "length (cache s) = CACHE_CNT" using inv by (rule data_inv_length)
  have unl: "holds_none me s" and free: "\<And>k. k < CACHE_CNT \<Longrightarrow> block_lock (cache s ! k) = None"
    using quiet len by (auto simp: quiet_def)
  have ns: "sec \<noteq> INVALID_SECTOR" using sec by (auto simp: INVALID_SECTOR_def)
  have dev: "dev_ok (fs_device s)" using inv by (simp add: data_inv_def)
  consider (hit) k where "k < CACHE_CNT" "sector (cache s ! k) = sec"
      "in_cache me sec s = Inr (Some k, upd_block k (block_lock_update (\<lambda>_. Some me)) s)"
    | (miss) "\<forall>k < CACHE_CNT. sector (cache s ! k) \<noteq> sec" "in_cache me sec s = Inr (None, s)"
    using scan_from_spec [OF unl, of 0 "\<lambda>x. x = sec"] free by (auto simp: in_cache_def)
  then show ?thesis
  proof cases
    case hit
    let ?cb = "pin t ((cache s ! k)\<lparr>block_lock := Some me, sector := sec\<rparr>)"
    have "cache_lock_attempt me sec t s = Inr (Some k, put k ?cb (fs_device s) s)"
      using hit len by (simp add: cache_lock_attempt_def add_lock_pin upd_block_put put_def)
    moreover have "data_inv (put k ?cb (fs_device s) s)" "view (put k ?cb (fs_device s) s) = view s"
      by (intro data_inv_locks [OF inv hit(1)]; simp add: hit(2) dev)+
    moreover have "held me t ?cb" using quiet hit(1) by (intro held_pin) simp
    ultimately show ?thesis using hit len quiet by (auto simp: pinned_for_def)
  next
    case miss
    consider (empty) k where "k < CACHE_CNT" "sector (cache s ! k) = INVALID_SECTOR"
        "find_empty me s = Inr (Some k, upd_block k (block_lock_update (\<lambda>_. Some me)) s)"
      | (full) "find_empty me s = Inr (None, s)"
      using scan_from_spec [OF unl, of 0 "\<lambda>x. x = INVALID_SECTOR"] free by (auto simp: find_empty_def)
    then show ?thesis
    proof cases
      case empty
      let ?cb = "pin t ((cache s ! k)\<lparr>block_lock := Some me, sector := sec\<rparr>)"
      have ok: "block_ok (fs_device s) (cache s ! k)" using data_inv_block [OF inv empty(1)] .
      have "cache_lock_attempt me sec t s = Inr (Some k, put k ?cb (fs_device s) s)"
        using miss empty len by (simp add: cache_lock_attempt_def add_lock_pin upd_block_put put_def)
      moreover have "data_inv (put k ?cb (fs_device s) s)" "view (put k ?cb (fs_device s) s) = view s"
        using ok empty(2) miss(1)
        by (intro replace_clean_block [OF inv empty(1)]; simp add: block_ok_def dev sec)+
      moreover have "held me t ?cb" using quiet empty(1) by (intro held_pin) simp
      ultimately show ?thesis using empty len quiet by (auto simp: pinned_for_def)
    next
      case full
      let ?i = "hand s"
      let ?s1 = "upd_block ?i (block_lock_update (\<lambda>_. Some me)) s"
      let ?s2 = "flushed ?i ?s1"
      let ?cb = "pin t ((cache ?s2 ! ?i)\<lparr>sector := sec, up_to_date := False\<rparr>)"
      have inv1: "data_inv ?s1" "view ?s1 = view s" using data_inv_lock_block [OF inv h] by auto
      note fl = flushed_props [OF inv1(1) h]
      have len2: "length (cache ?s2) = CACHE_CNT" using fl(1) by (rule data_inv_length)
      have lk: "locked me (cache ?s2 ! ?i)" using quiet h len by (simp add: flushed_locked)
      then have "block_lock (cache ?s2 ! ?i) = Some me" by (simp add: locked_def)
      then have "cache_lock_attempt me sec t s = Inr (Some ?i, put ?i ?cb (fs_device ?s2) ?s2)"
        using miss full try_to_empty_quiet [OF inv quiet h, of me] len2 h
        by (simp add: cache_lock_attempt_def add_lock_pin upd_block_put put_def)
      moreover have "block_ok (fs_device ?s2) (cache ?s2 ! ?i)" "dev_ok (fs_device ?s2)"
        using data_inv_block [OF fl(1) h] fl(1) by (auto simp: data_inv_def)
      then have "data_inv (put ?i ?cb (fs_device ?s2) ?s2)" "view (put ?i ?cb (fs_device ?s2) ?s2) = view ?s2"
        using fl(3,6,7) miss(1) sec
        by (intro replace_clean_block [OF fl(1) h]; simp add: block_ok_def)+
      moreover have "held me t ?cb" using lk by (intro held_pin) simp
      ultimately show ?thesis
        using fl len2 h quiet inv1(2) by (auto simp: pinned_for_def)
    qed
  qed
qed

lemma cache_lock_spec:
  assumes inv: "cache_inv s" and sec: "sec < blk_size (fs_device s)"
  shows "\<exists>i s'. cache_lock me sec t s = Inr (i, s') \<and> pinned_for me sec t s i s'"
proof -
  let ?s = "s\<lparr>cache_sync := Some me\<rparr>"
  obtain i s' where s': "cache_lock_attempt me sec t ?s = Inr (Some i, s')" "pinned_for me sec t ?s i s'"
    using cache_lock_attempt_spec [of ?s sec me t] assms by (auto simp: cache_inv_def sync)
  then have "cache_lock me sec t s = Inr (i, s'\<lparr>cache_sync := None\<rparr>)"
    using inv by (simp add: cache_lock_def with_cache_sync_def cache_inv_def pinned_for_def)
  moreover have "pinned_for me sec t s i (s'\<lparr>cache_sync := None\<rparr>)"
    using s'(2) inv by (simp add: pinned_for_def sync cache_inv_def)
  ultimately show ?thesis by blast
qed

subsection \<open>Access to a pinned block\<close>

lemma held_data [simp]:
  "held me t (cb\<lparr>data := d\<rparr>) = held me t cb" "held me t (cb\<lparr>up_to_date := u\<rparr>) = held me t cb"
  "held me t (cb\<lparr>dirty := u\<rparr>) = held me t cb" "data_lock cb = None \<Longrightarrow> held me t (cb\<lparr>data_lock := None\<rparr>) = held me t cb"
  by (auto simp: held_def split: lock_type.splits)

text \<open>\<^verbatim>\<open>cache_read\<close> makes the block current: afterwards its data is the view of its sector.\<close>

lemma cache_read_spec:
  assumes p: "pinned_for me sec t s0 i s" and sec: "sec < blk_size (fs_device s)"
  shows "\<exists>s'. cache_read me i s = Inr s' \<and> pinned_for me sec t s0 i s' \<and> up_to_date (cache s' ! i)
    \<and> data (cache s' ! i) = view s0 sec"
proof -
  let ?cb = "cache s ! i"
  have i: "i < CACHE_CNT" and inv: "data_inv s" and v: "view s = view s0" and hd: "held me t ?cb"
    and sc: "sector ?cb = sec" and bs: "blk_size (fs_device s) = blk_size (fs_device s0)"
    using p by (auto simp: pinned_for_def)
  have len: "length (cache s) = CACHE_CNT" using inv by (rule data_inv_length)
  have dl: "data_lock ?cb = None" using hd by (simp add: held_def)
  have ok: "block_ok (fs_device s) ?cb" using inv i by (rule data_inv_block)
  show ?thesis
  proof (cases "up_to_date ?cb")
    case True
    then have "cache_read me i s = Inr s"
      using dl i len by (simp add: cache_read_def upd_block_same)
    then show ?thesis using True p view_cached [OF inv i True sc] v by auto
  next
    case False
    let ?dev = "fs_device s\<lparr>read_cnt := read_cnt (fs_device s) + 1\<rparr>"
    let ?cb' = "?cb\<lparr>up_to_date := True, data := contents (fs_device s) sec, data_lock := None\<rparr>"
    have "cache_read me i s = Inr (put i ?cb' ?dev s)"
      using False dl i len block_read_ok [OF sec] sc
      by (simp add: cache_read_def put_def upd_block_def)
    moreover have "view s sec = contents (fs_device s) sec"
    proof (rule view_uncached [OF len])
      show "\<not> up_to_date (cache s ! j)" if "j < CACHE_CNT" "sector (cache s ! j) = sec" for j
        using data_inv_sectors [OF inv that(1) i] that(2) sc False sec
        by (cases "j = i") (auto simp: INVALID_SECTOR_def)
    qed
    moreover have inv': "data_inv (put i ?cb' ?dev s)"
    proof (rule data_inv_put [OF inv i])
      show "dev_ok ?dev" using inv by (simp add: data_inv_def dev_ok_def)
      have "length (contents (fs_device s) sec) = BLOCK_SECTOR_SIZE" "sec \<noteq> INVALID_SECTOR"
        using inv sec by (auto simp: data_inv_def dev_ok_def INVALID_SECTOR_def)
      then show "block_ok ?dev ?cb'" using sc sec by (simp add: block_ok_def)
      show "sector (cache s ! j) = sector ?cb' \<Longrightarrow> sector ?cb' = INVALID_SECTOR" if "j < CACHE_CNT" "j \<noteq> i" for j
        using data_inv_sectors [OF inv that(1) i that(2)] by simp
    qed simp_all
    moreover have "view (put i ?cb' ?dev s) = view s"
    proof
      fix x
      show "view (put i ?cb' ?dev s) x = view s x"
      proof (cases "x = sec \<or> (\<exists>j < CACHE_CNT. j \<noteq> i \<and> sector (cache s ! j) = x \<and> up_to_date (cache s ! j))")
        case True
        then show ?thesis using view_put [OF inv inv' i, of x] sc \<open>view s sec = _\<close> by auto
      next
        case F: False
        then have "view s x = contents (fs_device s) x"
          using False by (intro view_uncached [OF len]) auto
        then show ?thesis using F view_put [OF inv inv' i, of x] sc by auto
      qed
    qed
    moreover have "held me t ?cb'" using hd dl by simp
    ultimately show ?thesis using p i len v by (auto simp: pinned_for_def)
  qed
qed

text \<open>\<^verbatim>\<open>cache_write\<close> overwrites part of the data and makes the block current and dirty.\<close>

lemma cache_write_spec:
  assumes p: "pinned_for me sec t s0 i s" and sec: "sec < blk_size (fs_device s)"
    and ofs: "offset + length src \<le> BLOCK_SECTOR_SIZE"
  shows "\<exists>s'. cache_write me i src offset s = Inr s' \<and> data_inv s' \<and> held me t (cache s' ! i)
    \<and> (\<forall>j < CACHE_CNT. j \<noteq> i \<longrightarrow> quiet (cache s' ! j)) \<and> hand s' = hand s0 \<and> cache_sync s' = cache_sync s0
    \<and> blk_size (fs_device s') = blk_size (fs_device s0)
    \<and> view s' = (view s0)(sec := memcpy_at (data (cache s ! i)) offset src)"
proof -
  let ?cb = "cache s ! i"
  have i: "i < CACHE_CNT" and inv: "data_inv s" and v: "view s = view s0" and hd: "held me t ?cb"
    and sc: "sector ?cb = sec" and bs: "blk_size (fs_device s) = blk_size (fs_device s0)"
    using p by (auto simp: pinned_for_def)
  have len: "length (cache s) = CACHE_CNT" using inv by (rule data_inv_length)
  have dl: "data_lock ?cb = None" using hd by (simp add: held_def)
  have ok: "block_ok (fs_device s) ?cb" using inv i by (rule data_inv_block)
  have ns: "sec \<noteq> INVALID_SECTOR" using sec by (auto simp: INVALID_SECTOR_def)
  let ?cb' = "?cb\<lparr>data_lock := None, up_to_date := True, dirty := True, data := memcpy_at (data ?cb) offset src\<rparr>"
  let ?s' = "put i ?cb' (fs_device s) s"
  have cbeq: "?cb\<lparr>up_to_date := True, dirty := True, data := d, data_lock := None\<rparr>
    = ?cb\<lparr>data_lock := None, up_to_date := True, dirty := True, data := d\<rparr>" for d
    by (cases ?cb) simp
  have eq: "cache_write me i src offset s = Inr ?s'"
    using dl i len ofs by (simp add: cache_write_def put_def upd_block_def cbeq)
  have inv': "data_inv ?s'"
  proof (rule data_inv_put [OF inv i])
    show "dev_ok (fs_device s)" using inv by (simp add: data_inv_def)
    show "block_ok (fs_device s) ?cb'" using ok sc sec ns ofs by (auto simp: block_ok_def)
    show "sector (cache s ! j) = sector ?cb' \<Longrightarrow> sector ?cb' = INVALID_SECTOR" if "j < CACHE_CNT" "j \<noteq> i" for j
      using data_inv_sectors [OF inv that(1) i that(2)] by simp
  qed simp_all
  have "view ?s' = (view s)(sec := memcpy_at (data ?cb) offset src)"
  proof
    fix x
    show "view ?s' x = ((view s)(sec := memcpy_at (data ?cb) offset src)) x"
    proof (cases "x = sec")
      case True
      then show ?thesis using view_put [OF inv inv' i, of x] sc by simp
    next
      case ne: False
      show ?thesis
      proof (cases "\<exists>j < CACHE_CNT. j \<noteq> i \<and> sector (cache s ! j) = x \<and> up_to_date (cache s ! j)")
        case True
        then show ?thesis using ne view_put [OF inv inv' i, of x] sc by auto
      next
        case False
        then have "view s x = contents (fs_device s) x"
          using ne sc by (intro view_uncached [OF len]) auto
        then show ?thesis using False ne view_put [OF inv inv' i, of x] sc by auto
      qed
    qed
  qed
  moreover have "held me t ?cb'" using hd dl by simp
  ultimately show ?thesis using eq inv' p i len v bs by (auto simp: pinned_for_def)
qed

lemma cache_unlock_spec:
  assumes inv: "data_inv s" and i: "i < CACHE_CNT" and hd: "held me t (cache s ! i)"
    and rest: "\<forall>j < CACHE_CNT. j \<noteq> i \<longrightarrow> quiet (cache s ! j)" "hand s < CACHE_CNT" "cache_sync s = None"
  shows "\<exists>s'. cache_unlock me i s = Inr s' \<and> cache_inv s' \<and> view s' = view s
    \<and> blk_size (fs_device s') = blk_size (fs_device s)"
proof -
  let ?cb = "cache s ! i"
  let ?cb' = "case t of EXCLUSIVE \<Rightarrow> ?cb\<lparr>writers := writers ?cb - 1, block_lock := None\<rparr>
    | NON_EXCLUSIVE \<Rightarrow> ?cb\<lparr>readers := readers ?cb - 1, block_lock := None\<rparr>"
  have len: "length (cache s) = CACHE_CNT" using inv by (rule data_inv_length)
  have swap: "cb\<lparr>block_lock := a, readers := r, block_lock := b\<rparr> = cb\<lparr>readers := r, block_lock := b\<rparr>" for cb a b r
    by (cases cb) simp
  have "cache_unlock me i s = Inr (put i ?cb' (fs_device s) s)"
    using hd i len
    by (cases t) (simp_all add: cache_unlock_def held_def put_def upd_block_def swap)
  moreover have "data_inv (put i ?cb' (fs_device s) s)" "view (put i ?cb' (fs_device s) s) = view s"
    by (intro data_inv_locks [OF inv i]; use inv in \<open>auto simp: data_inv_def split: lock_type.split\<close>)+
  moreover have "quiet ?cb'"
    using hd by (auto simp: held_def quiet_def unused_def split: lock_type.split)
  ultimately show ?thesis using rest i len by (auto simp: cache_inv_def nth_list_update)
qed

lemma full_read_spec:
  assumes inv: "cache_inv s" and sec: "sec < blk_size (fs_device s)" and ofs: "offset + sz \<le> BLOCK_SECTOR_SIZE"
  shows "\<exists>s'. full_read me sec sz offset s = Inr (take sz (drop offset (view s sec)), s')
    \<and> cache_inv s' \<and> view s' = view s \<and> blk_size (fs_device s') = blk_size (fs_device s)"
proof -
  obtain i s1 where s1: "cache_lock me sec NON_EXCLUSIVE s = Inr (i, s1)" "pinned_for me sec NON_EXCLUSIVE s i s1"
    using cache_lock_spec [OF inv sec] by blast
  have "sec < blk_size (fs_device s1)" using s1(2) sec by (simp add: pinned_for_def)
  then obtain s2 where s2: "cache_read me i s1 = Inr s2" "pinned_for me sec NON_EXCLUSIVE s i s2"
    "data (cache s2 ! i) = view s sec"
    using cache_read_spec [OF s1(2)] by blast
  then obtain s3 where s3: "cache_unlock me i s2 = Inr s3" "cache_inv s3" "view s3 = view s2"
    "blk_size (fs_device s3) = blk_size (fs_device s2)"
    using cache_unlock_spec [of s2 i me NON_EXCLUSIVE] inv by (auto simp: pinned_for_def cache_inv_def)
  show ?thesis
    using s1(1) s2 s3 ofs by (simp add: full_read_def pinned_for_def)
qed

lemma full_write_spec:
  assumes inv: "cache_inv s" and sec: "sec < blk_size (fs_device s)"
    and ofs: "offset + length src \<le> BLOCK_SECTOR_SIZE"
  shows "\<exists>s'. full_write me sec src offset s = Inr s' \<and> cache_inv s'
    \<and> view s' = (view s)(sec := memcpy_at (view s sec) offset src)
    \<and> blk_size (fs_device s') = blk_size (fs_device s)"
proof -
  obtain i s1 where s1: "cache_lock me sec EXCLUSIVE s = Inr (i, s1)" "pinned_for me sec EXCLUSIVE s i s1"
    using cache_lock_spec [OF inv sec] by blast
  have sec1: "sec < blk_size (fs_device s1)" using s1(2) sec by (simp add: pinned_for_def)
  have "\<exists>s2. (if offset = 0 \<and> length src = BLOCK_SECTOR_SIZE then cache_write me i src offset s1
          else andThen (cache_read me i s1) (cache_write me i src offset)) = Inr s2
    \<and> data_inv s2 \<and> held me EXCLUSIVE (cache s2 ! i) \<and> (\<forall>j < CACHE_CNT. j \<noteq> i \<longrightarrow> quiet (cache s2 ! j))
    \<and> hand s2 = hand s \<and> cache_sync s2 = cache_sync s \<and> blk_size (fs_device s2) = blk_size (fs_device s)
    \<and> view s2 = (view s)(sec := memcpy_at (view s sec) offset src)"
  proof (cases "offset = 0 \<and> length src = BLOCK_SECTOR_SIZE")
    case True
    have "length (data (cache s1 ! i)) = BLOCK_SECTOR_SIZE"
      using s1(2) data_inv_block [of s1 i] by (auto simp: pinned_for_def block_ok_def)
    moreover have "length (view s sec) = BLOCK_SECTOR_SIZE"
      using view_length inv by (simp add: cache_inv_def)
    ultimately show ?thesis
      using cache_write_spec [OF s1(2) sec1 ofs] True by simp
  next
    case False
    obtain s2 where s2: "cache_read me i s1 = Inr s2" "pinned_for me sec EXCLUSIVE s i s2"
      "data (cache s2 ! i) = view s sec"
      using cache_read_spec [OF s1(2) sec1] by blast
    have "sec < blk_size (fs_device s2)" using s2(2) sec by (simp add: pinned_for_def)
    then show ?thesis
      unfolding if_not_P [OF False] using cache_write_spec [OF s2(2) _ ofs] s2(1,3) by simp
  qed
  then obtain s2 where s2: "full_write me sec src offset s = cache_unlock me i s2"
    "data_inv s2" "held me EXCLUSIVE (cache s2 ! i)" "\<forall>j < CACHE_CNT. j \<noteq> i \<longrightarrow> quiet (cache s2 ! j)"
    "hand s2 = hand s" "cache_sync s2 = cache_sync s" "blk_size (fs_device s2) = blk_size (fs_device s)"
    "view s2 = (view s)(sec := memcpy_at (view s sec) offset src)"
    using s1(1) by (auto simp: full_write_def simp del: if_split)
  have "i < CACHE_CNT" using s1(2) by (simp add: pinned_for_def)
  then show ?thesis
    using cache_unlock_spec [OF s2(2) _ s2(3,4)] s2 inv by (auto simp: cache_inv_def)
qed

section \<open>The interface of the file system to the cache\<close>

text \<open>
  A store of sectors: what \<^verbatim>\<open>inode.c\<close> and \<^verbatim>\<open>free-map.c\<close> rely on when they read and write parts of
  sectors.
\<close>

locale sector_store =
  fixes rd :: "'s \<Rightarrow> block_sector_t \<Rightarrow> nat \<Rightarrow> nat \<Rightarrow> (bytes \<times> 's) option"
    and wr :: "'s \<Rightarrow> block_sector_t \<Rightarrow> bytes \<Rightarrow> nat \<Rightarrow> 's option"
    and okay :: "'s \<Rightarrow> bool"
    and limit :: "'s \<Rightarrow> block_sector_t"
    and sectors :: "'s \<Rightarrow> block_sector_t \<Rightarrow> bytes"
  assumes rd: "okay s \<Longrightarrow> sec < limit s \<Longrightarrow> offset + sz \<le> 512 \<Longrightarrow>
      \<exists>s'. rd s sec sz offset = Some (take sz (drop offset (sectors s sec)), s')
        \<and> okay s' \<and> limit s' = limit s \<and> sectors s' = sectors s"
    and wr: "okay s \<Longrightarrow> sec < limit s \<Longrightarrow> offset + length bs \<le> 512 \<Longrightarrow>
      \<exists>s'. wr s sec bs offset = Some s' \<and> okay s' \<and> limit s' = limit s
        \<and> sectors s' = (sectors s)(sec := memcpy_at (sectors s sec) offset bs)"
    and sector_length: "okay s \<Longrightarrow> length (sectors s sec) = 512"
begin

text \<open>What is written to a part of a sector is read back from it, through any reads and writes elsewhere.\<close>

lemma read_back:
  assumes "okay s" "sec < limit s" "offset + length bs \<le> 512" "wr s sec bs offset = Some s'"
  shows "\<exists>s''. rd s' sec (length bs) offset = Some (bs, s'')"
proof -
  have s': "okay s'" "limit s' = limit s" "sectors s' = (sectors s)(sec := memcpy_at (sectors s sec) offset bs)"
    using wr [OF assms(1-3)] assms(4) by auto
  then show ?thesis
    using rd [of s' sec offset "length bs"] assms sector_length [OF assms(1), of sec]
    by (auto simp: take_drop_memcpy_at)
qed

lemma writes_commute:
  assumes "okay s" "sec < limit s" "sec' < limit s" "sec \<noteq> sec'"
    and "ofs + length bs \<le> 512" "ofs' + length bs' \<le> 512"
  shows "\<exists>s1 s2 t1 t2. wr s sec bs ofs = Some s1 \<and> wr s1 sec' bs' ofs' = Some s2
    \<and> wr s sec' bs' ofs' = Some t1 \<and> wr t1 sec bs ofs = Some t2 \<and> sectors s2 = sectors t2"
proof -
  obtain s1 where s1: "wr s sec bs ofs = Some s1" "okay s1" "limit s1 = limit s"
    "sectors s1 = (sectors s)(sec := memcpy_at (sectors s sec) ofs bs)"
    using wr [OF assms(1,2,5)] by blast
  obtain t1 where t1: "wr s sec' bs' ofs' = Some t1" "okay t1" "limit t1 = limit s"
    "sectors t1 = (sectors s)(sec' := memcpy_at (sectors s sec') ofs' bs')"
    using wr [OF assms(1,3,6)] by blast
  show ?thesis
    using wr [of s1 sec' ofs' bs'] wr [of t1 sec ofs bs] s1 t1 assms by (auto simp: fun_upd_twist)
qed

end

definition cache_rd :: "tid_t \<Rightarrow> buffer_cache \<Rightarrow> block_sector_t \<Rightarrow> nat \<Rightarrow> nat \<Rightarrow> (bytes \<times> buffer_cache) option" where
  "cache_rd me s sec sz offset = returned (full_read me sec sz offset s)"

definition cache_wr :: "tid_t \<Rightarrow> buffer_cache \<Rightarrow> block_sector_t \<Rightarrow> bytes \<Rightarrow> nat \<Rightarrow> buffer_cache option" where
  "cache_wr me s sec buffer offset = returned (full_write me sec buffer offset s)"

abbreviation cache_limit :: "buffer_cache \<Rightarrow> block_sector_t" where
  "cache_limit s \<equiv> blk_size (fs_device s)"

interpretation bc: sector_store "cache_rd me" "cache_wr me" cache_inv cache_limit view
  for me :: tid_t
proof
  fix s sec offset sz
  assume "cache_inv s" "sec < cache_limit s" "offset + sz \<le> (512 :: nat)"
  then show "\<exists>s'. cache_rd me s sec sz offset = Some (take sz (drop offset (view s sec)), s')
      \<and> cache_inv s' \<and> cache_limit s' = cache_limit s \<and> view s' = view s"
    using full_read_spec [of s sec offset sz me] by (auto simp: cache_rd_def BLOCK_SECTOR_SIZE_def)
next
  fix s sec offset and bs :: bytes
  assume "cache_inv s" "sec < cache_limit s" "offset + length bs \<le> 512"
  then show "\<exists>s'. cache_wr me s sec bs offset = Some s' \<and> cache_inv s' \<and> cache_limit s' = cache_limit s
      \<and> view s' = (view s)(sec := memcpy_at (view s sec) offset bs)"
    using full_write_spec [of s sec offset bs me] by (auto simp: cache_wr_def BLOCK_SECTOR_SIZE_def)
next
  show "length (view s sec) = 512" if "cache_inv s" for s sec
    using that view_length by (simp add: cache_inv_def BLOCK_SECTOR_SIZE_def)
qed

section \<open>Properties\<close>

text \<open>A cache just initialised over a disk of eight sectors, for the witnesses.\<close>

definition demo_disk :: block where
  "demo_disk = \<lparr>blk_name = ''hdb1'', blk_type = BLOCK_FILESYS, blk_size = 8,
     contents = (\<lambda>_. replicate 512 0), read_cnt = 0, write_cnt = 0\<rparr>"

definition demo_block :: cache_block where
  "demo_block = \<lparr>block_lock = None, readers = 7, read_waiters = 0, writers = 0, write_waiters = 0,
     sector = 5, up_to_date = True, dirty = True, data_lock = None, data = replicate 512 1\<rparr>"

definition demo_cache :: buffer_cache where
  "demo_cache = cache_init (replicate 64 demo_block) demo_disk"

lemma cache_init_inv:
  assumes "length raw = CACHE_CNT" and "\<forall>cb \<in> set raw. length (data cb) = BLOCK_SECTOR_SIZE" and "dev_ok dev"
  shows "cache_inv (cache_init raw dev)" "view (cache_init raw dev) = contents dev"
proof -
  have "length (data (raw ! i)) = BLOCK_SECTOR_SIZE" if "i < CACHE_CNT" for i
    using assms(1,2) that by simp
  then show inv: "cache_inv (cache_init raw dev)"
    using assms by (simp add: cache_inv_def data_inv_def cache_init_def cache_init_block_def block_ok_def
        quiet_def unused_def lock_init_def clear_block_def CACHE_CNT_def)
  show "view (cache_init raw dev) = contents dev"
  proof
    fix x
    have "\<not> up_to_date (cache (cache_init raw dev) ! i)" if "i < CACHE_CNT" for i
      using assms(1) that by (simp add: cache_init_def cache_init_block_def)
    then show "view (cache_init raw dev) x = contents dev x"
      using view_uncached [of "cache_init raw dev" x] assms(1) by (simp add: cache_init_def)
  qed
qed

lemma demo_cache_inv: "cache_inv demo_cache" "cache_limit demo_cache = 8"
  unfolding demo_cache_def
  by (rule cache_init_inv)
    (simp_all add: demo_block_def demo_disk_def dev_ok_def CACHE_CNT_def BLOCK_SECTOR_SIZE_def cache_init_def)

text \<open>
  C2: the buffer cache is transparent for reads. In a well-formed cache no thread is using,
  \<^verbatim>\<open>full_read\<close> of a part of any sector of the device returns without panic or waiting, whether the
  sector is cached, an empty block is free or a block (clean or dirty) has to be evicted; it
  yields the bytes the sector contains and changes the contents of no sector.
\<close>

theorem full_read_correct:
  assumes "cache_inv s" and "sec < blk_size (fs_device s)" and "offset + sz \<le> BLOCK_SECTOR_SIZE"
  shows "\<exists>s'. full_read me sec sz offset s = Inr (take sz (drop offset (view s sec)), s')
    \<and> cache_inv s' \<and> view s' = view s"
  using full_read_spec [OF assms] by blast

theorem full_read_correct_witness:
  "\<exists>s'. full_read 1 3 4 100 demo_cache = Inr (take 4 (drop 100 (view demo_cache 3)), s') \<and> cache_inv s'"
  using full_read_correct [OF demo_cache_inv(1), of 3 100 4 1] demo_cache_inv(2)
  by (auto simp: BLOCK_SECTOR_SIZE_def)

text \<open>
  C1: \<^verbatim>\<open>full_write\<close> changes exactly the given bytes of the given sector as later reads see it,
  keeps the invariant of the cache (no sector in two blocks, clean blocks equal to the disk, no
  lock left held) and returns without panic or waiting.
\<close>

theorem full_write_correct:
  assumes "cache_inv s" and "sec < blk_size (fs_device s)" and "offset + length src \<le> BLOCK_SECTOR_SIZE"
  shows "\<exists>s'. full_write me sec src offset s = Inr s' \<and> cache_inv s'
    \<and> view s' = (view s)(sec := memcpy_at (view s sec) offset src)"
  using full_write_spec [OF assms] by blast

theorem full_write_correct_witness:
  "\<exists>s'. full_write 1 3 [1, 2, 3] 100 demo_cache = Inr s' \<and> cache_inv s'
     \<and> view s' = (view demo_cache)(3 := memcpy_at (view demo_cache 3) 100 [1, 2, 3])"
  using full_write_correct [OF demo_cache_inv(1), of 3 100 "[1, 2, 3]" 1] demo_cache_inv(2)
  by (auto simp: BLOCK_SECTOR_SIZE_def)

text \<open>
  C17: after \<^verbatim>\<open>cache_flush\<close> the disk holds what every sector contains, and reads still see the same
  contents.
\<close>

theorem cache_flush_correct:
  assumes "cache_inv s"
  shows "\<exists>s'. cache_flush me s = Inr ((), s') \<and> cache_inv s' \<and> view s' = view s
    \<and> contents (fs_device s') = view s"
  using cache_flush_spec [OF assms] by blast

theorem cache_flush_correct_witness:
  "\<exists>s'. cache_flush 2 demo_cache = Inr ((), s') \<and> cache_inv s' \<and> contents (fs_device s') = view demo_cache"
  using cache_flush_correct [OF demo_cache_inv(1)] by blast

section \<open>Two clients at once\<close>

text \<open>
  The scans of \<^verbatim>\<open>in_cache\<close> skip a block whose lock another thread holds, so a sector that is locked
  exclusively looks uncached to everybody else.
\<close>

lemma in_cache_skips_locked:
  assumes inv: "data_inv s" and none: "holds_none me s"
    and i: "i < CACHE_CNT" "sector (cache s ! i) = sec" "block_lock (cache s ! i) \<noteq> None"
    and ns: "sec \<noteq> INVALID_SECTOR"
  shows "in_cache me sec s = Inr (None, s)"
proof -
  have "sector (cache s ! k) \<noteq> sec" if "k < CACHE_CNT" "block_lock (cache s ! k) = None" for k
  proof
    assume "sector (cache s ! k) = sec"
    then have "k = i" using data_inv_sectors [OF inv that(1) i(1)] i(2) ns by metis
    then show False using that(2) i(3) by simp
  qed
  then show ?thesis using scan_from_spec [OF none, of 0 "\<lambda>x. x = sec"] by (auto simp: in_cache_def)
qed

lemma cache_lock_second_copy:
  assumes p: "pinned_for a sec EXCLUSIVE s0 i s" and sync0: "cache_sync s0 = None" and ab: "a \<noteq> b"
    and sec: "sec < blk_size (fs_device s)"
    and k: "k < CACHE_CNT" "sector (cache s ! k) = INVALID_SECTOR"
  shows "\<exists>j s'. cache_lock b sec EXCLUSIVE s = Inr (j, s') \<and> j < CACHE_CNT \<and> j \<noteq> i
    \<and> sector (cache s' ! i) = sec \<and> writers (cache s' ! i) = 1
    \<and> sector (cache s' ! j) = sec \<and> writers (cache s' ! j) = 1"
proof -
  let ?s = "s\<lparr>cache_sync := Some b\<rparr>"
  have i: "i < CACHE_CNT" and inv: "data_inv ?s" and hd: "held a EXCLUSIVE (cache s ! i)"
    and sc: "sector (cache s ! i) = sec" and q: "\<forall>j < CACHE_CNT. j \<noteq> i \<longrightarrow> quiet (cache s ! j)"
    and sy: "cache_sync s = None"
    using p sync0 by (auto simp: pinned_for_def sync)
  have ns: "sec \<noteq> INVALID_SECTOR" using sec by (auto simp: INVALID_SECTOR_def)
  have len: "length (cache s) = CACHE_CNT" using data_inv_length [OF inv] by simp
  have lk: "block_lock (cache s ! i) = Some a" "writers (cache s ! i) = 1" using hd by (auto simp: held_def)
  have none: "holds_none b ?s"
  proof -
    have "block_lock (cache s ! j) \<noteq> Some b" if "j < CACHE_CNT" for j
      using q lk ab that by (cases "j = i") (auto simp: quiet_def)
    then show ?thesis using len by simp
  qed
  have miss: "in_cache b sec ?s = Inr (None, ?s)"
    using in_cache_skips_locked [OF inv none i _ _ ns] sc lk by simp
  have "k \<noteq> i" using k(2) sc ns by auto
  then have "block_lock (cache s ! k) = None" using q k(1) by (simp add: quiet_def)
  then obtain j where j: "j < CACHE_CNT" "block_lock (cache s ! j) = None" "sector (cache s ! j) = INVALID_SECTOR"
    "find_empty b ?s = Inr (Some j, upd_block j (block_lock_update (\<lambda>_. Some b)) ?s)"
    using scan_from_spec [OF none, of 0 "\<lambda>x. x = INVALID_SECTOR"] k by (auto simp: find_empty_def)
  have ji: "j \<noteq> i" using j(3) sc ns by auto
  then have "writers (cache s ! j) = 0" using q j(1) by (simp add: quiet_def unused_def)
  then show ?thesis
    using miss j len ji i sc lk sy
    by (simp add: cache_lock_def with_cache_sync_def cache_lock_attempt_def add_lock_pin)
qed

text \<open>
  C19: exclusion fails. When one thread has a sector locked exclusively and some block is still
  empty, a second thread that asks for the same sector exclusively does not wait: it gets a
  different block, and the sector is in the cache twice with a writer on each copy.
\<close>

theorem cache_lock_not_exclusive:
  assumes "cache_inv s" and "sec < blk_size (fs_device s)" and "a \<noteq> b"
    and "cache_lock a sec EXCLUSIVE s = Inr (i, s1)"
    and "\<exists>k < CACHE_CNT. sector (cache s1 ! k) = INVALID_SECTOR"
  shows "\<exists>j s2. cache_lock b sec EXCLUSIVE s1 = Inr (j, s2) \<and> j < CACHE_CNT \<and> j \<noteq> i
    \<and> sector (cache s2 ! i) = sec \<and> writers (cache s2 ! i) = 1
    \<and> sector (cache s2 ! j) = sec \<and> writers (cache s2 ! j) = 1"
proof -
  have p: "pinned_for a sec EXCLUSIVE s i s1"
    using cache_lock_spec [OF assms(1,2), of a EXCLUSIVE] assms(4) by auto
  moreover have "sec < blk_size (fs_device s1)" using p assms(2) by (simp add: pinned_for_def)
  ultimately show ?thesis
    using cache_lock_second_copy [OF p _ assms(3)] assms(1,5) by (auto simp: cache_inv_def)
qed

theorem cache_lock_not_exclusive_witness:
  "\<exists>i s1 j s2. cache_lock 1 3 EXCLUSIVE demo_cache = Inr (i, s1) \<and> cache_lock 2 3 EXCLUSIVE s1 = Inr (j, s2) \<and> j \<noteq> i"
proof -
  have sec: "3 < blk_size (fs_device demo_cache)" using demo_cache_inv(2) by simp
  have blank: "cache demo_cache = replicate 64 (cache_init_block demo_block)"
    by (simp add: demo_cache_def cache_init_def CACHE_CNT_def)
  have inv: "holds_none 1 (demo_cache\<lparr>cache_sync := Some 1\<rparr>)"
    using demo_cache_inv(1) by (auto simp: cache_inv_def data_inv_def quiet_def)
  have miss: "in_cache 1 3 (demo_cache\<lparr>cache_sync := Some 1\<rparr>) = Inr (None, demo_cache\<lparr>cache_sync := Some 1\<rparr>)"
    using scan_from_spec [OF inv, of 0 "\<lambda>x. x = 3"]
    by (auto simp: in_cache_def blank cache_init_block_def CACHE_CNT_def INVALID_SECTOR_def)
  have empty: "find_empty 1 (demo_cache\<lparr>cache_sync := Some 1\<rparr>)
    = Inr (Some 0, upd_block 0 (block_lock_update (\<lambda>_. Some 1)) (demo_cache\<lparr>cache_sync := Some 1\<rparr>))"
    by (simp add: find_empty_def scan_from.simps blank cache_init_block_def CACHE_CNT_def demo_block_def
        lock_init_def clear_block_def)
  obtain s1 where s1: "cache_lock 1 3 EXCLUSIVE demo_cache = Inr (0, s1)"
    "sector (cache s1 ! 1) = INVALID_SECTOR"
    using miss empty demo_cache_inv(1)
    by (simp add: cache_lock_def with_cache_sync_def cache_lock_attempt_def add_lock_pin blank
        cache_inv_def cache_init_block_def)
  then have "\<exists>k < CACHE_CNT. sector (cache s1 ! k) = INVALID_SECTOR"
    by (intro exI [of _ 1]) (simp add: CACHE_CNT_def)
  then show ?thesis
    using cache_lock_not_exclusive [OF demo_cache_inv(1) sec _ s1(1), of 2] s1(1) by auto
qed

text \<open>A sector that is cached is pinned in the block that holds it, whose state bits stay.\<close>

lemma cache_lock_hit:
  assumes inv: "cache_inv s" and sec: "sec < blk_size (fs_device s)"
    and i: "i < CACHE_CNT" "sector (cache s ! i) = sec"
  shows "\<exists>s'. cache_lock me sec EXCLUSIVE s = Inr (i, s') \<and> pinned_for me sec EXCLUSIVE s i s'
    \<and> dirty (cache s' ! i) = dirty (cache s ! i)"
proof -
  let ?s = "s\<lparr>cache_sync := Some me\<rparr>"
  have ns: "sec \<noteq> INVALID_SECTOR" using sec by (auto simp: INVALID_SECTOR_def)
  have di: "data_inv s" and len: "length (cache s) = CACHE_CNT" and sy: "cache_sync s = None"
    using inv by (auto simp: cache_inv_def data_inv_def)
  have none: "holds_none me ?s" and free: "block_lock (cache s ! i) = None"
    using inv len i(1) by (auto simp: cache_inv_def quiet_def)
  then obtain k where k: "k < CACHE_CNT" "sector (cache s ! k) = sec"
    "in_cache me sec ?s = Inr (Some k, upd_block k (block_lock_update (\<lambda>_. Some me)) ?s)"
    using scan_from_spec [OF none, of 0 "\<lambda>x. x = sec"] i by (auto simp: in_cache_def)
  have "k = i" using data_inv_sectors [OF di k(1) i(1)] k(2) i(2) ns by metis
  then have "\<exists>s'. cache_lock me sec EXCLUSIVE s = Inr (i, s') \<and> dirty (cache s' ! i) = dirty (cache s ! i)"
    using k(3) i len sy
    by (simp add: cache_lock_def with_cache_sync_def cache_lock_attempt_def add_lock_pin)
  then show ?thesis using cache_lock_spec [OF inv sec, of me EXCLUSIVE] by fastforce
qed

lemma write_unlock_sectors:
  assumes "i < length (cache s)" and "data_lock (cache s ! i) = None" and "block_lock (cache s ! i) = Some me"
    and "length src = BLOCK_SECTOR_SIZE"
  shows "\<exists>s3 s4. cache_write me i src 0 s = Inr s3 \<and> cache_unlock me i s3 = Inr s4
    \<and> fs_device s4 = fs_device s \<and> length (cache s4) = length (cache s)
    \<and> (\<forall>j. sector (cache s4 ! j) = sector (cache s ! j))"
  using assms by (simp add: cache_write_def cache_unlock_def nth_list_update)

text \<open>
  C20: a flush between the two halves of a write loses the write. When a thread has locked a dirty
  sector exclusively to overwrite it, and the flush daemon runs before the data is copied in, the
  flush empties the pinned block; the new data goes into a block that belongs to no sector, and
  the sector still has its old contents after the writer has unlocked it.
\<close>

theorem flush_during_write_loses_it:
  assumes inv: "cache_inv s" and sec: "sec < blk_size (fs_device s)"
    and i: "i < CACHE_CNT" "sector (cache s ! i) = sec" "dirty (cache s ! i)"
    and len: "length src = BLOCK_SECTOR_SIZE"
  shows "\<exists>s1 s2 s3 s4. cache_lock a sec EXCLUSIVE s = Inr (i, s1) \<and> cache_flush b s1 = Inr ((), s2)
    \<and> cache_write a i src 0 s2 = Inr s3 \<and> cache_unlock a i s3 = Inr s4
    \<and> view s4 sec = view s sec \<and> contents (fs_device s4) sec = view s sec"
proof -
  have ns: "sec \<noteq> INVALID_SECTOR" using sec by (auto simp: INVALID_SECTOR_def)
  have di: "data_inv s" using inv by (simp add: cache_inv_def)
  obtain i' s1 where s1: "cache_lock a sec EXCLUSIVE s = Inr (i', s1)" "pinned_for a sec EXCLUSIVE s i' s1"
    and same: "i' = i \<and> dirty (cache s1 ! i)"
    using cache_lock_hit [OF inv sec i(1,2)] i(3) by blast
  have p: "data_inv s1" "view s1 = view s" "held a EXCLUSIVE (cache s1 ! i)" "sector (cache s1 ! i) = sec"
    "\<forall>j < CACHE_CNT. data_lock (cache s1 ! j) = None" "cache_sync s1 = None"
    "\<And>j. j < CACHE_CNT \<Longrightarrow> j \<noteq> i \<Longrightarrow> sector (cache s1 ! j) \<noteq> sec"
  proof -
    show di1: "data_inv s1" and "view s1 = view s" "held a EXCLUSIVE (cache s1 ! i)" "sector (cache s1 ! i) = sec"
      and "cache_sync s1 = None" using s1(2) same inv by (auto simp: pinned_for_def cache_inv_def)
    show "\<forall>j < CACHE_CNT. data_lock (cache s1 ! j) = None"
      using s1(2) same by (auto simp: pinned_for_def held_def quiet_def)
    show "sector (cache s1 ! j) \<noteq> sec" if "j < CACHE_CNT" "j \<noteq> i" for j
      using data_inv_sectors [OF di1 that(1) i(1) that(2)] ns \<open>sector (cache s1 ! i) = sec\<close> by metis
  qed
  obtain s2 where s2: "cache_flush b s1 = Inr ((), s2)" "data_inv s2" "contents (fs_device s2) = view s"
    "\<forall>j < CACHE_CNT. cache s2 ! j = (if dirty (cache s1 ! j) then clear_block (cache s1 ! j) else cache s1 ! j)"
    using cache_flush_blocks [OF p(1,5,6), of b] p(2) by auto
  have len2: "length (cache s2) = CACHE_CNT" using s2(2) by (rule data_inv_length)
  have cb: "cache s2 ! i = clear_block (cache s1 ! i)" using s2(4) i(1) same by simp
  have "data_lock (cache s1 ! i) = None" "block_lock (cache s1 ! i) = Some a"
    using p(3) by (auto simp: held_def)
  then obtain s4 where s4: "\<exists>s3. cache_write a i src 0 s2 = Inr s3 \<and> cache_unlock a i s3 = Inr s4"
    "fs_device s4 = fs_device s2" "length (cache s4) = CACHE_CNT"
    "\<And>j. j < CACHE_CNT \<Longrightarrow> sector (cache s4 ! j) = sector (cache s2 ! j)"
    using cb i(1) len len2 write_unlock_sectors [of i s2 a src] by auto
  have "sector (cache s4 ! j) \<noteq> sec" if "j < CACHE_CNT" for j
    using s4(4) [OF that] s2(4) p(7) [OF that] that cb ns by (cases "j = i") auto
  then have "view s4 sec = contents (fs_device s4) sec" using s4(3) by (intro view_uncached) auto
  then show ?thesis using s1(1) same s2(1,3) s4(1,2) by auto
qed

definition demo_dirty_cache :: buffer_cache where
  "demo_dirty_cache = put 0 (demo_block\<lparr>readers := 0\<rparr>) demo_disk demo_cache"

lemma demo_dirty_cache_inv: "cache_inv demo_dirty_cache"
proof -
  have blank: "cache demo_cache ! j = cache_init_block demo_block" "length (cache demo_cache) = 64" if "j < 64" for j
    using that by (simp_all add: demo_cache_def cache_init_def CACHE_CNT_def)
  have dev: "fs_device demo_cache = demo_disk" "dev_ok demo_disk"
    by (simp_all add: demo_cache_def cache_init_def demo_disk_def dev_ok_def BLOCK_SECTOR_SIZE_def)
  have "data_inv demo_dirty_cache"
    unfolding demo_dirty_cache_def
    using demo_cache_inv(1) dev
    by (intro data_inv_put)
      (auto simp: cache_inv_def block_ok_def demo_block_def demo_disk_def BLOCK_SECTOR_SIZE_def CACHE_CNT_def
        INVALID_SECTOR_def blank cache_init_block_def)
  moreover have "quiet (cache demo_dirty_cache ! j)" if "j < CACHE_CNT" for j
    using demo_cache_inv(1) that blank(2)
    by (cases "j = 0")
      (auto simp: cache_inv_def demo_dirty_cache_def quiet_def unused_def demo_block_def CACHE_CNT_def)
  ultimately show ?thesis using demo_cache_inv(1) by (simp add: cache_inv_def demo_dirty_cache_def)
qed

theorem flush_during_write_loses_it_witness:
  "\<exists>s1 s2 s3 s4. cache_lock 1 5 EXCLUSIVE demo_dirty_cache = Inr (0, s1) \<and> cache_flush 2 s1 = Inr ((), s2)
    \<and> cache_write 1 0 (replicate 512 9) 0 s2 = Inr s3 \<and> cache_unlock 1 0 s3 = Inr s4
    \<and> view s4 5 = view demo_dirty_cache 5 \<and> contents (fs_device s4) 5 = view demo_dirty_cache 5"
proof -
  have "length (cache demo_cache) = 64" by (simp add: demo_cache_def cache_init_def CACHE_CNT_def)
  then have "5 < blk_size (fs_device demo_dirty_cache)" "0 < CACHE_CNT" "sector (cache demo_dirty_cache ! 0) = 5"
    "dirty (cache demo_dirty_cache ! 0)" "length (replicate 512 9 :: bytes) = BLOCK_SECTOR_SIZE"
    by (simp_all add: demo_dirty_cache_def demo_disk_def CACHE_CNT_def demo_block_def BLOCK_SECTOR_SIZE_def)
  then show ?thesis by (rule flush_during_write_loses_it [OF demo_dirty_cache_inv])
qed

text \<open>
  \<^verbatim>\<open>cache_free\<close> of a cached sector never succeeds: \<^verbatim>\<open>in_cache\<close> already returned with the lock of the
  block held, so the second \<^verbatim>\<open>lock_acquire\<close> fails its assertion. Of a sector that is not cached it
  does nothing.
\<close>

theorem cache_free_panics_when_cached:
  assumes "cache_inv s" and "sec \<noteq> INVALID_SECTOR"
  shows "cache_free me sec s = (if \<exists>i < CACHE_CNT. sector (cache s ! i) = sec then Inl Panics else Inr s)"
proof -
  have none: "holds_none me s" and free: "\<And>k. k < CACHE_CNT \<Longrightarrow> block_lock (cache s ! k) = None"
    using assms(1) by (auto simp: cache_inv_def data_inv_def quiet_def)
  consider (hit) k where "k < CACHE_CNT" "sector (cache s ! k) = sec"
      "in_cache me sec s = Inr (Some k, upd_block k (block_lock_update (\<lambda>_. Some me)) s)"
    | (miss) "\<forall>k < CACHE_CNT. sector (cache s ! k) \<noteq> sec" "in_cache me sec s = Inr (None, s)"
    using scan_from_spec [OF none, of 0 "\<lambda>x. x = sec"] free by (auto simp: in_cache_def)
  then show ?thesis
  proof cases
    case hit
    then show ?thesis using none by (auto simp: cache_free_def lock_busy_simps)
  next
    case miss
    then show ?thesis by (auto simp: cache_free_def)
  qed
qed

theorem cache_free_panics_when_cached_witness:
  "cache_free 1 5 demo_dirty_cache = Inl Panics"
proof -
  have "length (cache demo_cache) = 64" by (simp add: demo_cache_def cache_init_def CACHE_CNT_def)
  then have "\<exists>i < CACHE_CNT. sector (cache demo_dirty_cache ! i) = 5"
    by (intro exI [of _ 0]) (simp add: demo_dirty_cache_def CACHE_CNT_def demo_block_def)
  then show ?thesis
    using cache_free_panics_when_cached [OF demo_dirty_cache_inv, of 5 1] by (simp add: INVALID_SECTOR_def)
qed

end
