(* ===== verification/Inode_Disk.thy ===== *)
theory Inode_Disk
  imports Buffer_Cache
begin

text \<open>
  The on-disk inode and the block index of \<^verbatim>\<open>filesys/inode.c\<close>: the layout of \<^verbatim>\<open>struct inode_disk\<close> in
  the 512 bytes of its sector, tables of sector numbers, and the translation of the index of a
  sector of a file into a path through the direct, indirect and doubly indirect tables.
\<close>

section \<open>Constants\<close>

definition INODE_MAGIC :: u32 where "INODE_MAGIC = 0x494e4f44"
definition DIRECT_CNT :: nat where "DIRECT_CNT = 123"
definition INDIRECT_CNT :: nat where "INDIRECT_CNT = 1"
definition DBL_INDIRECT_CNT :: nat where "DBL_INDIRECT_CNT = 1"
definition INDIRECT_IDX :: nat where "INDIRECT_IDX = 123"
definition DBL_INDIRECT_IDX :: nat where "DBL_INDIRECT_IDX = 124"
definition SECTOR_CNT :: nat where "SECTOR_CNT = DIRECT_CNT + INDIRECT_CNT + DBL_INDIRECT_CNT"
definition PTRS_PER_SECTOR :: nat where "PTRS_PER_SECTOR = BLOCK_SECTOR_SIZE div 4"
definition INODE_SPAN :: nat where
  "INODE_SPAN = (DIRECT_CNT + PTRS_PER_SECTOR * INDIRECT_CNT
     + PTRS_PER_SECTOR * PTRS_PER_SECTOR * DBL_INDIRECT_CNT) * BLOCK_SECTOR_SIZE"

lemmas inode_consts = DIRECT_CNT_def INDIRECT_CNT_def DBL_INDIRECT_CNT_def INDIRECT_IDX_def
  DBL_INDIRECT_IDX_def SECTOR_CNT_def PTRS_PER_SECTOR_def INODE_SPAN_def BLOCK_SECTOR_SIZE_def

section \<open>Tables of sector numbers\<close>

definition bytes_of_ptrs :: "block_sector_t list \<Rightarrow> bytes" where
  "bytes_of_ptrs ps = concat (map bytes_of_u32 ps)"

definition ptrs_of_bytes :: "nat \<Rightarrow> bytes \<Rightarrow> block_sector_t list" where
  "ptrs_of_bytes n bs = map (\<lambda>i. u32_of_bytes (take 4 (drop (4 * i) bs))) [0..<n]"

lemma length_bytes_of_ptrs [simp]: "length (bytes_of_ptrs ps) = 4 * length ps"
  by (induction ps) (auto simp: bytes_of_ptrs_def)

lemma length_ptrs_of_bytes [simp]: "length (ptrs_of_bytes n bs) = n"
  by (simp add: ptrs_of_bytes_def)

lemma drop_bytes_of_ptrs: "drop (4 * i) (bytes_of_ptrs ps @ bs) = bytes_of_ptrs (drop i ps) @ drop (4 * (i - length ps)) bs"
proof (induction ps arbitrary: i)
  case (Cons p ps)
  then show ?case by (cases i) (auto simp: bytes_of_ptrs_def)
qed (simp add: bytes_of_ptrs_def)

lemma ptrs_of_bytes_of_ptrs [simp]: "ptrs_of_bytes (length ps) (bytes_of_ptrs ps @ bs) = ps"
proof (rule nth_equalityI)
  fix i
  assume "i < length (ptrs_of_bytes (length ps) (bytes_of_ptrs ps @ bs))"
  then have i: "i < length ps" by simp
  then obtain q where "drop i ps = ps ! i # q" by (metis Cons_nth_drop_Suc)
  then have "take 4 (drop (4 * i) (bytes_of_ptrs ps @ bs)) = bytes_of_u32 (ps ! i)"
    by (simp only: drop_bytes_of_ptrs) (simp add: bytes_of_ptrs_def)
  then show "ptrs_of_bytes (length ps) (bytes_of_ptrs ps @ bs) ! i = ps ! i"
    using i by (simp add: ptrs_of_bytes_def)
qed simp

lemma ptrs_of_bytes_whole: "length ps = n \<Longrightarrow> ptrs_of_bytes n (bytes_of_ptrs ps) = ps"
  using ptrs_of_bytes_of_ptrs [of ps "[]"] by simp

section \<open>The inode on disk\<close>

definition FILE_INODE :: u32 where "FILE_INODE = 0"
definition DIR_INODE :: u32 where "DIR_INODE = 1"

record inode_disk =
  itype :: u32
  ilength :: off_t
  imagic :: u32
  isectors :: "block_sector_t list"

definition inode_disk_bytes :: "inode_disk \<Rightarrow> bytes" where
  "inode_disk_bytes d = bytes_of_u32 (itype d) @ bytes_of_u32 (word_of_int (ilength d))
     @ bytes_of_u32 (imagic d) @ bytes_of_ptrs (isectors d)"

definition inode_disk_of_bytes :: "bytes \<Rightarrow> inode_disk" where
  "inode_disk_of_bytes bs =
     \<lparr>itype = u32_of_bytes (take 4 bs), ilength = sint (u32_of_bytes (take 4 (drop 4 bs))),
      imagic = u32_of_bytes (take 4 (drop 8 bs)), isectors = ptrs_of_bytes SECTOR_CNT (drop 12 bs)\<rparr>"

definition off_t_ok :: "off_t \<Rightarrow> bool" where
  "off_t_ok n \<longleftrightarrow> - 2147483648 \<le> n \<and> n < 2147483648"

lemma sint_word_of_off_t: "off_t_ok n \<Longrightarrow> sint (word_of_int n :: u32) = n"
  by (simp add: off_t_ok_def signed_of_int signed_take_bit_int_eq_self)

lemma length_inode_disk_bytes [simp]:
  "length (isectors d) = SECTOR_CNT \<Longrightarrow> length (inode_disk_bytes d) = BLOCK_SECTOR_SIZE"
  by (simp add: inode_disk_bytes_def inode_consts)

lemma inode_disk_roundtrip:
  "length (isectors d) = SECTOR_CNT \<Longrightarrow> off_t_ok (ilength d) \<Longrightarrow> inode_disk_of_bytes (inode_disk_bytes d) = d"
  by (simp add: inode_disk_of_bytes_def inode_disk_bytes_def sint_word_of_off_t ptrs_of_bytes_whole)

section \<open>The block index\<close>

text \<open>The result is the list of the offsets the function stores.\<close>

definition calculate_indices :: "nat \<Rightarrow> nat list" where
  "calculate_indices sector_idx =
     (if sector_idx < DIRECT_CNT then [sector_idx]
      else if sector_idx < DIRECT_CNT + PTRS_PER_SECTOR then [INDIRECT_IDX, sector_idx - DIRECT_CNT]
      else [DBL_INDIRECT_IDX,
            (sector_idx - DIRECT_CNT - PTRS_PER_SECTOR) div PTRS_PER_SECTOR,
            (sector_idx - DIRECT_CNT - PTRS_PER_SECTOR) mod PTRS_PER_SECTOR])"

text \<open>The index of the sector a path leads to.\<close>

fun index_of_path :: "nat list \<Rightarrow> nat" where
  "index_of_path [a] = a"
| "index_of_path [a, b] = DIRECT_CNT + b"
| "index_of_path [a, b, c] = DIRECT_CNT + PTRS_PER_SECTOR + b * PTRS_PER_SECTOR + c"
| "index_of_path _ = 0"

lemma calculate_indices_inverse: "index_of_path (calculate_indices i) = i"
  by (simp add: calculate_indices_def)

lemma calculate_indices_bounds:
  assumes "i * BLOCK_SECTOR_SIZE < INODE_SPAN"
  shows "calculate_indices i \<noteq> []" "calculate_indices i ! 0 < SECTOR_CNT"
    "\<forall>k < length (calculate_indices i). 0 < k \<longrightarrow> calculate_indices i ! k < PTRS_PER_SECTOR"
proof -
  have "i < 16635" using assms by (simp add: inode_consts)
  then show "calculate_indices i \<noteq> []" "calculate_indices i ! 0 < SECTOR_CNT"
    "\<forall>k < length (calculate_indices i). 0 < k \<longrightarrow> calculate_indices i ! k < PTRS_PER_SECTOR"
    by (auto simp: calculate_indices_def inode_consts less_Suc_eq)
qed

section \<open>Properties\<close>

text \<open>
  C22: \<^verbatim>\<open>calculate_indices\<close> addresses every sector of a file of maximal size within its tables, and
  two different sectors of a file never have the same path.
\<close>

theorem calculate_indices_correct:
  assumes "i * BLOCK_SECTOR_SIZE < INODE_SPAN"
  shows "calculate_indices i ! 0 < SECTOR_CNT
    \<and> (\<forall>k < length (calculate_indices i). 0 < k \<longrightarrow> calculate_indices i ! k < PTRS_PER_SECTOR)
    \<and> (\<forall>j. calculate_indices j = calculate_indices i \<longrightarrow> j = i)"
  using calculate_indices_bounds [OF assms] calculate_indices_inverse by metis

theorem calculate_indices_correct_witness:
  "calculate_indices 300 ! 0 < SECTOR_CNT \<and> calculate_indices 300 = [124, 0, 49]
   \<and> calculate_indices 299 \<noteq> calculate_indices 300"
  using calculate_indices_correct [of 300]
  by (auto simp: inode_consts) (simp add: calculate_indices_def inode_consts)



end
