(* ===== verification/Kernel_Bitmap.thy ===== *)
theory Kernel_Bitmap
  imports Kernel_Prelude
begin

text \<open>
  The bitmaps of \<^verbatim>\<open>lib/kernel/bitmap.c\<close>: an array of 32-bit elements that simulates an array of
  bits. The operations are the code's, on the elements; \<open>bitmap_abs\<close> is the array of bits they
  stand for, and each operation is shown to do on it what its comment says. An element index
  outside the array is undefined behaviour in C and is \<open>None\<close> here, as a failed assertion is.
\<close>

section \<open>Representation and operations\<close>

record bitmap =
  bit_cnt :: nat
  bits :: "u32 list"

definition ELEM_BITS :: nat where
  "ELEM_BITS = 32"

definition BITMAP_ERROR :: nat where
  "BITMAP_ERROR = SIZE_MAX"

definition elem_idx :: "nat \<Rightarrow> nat" where
  "elem_idx bit_idx = bit_idx div ELEM_BITS"

definition bit_mask :: "nat \<Rightarrow> u32" where
  "bit_mask bit_idx = push_bit (bit_idx mod ELEM_BITS) 1"

definition elem_cnt :: "nat \<Rightarrow> nat" where
  "elem_cnt n = DIV_ROUND_UP n ELEM_BITS"

definition byte_cnt :: "nat \<Rightarrow> nat" where
  "byte_cnt n = 4 * elem_cnt n"

definition last_mask :: "bitmap \<Rightarrow> u32" where
  "last_mask b =
     (let last_bits = bit_cnt b mod ELEM_BITS
      in if last_bits \<noteq> 0 then push_bit last_bits 1 - 1 else - 1)"

definition bitmap_size :: "bitmap \<Rightarrow> nat" where
  "bitmap_size b = bit_cnt b"

definition bitmap_mark :: "bitmap \<Rightarrow> nat \<Rightarrow> bitmap option" where
  "bitmap_mark b bit_idx = do {
     let idx = elem_idx bit_idx;
     let mask = bit_mask bit_idx;
     if idx < length (bits b) then Some (b\<lparr>bits := (bits b)[idx := bits b ! idx OR mask]\<rparr>) else None }"

definition bitmap_reset :: "bitmap \<Rightarrow> nat \<Rightarrow> bitmap option" where
  "bitmap_reset b bit_idx = do {
     let idx = elem_idx bit_idx;
     let mask = bit_mask bit_idx;
     if idx < length (bits b) then Some (b\<lparr>bits := (bits b)[idx := bits b ! idx AND NOT mask]\<rparr>)
     else None }"

definition bitmap_flip :: "bitmap \<Rightarrow> nat \<Rightarrow> bitmap option" where
  "bitmap_flip b bit_idx = do {
     let idx = elem_idx bit_idx;
     let mask = bit_mask bit_idx;
     if idx < length (bits b) then Some (b\<lparr>bits := (bits b)[idx := bits b ! idx XOR mask]\<rparr>)
     else None }"

definition bitmap_set :: "bitmap \<Rightarrow> nat \<Rightarrow> bool \<Rightarrow> bitmap option" where
  "bitmap_set b idx v = do {
     ASSERT (idx < bit_cnt b);
     if v then bitmap_mark b idx else bitmap_reset b idx }"

definition bitmap_test :: "bitmap \<Rightarrow> nat \<Rightarrow> bool option" where
  "bitmap_test b idx = do {
     ASSERT (idx < bit_cnt b);
     if elem_idx idx < length (bits b) then Some (bits b ! elem_idx idx AND bit_mask idx \<noteq> 0)
     else None }"

text \<open>The loops over \<open>start + i\<close> for \<open>i\<close> up to \<open>cnt\<close>.\<close>

fun bitmap_set_loop :: "bitmap \<Rightarrow> nat \<Rightarrow> nat \<Rightarrow> bool \<Rightarrow> bitmap option" where
  "bitmap_set_loop b i 0 v = Some b"
| "bitmap_set_loop b i (Suc n) v = do {
     b' \<leftarrow> bitmap_set b i v;
     bitmap_set_loop b' (Suc i) n v }"

definition bitmap_set_multiple :: "bitmap \<Rightarrow> nat \<Rightarrow> nat \<Rightarrow> bool \<Rightarrow> bitmap option" where
  "bitmap_set_multiple b start cnt v = do {
     ASSERT (start \<le> bit_cnt b);
     ASSERT (size_add start cnt \<le> bit_cnt b);
     bitmap_set_loop b start cnt v }"

definition bitmap_set_all :: "bitmap \<Rightarrow> bool \<Rightarrow> bitmap option" where
  "bitmap_set_all b v = bitmap_set_multiple b 0 (bitmap_size b) v"

fun bitmap_count_loop :: "bitmap \<Rightarrow> nat \<Rightarrow> nat \<Rightarrow> bool \<Rightarrow> nat \<Rightarrow> nat option" where
  "bitmap_count_loop b i 0 v value_cnt = Some value_cnt"
| "bitmap_count_loop b i (Suc n) v value_cnt = do {
     t \<leftarrow> bitmap_test b i;
     bitmap_count_loop b (Suc i) n v (if t = v then value_cnt + 1 else value_cnt) }"

definition bitmap_count :: "bitmap \<Rightarrow> nat \<Rightarrow> nat \<Rightarrow> bool \<Rightarrow> nat option" where
  "bitmap_count b start cnt v = do {
     ASSERT (start \<le> bit_cnt b);
     ASSERT (size_add start cnt \<le> bit_cnt b);
     bitmap_count_loop b start cnt v 0 }"

fun bitmap_contains_loop :: "bitmap \<Rightarrow> nat \<Rightarrow> nat \<Rightarrow> bool \<Rightarrow> bool option" where
  "bitmap_contains_loop b i 0 v = Some False"
| "bitmap_contains_loop b i (Suc n) v = do {
     t \<leftarrow> bitmap_test b i;
     if t = v then Some True else bitmap_contains_loop b (Suc i) n v }"

definition bitmap_contains :: "bitmap \<Rightarrow> nat \<Rightarrow> nat \<Rightarrow> bool \<Rightarrow> bool option" where
  "bitmap_contains b start cnt v = do {
     ASSERT (start \<le> bit_cnt b);
     ASSERT (size_add start cnt \<le> bit_cnt b);
     bitmap_contains_loop b start cnt v }"

definition bitmap_any :: "bitmap \<Rightarrow> nat \<Rightarrow> nat \<Rightarrow> bool option" where
  "bitmap_any b start cnt = bitmap_contains b start cnt True"

definition bitmap_none :: "bitmap \<Rightarrow> nat \<Rightarrow> nat \<Rightarrow> bool option" where
  "bitmap_none b start cnt = map_option Not (bitmap_contains b start cnt True)"

definition bitmap_all :: "bitmap \<Rightarrow> nat \<Rightarrow> nat \<Rightarrow> bool option" where
  "bitmap_all b start cnt = map_option Not (bitmap_contains b start cnt False)"

function bitmap_scan_loop :: "bitmap \<Rightarrow> nat \<Rightarrow> nat \<Rightarrow> nat \<Rightarrow> bool \<Rightarrow> nat option" where
  "bitmap_scan_loop b i last_idx cnt v =
     (if i \<le> last_idx then do {
        c \<leftarrow> bitmap_contains b i cnt (\<not> v);
        if \<not> c then Some i else bitmap_scan_loop b (Suc i) last_idx cnt v }
      else Some BITMAP_ERROR)"
  by pat_completeness auto
termination
  by (relation "measure (\<lambda>(b, i, last_idx, cnt, v). Suc last_idx - i)") auto

definition bitmap_scan :: "bitmap \<Rightarrow> nat \<Rightarrow> nat \<Rightarrow> bool \<Rightarrow> nat option" where
  "bitmap_scan b start cnt v = do {
     ASSERT (start \<le> bit_cnt b);
     if cnt \<le> bit_cnt b then bitmap_scan_loop b start (bit_cnt b - cnt) cnt v
     else Some BITMAP_ERROR }"

definition bitmap_scan_and_flip :: "bitmap \<Rightarrow> nat \<Rightarrow> nat \<Rightarrow> bool \<Rightarrow> (nat \<times> bitmap) option" where
  "bitmap_scan_and_flip b start cnt v = do {
     idx \<leftarrow> bitmap_scan b start cnt v;
     if idx \<noteq> BITMAP_ERROR then do {
       b' \<leftarrow> bitmap_set_multiple b idx cnt (\<not> v);
       Some (idx, b') }
     else Some (idx, b) }"

text \<open>
  Creation: \<open>mem\<close> is what the allocated storage holds beforehand (\<open>None\<close>: \<^verbatim>\<open>malloc\<close> failed).
  \<open>bitmap_create_in_buf\<close> checks the size of the block it is given.
\<close>

definition bitmap_buf_size :: "nat \<Rightarrow> nat" where
  "bitmap_buf_size n = 8 + byte_cnt n"

definition bitmap_create :: "u32 list option \<Rightarrow> nat \<Rightarrow> bitmap option option" where
  "bitmap_create mem n =
     (case mem of
        None \<Rightarrow> Some None
      | Some ws \<Rightarrow> map_option Some
          (bitmap_set_all \<lparr>bit_cnt = n, bits = take (elem_cnt n) ws\<rparr> False))"

definition bitmap_create_in_buf :: "nat \<Rightarrow> u32 list \<Rightarrow> nat \<Rightarrow> bitmap option" where
  "bitmap_create_in_buf n ws block_size = do {
     ASSERT (bitmap_buf_size n \<le> block_size);
     bitmap_set_all \<lparr>bit_cnt = n, bits = take (elem_cnt n) ws\<rparr> False }"

text \<open>The contents of a bitmap file, and the bitmap a file stands for.\<close>

definition bitmap_file_size :: "bitmap \<Rightarrow> nat" where
  "bitmap_file_size b = byte_cnt (bit_cnt b)"

definition bitmap_bytes :: "bitmap \<Rightarrow> bytes" where
  "bitmap_bytes b = concat (map bytes_of_u32 (bits b))"

section \<open>The array of bits\<close>

definition bitmap_inv :: "bitmap \<Rightarrow> bool" where
  "bitmap_inv b \<longleftrightarrow> length (bits b) = elem_cnt (bit_cnt b) \<and> bit_cnt b + 31 < 4294967296"

definition bitmap_bit :: "bitmap \<Rightarrow> nat \<Rightarrow> bool" where
  "bitmap_bit b i = bit (bits b ! (i div 32)) (i mod 32)"

definition bitmap_abs :: "bitmap \<Rightarrow> bool list" where
  "bitmap_abs b = map (bitmap_bit b) [0..<bit_cnt b]"

lemma length_bitmap_abs [simp]: "length (bitmap_abs b) = bit_cnt b"
  by (simp add: bitmap_abs_def)

lemma nth_bitmap_abs [simp]: "i < bit_cnt b \<Longrightarrow> bitmap_abs b ! i = bitmap_bit b i"
  by (simp add: bitmap_abs_def)

lemma bitmap_inv_idx: "bitmap_inv b \<Longrightarrow> i < bit_cnt b \<Longrightarrow> i div 32 < length (bits b)"
  using DIV_ROUND_UP_less [of 32 "bit_cnt b" i] by (simp add: bitmap_inv_def elem_cnt_def ELEM_BITS_def)

lemma bit_bit_mask: "bit (bit_mask i) k \<longleftrightarrow> k = i mod 32"
  by (auto simp: bit_mask_def ELEM_BITS_def bit_exp_iff possible_bit_def)

lemma and_bit_mask: "(w AND bit_mask i \<noteq> 0) \<longleftrightarrow> bit w (i mod 32)"
proof -
  have "(w AND bit_mask i \<noteq> 0) \<longleftrightarrow> (\<exists>k. bit (w AND bit_mask i) k)"
    by (metis bit_0_eq bit_eq_iff bot_apply bot_bool_def)
  then show ?thesis by (auto simp: bit_and_iff bit_bit_mask)
qed

lemma div_mod_eq_iff: "(i :: nat) div 32 = j div 32 \<Longrightarrow> i mod 32 = j mod 32 \<longleftrightarrow> i = j"
  by (metis div_mult_mod_eq)

lemma bitmap_test_abs:
  "bitmap_inv b \<Longrightarrow> idx < bit_cnt b \<Longrightarrow> bitmap_test b idx = Some (bitmap_bit b idx)"
  using bitmap_inv_idx [of b idx]
  by (simp add: bitmap_test_def elem_idx_def ELEM_BITS_def and_bit_mask bitmap_bit_def)

text \<open>A single-bit update of one element.\<close>

lemma bitmap_bit_upd:
  assumes "i div 32 < length (bits b)"
    and "\<And>k. k < 32 \<Longrightarrow> bit w k \<longleftrightarrow> (if k = i mod 32 then v else bit (bits b ! (i div 32)) k)"
  shows "bitmap_bit (b\<lparr>bits := (bits b)[i div 32 := w]\<rparr>) j \<longleftrightarrow> (if j = i then v else bitmap_bit b j)"
  using assms div_mod_eq_iff [of j i] by (auto simp: bitmap_bit_def nth_list_update)

lemma bitmap_set_abs:
  assumes "bitmap_inv b" and "idx < bit_cnt b"
  obtains b' where "bitmap_set b idx v = Some b'" "bitmap_inv b'" "bit_cnt b' = bit_cnt b"
    "\<And>j. bitmap_bit b' j = (if j = idx then v else bitmap_bit b j)"
proof -
  note i = bitmap_inv_idx [OF assms]
  define w where "w = (if v then bits b ! (idx div 32) OR bit_mask idx
    else bits b ! (idx div 32) AND NOT (bit_mask idx))"
  let ?b = "b\<lparr>bits := (bits b)[idx div 32 := w]\<rparr>"
  have "bitmap_set b idx v = Some ?b"
    using assms i
    by (simp add: bitmap_set_def bitmap_mark_def bitmap_reset_def w_def elem_idx_def ELEM_BITS_def
        Let_def)
  moreover have "bitmap_inv ?b" using assms(1) by (simp add: bitmap_inv_def)
  moreover have "bitmap_bit ?b j = (if j = idx then v else bitmap_bit b j)" for j
    by (rule bitmap_bit_upd [OF i])
      (auto simp: w_def bit_or_iff bit_and_iff bit_not_iff bit_bit_mask)
  ultimately show thesis using that by simp
qed

lemma bitmap_set_loop_abs:
  assumes "bitmap_inv b" and "i + n \<le> bit_cnt b"
  shows "\<exists>b'. bitmap_set_loop b i n v = Some b' \<and> bitmap_inv b' \<and> bit_cnt b' = bit_cnt b
    \<and> (\<forall>j. bitmap_bit b' j = (if i \<le> j \<and> j < i + n then v else bitmap_bit b j))"
  using assms
proof (induction n arbitrary: b i)
  case (Suc n)
  obtain b1 where b1: "bitmap_set b i v = Some b1" "bitmap_inv b1" "bit_cnt b1 = bit_cnt b"
    "\<And>j. bitmap_bit b1 j = (if j = i then v else bitmap_bit b j)"
    using bitmap_set_abs [of b i v] Suc.prems by auto
  then show ?case using Suc.IH [of b1 "Suc i"] Suc.prems by auto
qed auto

lemma bitmap_set_multiple_abs:
  assumes "bitmap_inv b" and "start + cnt \<le> bit_cnt b"
  shows "\<exists>b'. bitmap_set_multiple b start cnt v = Some b' \<and> bitmap_inv b'
    \<and> bit_cnt b' = bit_cnt b
    \<and> (\<forall>j. bitmap_bit b' j = (if start \<le> j \<and> j < start + cnt then v else bitmap_bit b j))"
proof -
  have "size_add start cnt = start + cnt" using assms by (auto simp: bitmap_inv_def)
  then show ?thesis using bitmap_set_loop_abs [OF assms] assms by (simp add: bitmap_set_multiple_def)
qed

lemma bitmap_count_loop_abs:
  "bitmap_inv b \<Longrightarrow> i + n \<le> bit_cnt b \<Longrightarrow>
   bitmap_count_loop b i n v c = Some (c + card {j. i \<le> j \<and> j < i + n \<and> bitmap_bit b j = v})"
proof (induction n arbitrary: i c)
  case (Suc n)
  let ?S = "\<lambda>i n. {j. i \<le> j \<and> j < i + n \<and> bitmap_bit b j = v}"
  have "?S i (Suc n) = (if bitmap_bit b i = v then insert i (?S (Suc i) n) else ?S (Suc i) n)"
    by (auto simp: le_Suc_eq not_less_eq_eq [symmetric])
  moreover have "finite (?S (Suc i) n)" by simp
  ultimately show ?case
    using Suc by (simp add: bitmap_test_abs)
qed simp

lemma bitmap_contains_loop_abs:
  "bitmap_inv b \<Longrightarrow> i + n \<le> bit_cnt b \<Longrightarrow>
   bitmap_contains_loop b i n v = Some (\<exists>j. i \<le> j \<and> j < i + n \<and> bitmap_bit b j = v)"
proof (induction n arbitrary: i)
  case (Suc n)
  have "(\<exists>j. i \<le> j \<and> j < i + Suc n \<and> bitmap_bit b j = v) \<longleftrightarrow>
    bitmap_bit b i = v \<or> (\<exists>j. Suc i \<le> j \<and> j < Suc i + n \<and> bitmap_bit b j = v)"
    by (metis Suc_leD add_Suc_right add_Suc_shift le_add1 le_eq_less_or_eq less_Suc_eq_le Suc_le_eq)
  then show ?case using Suc by (simp add: bitmap_test_abs)
qed simp

lemma bitmap_contains_abs:
  assumes "bitmap_inv b" and "start + cnt \<le> bit_cnt b"
  shows "bitmap_contains b start cnt v
    = Some (\<exists>j. start \<le> j \<and> j < start + cnt \<and> bitmap_bit b j = v)"
proof -
  have "size_add start cnt = start + cnt" using assms by (auto simp: bitmap_inv_def)
  then show ?thesis using bitmap_contains_loop_abs [OF assms] assms by (simp add: bitmap_contains_def)
qed

section \<open>Searching\<close>

text \<open>The \<open>cnt\<close> bits from \<open>i\<close> on are all \<open>v\<close>.\<close>

definition group_at :: "bitmap \<Rightarrow> nat \<Rightarrow> bool \<Rightarrow> nat \<Rightarrow> bool" where
  "group_at b cnt v i \<longleftrightarrow> (\<forall>k. i \<le> k \<and> k < i + cnt \<longrightarrow> bitmap_bit b k = v)"

declare bitmap_scan_loop.simps [simp del]

lemma bitmap_scan_loop_abs:
  assumes "bitmap_inv b" and "cnt \<le> bit_cnt b"
  shows "\<exists>r. bitmap_scan_loop b i (bit_cnt b - cnt) cnt v = Some r
    \<and> (if \<exists>j. i \<le> j \<and> j + cnt \<le> bit_cnt b \<and> group_at b cnt v j
       then i \<le> r \<and> r + cnt \<le> bit_cnt b \<and> group_at b cnt v r \<and> (\<forall>j. i \<le> j \<and> j < r \<longrightarrow> \<not> group_at b cnt v j)
       else r = BITMAP_ERROR)"
  using assms
proof (induction b i "bit_cnt b - cnt" cnt v rule: bitmap_scan_loop.induct)
  case (1 b i cnt v)
  note unfold = bitmap_scan_loop.simps [of b i "bit_cnt b - cnt" cnt v]
  show ?case
  proof (cases "i \<le> bit_cnt b - cnt")
    case False
    then show ?thesis using "1.prems" by (auto simp: unfold)
  next
    case True
    then have le: "i + cnt \<le> bit_cnt b" using "1.prems" by simp
    have c: "bitmap_contains b i cnt (\<not> v) = Some (\<not> group_at b cnt v i)"
      using bitmap_contains_abs [OF "1.prems"(1) le] by (auto simp: group_at_def)
    show ?thesis
    proof (cases "group_at b cnt v i")
      case g: True
      then show ?thesis using True c le by (auto simp: unfold)
    next
      case ng: False
      have "bitmap_scan_loop b i (bit_cnt b - cnt) cnt v
        = bitmap_scan_loop b (Suc i) (bit_cnt b - cnt) cnt v"
        using True c ng by (simp add: unfold)
      moreover have "(\<exists>j. i \<le> j \<and> j + cnt \<le> bit_cnt b \<and> group_at b cnt v j)
        = (\<exists>j. Suc i \<le> j \<and> j + cnt \<le> bit_cnt b \<and> group_at b cnt v j)"
        using ng by (metis Suc_leD Suc_leI le_neq_implies_less)
      moreover have "(\<forall>j. i \<le> j \<and> j < r \<longrightarrow> \<not> group_at b cnt v j)
        = (\<forall>j. Suc i \<le> j \<and> j < r \<longrightarrow> \<not> group_at b cnt v j)" for r
        using ng by (metis Suc_leD Suc_leI le_neq_implies_less)
      ultimately show ?thesis
        using "1.hyps" [OF True c] ng "1.prems" by (auto split: if_splits)
    qed
  qed
qed

lemma BITMAP_ERROR_gt: "bitmap_inv b \<Longrightarrow> r \<le> bit_cnt b \<Longrightarrow> r \<noteq> BITMAP_ERROR"
  by (simp add: bitmap_inv_def BITMAP_ERROR_def SIZE_MAX_def)

lemma bitmap_scan_abs:
  assumes "bitmap_inv b" and "start \<le> bit_cnt b"
  shows "\<exists>r. bitmap_scan b start cnt v = Some r
    \<and> (if \<exists>j. start \<le> j \<and> j + cnt \<le> bit_cnt b \<and> group_at b cnt v j
       then start \<le> r \<and> r + cnt \<le> bit_cnt b \<and> group_at b cnt v r
         \<and> (\<forall>j. start \<le> j \<and> j < r \<longrightarrow> \<not> group_at b cnt v j)
       else r = BITMAP_ERROR)"
  using bitmap_scan_loop_abs [of b cnt start v] assms by (auto simp: bitmap_scan_def)

section \<open>Allocation of ranges\<close>

text \<open>
  What the page allocator and the free map rely on: \<open>alloc s n\<close> hands out a range of \<open>n\<close> unused
  indices or the error value, \<open>release s i n\<close> gives a range back and panics when part of it is not
  in use.
\<close>

locale range_allocator =
  fixes alloc :: "'s \<Rightarrow> nat \<Rightarrow> (nat \<times> 's) option"
    and release :: "'s \<Rightarrow> nat \<Rightarrow> nat \<Rightarrow> 's option"
    and used :: "'s \<Rightarrow> nat set"
    and limit :: "'s \<Rightarrow> nat"
    and inv :: "'s \<Rightarrow> bool"
  assumes alloc: "inv s \<Longrightarrow> \<exists>i s'. alloc s n = Some (i, s') \<and> inv s' \<and> limit s' = limit s \<and>
      (if \<exists>j. j + n \<le> limit s \<and> {j..<j + n} \<inter> used s = {}
       then i + n \<le> limit s \<and> {i..<i + n} \<inter> used s = {} \<and> used s' = used s \<union> {i..<i + n}
       else i = BITMAP_ERROR \<and> s' = s)"
    and release: "inv s \<Longrightarrow> i + n \<le> limit s \<Longrightarrow>
      (if {i..<i + n} \<subseteq> used s
       then \<exists>s'. release s i n = Some s' \<and> inv s' \<and> limit s' = limit s \<and> used s' = used s - {i..<i + n}
       else release s i n = None)"
    and error_beyond: "inv s \<Longrightarrow> limit s < BITMAP_ERROR"
begin

lemma alloc_Some:
  assumes "inv s" and "alloc s n = Some (i, s')" and "i \<noteq> BITMAP_ERROR"
  shows "inv s'" "limit s' = limit s" "i + n \<le> limit s" "{i..<i + n} \<inter> used s = {}"
    "used s' = used s \<union> {i..<i + n}"
  using alloc [OF assms(1), of n] assms(2,3) by (auto split: if_splits)

lemma alloc_fails_iff:
  assumes "inv s" and "alloc s n = Some (i, s')"
  shows "i = BITMAP_ERROR \<longleftrightarrow> \<not> (\<exists>j. j + n \<le> limit s \<and> {j..<j + n} \<inter> used s = {})"
  using alloc [OF assms(1), of n] assms error_beyond [OF assms(1)] by (auto split: if_splits)

text \<open>Two live allocations never overlap.\<close>

lemma alloc_disjoint:
  assumes "inv s" and "alloc s n = Some (i, s')" "i \<noteq> BITMAP_ERROR"
    and "alloc s' m = Some (j, s'')" "j \<noteq> BITMAP_ERROR"
  shows "{i..<i + n} \<inter> {j..<j + m} = {}"
  using alloc_Some [OF assms(1-3)] alloc_Some [OF _ assms(4,5)] by blast

text \<open>What was allocated can be given back once, which restores the set of used indices.\<close>

lemma alloc_release:
  assumes "inv s" and "alloc s n = Some (i, s')" "i \<noteq> BITMAP_ERROR"
  shows "\<exists>s''. release s' i n = Some s'' \<and> inv s'' \<and> used s'' = used s"
  using alloc_Some [OF assms] release [of s' i n] by auto

lemma double_release_panics:
  assumes "inv s" and "i + n \<le> limit s" and "0 < n" and "release s i n = Some s'"
  shows "release s' i n = None"
proof -
  have "{i..<i + n} \<subseteq> used s"
    using release [OF assms(1,2)] assms(4) by (auto split: if_splits)
  then have s': "inv s'" "limit s' = limit s" "used s' = used s - {i..<i + n}"
    using release [OF assms(1,2)] assms(4) by auto
  have "i \<in> {i..<i + n}" "i \<notin> used s'" using assms(3) s' by auto
  then have "\<not> {i..<i + n} \<subseteq> used s'" by blast
  then show ?thesis using release [OF s'(1), of i n] assms(2) s'(2) by simp
qed

end

definition bitmap_used :: "bitmap \<Rightarrow> nat set" where
  "bitmap_used b = {i. i < bit_cnt b \<and> bitmap_bit b i}"

definition bitmap_release :: "bitmap \<Rightarrow> nat \<Rightarrow> nat \<Rightarrow> bitmap option" where
  "bitmap_release b start cnt = do {
     a \<leftarrow> bitmap_all b start cnt;
     ASSERT a;
     bitmap_set_multiple b start cnt False }"

lemma group_at_free: "j + n \<le> bit_cnt b \<Longrightarrow> group_at b n False j \<longleftrightarrow> {j..<j + n} \<inter> bitmap_used b = {}"
  by (auto simp: group_at_def bitmap_used_def)

lemma bitmap_scan_and_flip_abs:
  assumes inv: "bitmap_inv b" and st: "start \<le> bit_cnt b"
  shows "\<exists>idx b'. bitmap_scan_and_flip b start cnt v = Some (idx, b') \<and> bitmap_inv b'
    \<and> bit_cnt b' = bit_cnt b
    \<and> (if \<exists>j. start \<le> j \<and> j + cnt \<le> bit_cnt b \<and> group_at b cnt v j
       then start \<le> idx \<and> idx + cnt \<le> bit_cnt b \<and> group_at b cnt v idx
         \<and> (\<forall>j. start \<le> j \<and> j < idx \<longrightarrow> \<not> group_at b cnt v j)
         \<and> (\<forall>k. bitmap_bit b' k = (if idx \<le> k \<and> k < idx + cnt then \<not> v else bitmap_bit b k))
       else idx = BITMAP_ERROR \<and> b' = b)"
proof -
  let ?ex = "\<exists>j. start \<le> j \<and> j + cnt \<le> bit_cnt b \<and> group_at b cnt v j"
  obtain r where r: "bitmap_scan b start cnt v = Some r"
    and spec: "if ?ex then start \<le> r \<and> r + cnt \<le> bit_cnt b \<and> group_at b cnt v r
         \<and> (\<forall>j. start \<le> j \<and> j < r \<longrightarrow> \<not> group_at b cnt v j) else r = BITMAP_ERROR"
    using bitmap_scan_abs [OF assms, of cnt v] by blast
  show ?thesis
  proof (cases ?ex)
    case False
    then have "r = BITMAP_ERROR" using spec by argo
    then have "bitmap_scan_and_flip b start cnt v = Some (BITMAP_ERROR, b)"
      using r by (simp add: bitmap_scan_and_flip_def)
    then show ?thesis using False inv by (intro exI conjI) (assumption | rule refl | simp only: if_False)+
  next
    case True
    then have r': "start \<le> r" "r + cnt \<le> bit_cnt b" "group_at b cnt v r"
      "\<forall>j. start \<le> j \<and> j < r \<longrightarrow> \<not> group_at b cnt v j"
      using spec by argo+
    have "r \<noteq> BITMAP_ERROR" using BITMAP_ERROR_gt [OF inv, of r] r'(2) by simp
    moreover obtain b' where b': "bitmap_set_multiple b r cnt (\<not> v) = Some b'" "bitmap_inv b'"
      "bit_cnt b' = bit_cnt b"
      "\<forall>j. bitmap_bit b' j = (if r \<le> j \<and> j < r + cnt then \<not> v else bitmap_bit b j)"
      using bitmap_set_multiple_abs [OF inv r'(2), of "\<not> v"] by blast
    ultimately have "bitmap_scan_and_flip b start cnt v = Some (r, b')"
      using r by (simp add: bitmap_scan_and_flip_def)
    then show ?thesis
      unfolding if_P [OF True] using r' b' by blast
  qed
qed

lemma bitmap_used_bit:
  "bit_cnt b' = bit_cnt b \<Longrightarrow> idx + cnt \<le> bit_cnt b \<Longrightarrow>
   \<forall>k. bitmap_bit b' k = (if idx \<le> k \<and> k < idx + cnt then v else bitmap_bit b k) \<Longrightarrow>
   bitmap_used b' = (if v then bitmap_used b \<union> {idx..<idx + cnt} else bitmap_used b - {idx..<idx + cnt})"
  by (auto simp: bitmap_used_def)

interpretation bm: range_allocator "\<lambda>b n. bitmap_scan_and_flip b 0 n False" bitmap_release
  bitmap_used bit_cnt bitmap_inv
proof
  fix b :: bitmap and n
  assume inv: "bitmap_inv b"
  have ex: "(\<exists>j. 0 \<le> j \<and> j + n \<le> bit_cnt b \<and> group_at b n False j)
    = (\<exists>j. j + n \<le> bit_cnt b \<and> {j..<j + n} \<inter> bitmap_used b = {})"
    using group_at_free by blast
  show "\<exists>i s'. bitmap_scan_and_flip b 0 n False = Some (i, s') \<and> bitmap_inv s' \<and> bit_cnt s' = bit_cnt b \<and>
      (if \<exists>j. j + n \<le> bit_cnt b \<and> {j..<j + n} \<inter> bitmap_used b = {}
       then i + n \<le> bit_cnt b \<and> {i..<i + n} \<inter> bitmap_used b = {}
         \<and> bitmap_used s' = bitmap_used b \<union> {i..<i + n}
       else i = BITMAP_ERROR \<and> s' = b)"
  proof -
    obtain i b' where b': "bitmap_scan_and_flip b 0 n False = Some (i, b')" "bitmap_inv b'"
      "bit_cnt b' = bit_cnt b"
      and spec: "if \<exists>j. 0 \<le> j \<and> j + n \<le> bit_cnt b \<and> group_at b n False j
       then 0 \<le> i \<and> i + n \<le> bit_cnt b \<and> group_at b n False i
         \<and> (\<forall>j. 0 \<le> j \<and> j < i \<longrightarrow> \<not> group_at b n False j)
         \<and> (\<forall>k. bitmap_bit b' k = (if i \<le> k \<and> k < i + n then \<not> False else bitmap_bit b k))
       else i = BITMAP_ERROR \<and> b' = b"
      using bitmap_scan_and_flip_abs [OF inv, of 0 n False] by blast
    show ?thesis
      using b' spec bitmap_used_bit [OF b'(3), of i n True] unfolding ex
      by (auto simp: group_at_free split: if_splits)
  qed
next
  fix b :: bitmap and i n
  assume inv: "bitmap_inv b" and le: "i + n \<le> bit_cnt b"
  have all: "bitmap_all b i n = Some ({i..<i + n} \<subseteq> bitmap_used b)"
    using bitmap_contains_abs [OF inv le, of False] le by (auto simp: bitmap_all_def bitmap_used_def)
  obtain b' where b': "bitmap_set_multiple b i n False = Some b'" "bitmap_inv b'"
    "bit_cnt b' = bit_cnt b"
    "\<forall>j. bitmap_bit b' j = (if i \<le> j \<and> j < i + n then False else bitmap_bit b j)"
    using bitmap_set_multiple_abs [OF inv le, of False] by blast
  show "if {i..<i + n} \<subseteq> bitmap_used b
    then \<exists>s'. bitmap_release b i n = Some s' \<and> bitmap_inv s' \<and> bit_cnt s' = bit_cnt b
      \<and> bitmap_used s' = bitmap_used b - {i..<i + n}
    else bitmap_release b i n = None"
    using b' all bitmap_used_bit [OF b'(3) le b'(4)] by (auto simp: bitmap_release_def)
next
  show "bit_cnt b < BITMAP_ERROR" if "bitmap_inv b" for b
    using that by (simp add: bitmap_inv_def BITMAP_ERROR_def SIZE_MAX_def)
qed

section \<open>Properties\<close>



text \<open>
  the comment of \<open>bitmap_scan_and_flip\<close> promises 0 for an empty group; the code returns the
  start index.
\<close>

theorem bitmap_scan_and_flip_empty_group:
  assumes "start \<le> bit_cnt b" and "bit_cnt b < BITMAP_ERROR"
  shows "bitmap_scan_and_flip b start 0 v = Some (start, b)"
proof -
  have "bit_cnt b < 4294967296" using assms(2) by (simp add: BITMAP_ERROR_def SIZE_MAX_def)
  then show ?thesis
    using assms
    by (simp add: bitmap_scan_and_flip_def bitmap_scan_def bitmap_scan_loop.simps
        bitmap_contains_def bitmap_set_multiple_def)
qed

theorem bitmap_scan_and_flip_empty_group_witness:
  "bitmap_scan_and_flip \<lparr>bit_cnt = 40, bits = [0, 0]\<rparr> 7 0 False
     = Some (7, \<lparr>bit_cnt = 40, bits = [0, 0]\<rparr>)"
  by (rule bitmap_scan_and_flip_empty_group) (simp_all add: BITMAP_ERROR_def SIZE_MAX_def)

end
