(* ===== verification/Inode.thy ===== *)
theory Inode
  imports Inode_Disk Kernel_Bitmap
begin

text \<open>
  Inodes (\<^verbatim>\<open>filesys/inode.c\<close>) and the two operations of \<^verbatim>\<open>filesys/free-map.c\<close> they are mutually
  recursive with: extending a file allocates sectors, allocating a sector writes the free map to
  its file, and writing that file may extend it. The recursion is cut by an allocation depth: an
  inode operation takes the allocator it uses as an argument, and \<open>free_map_allocate (Suc k)\<close> writes
  the free map with the allocator of depth \<open>k\<close>. Depth 2 is enough whenever the free map file has
  its full length, since writing it then allocates nothing.

  The state holds the buffer cache, the in-memory inodes with the list of the open ones, and the
  free map. Operations are those of one thread at a time; the locks that an operation takes and
  releases itself (\<^verbatim>\<open>open_inodes_lock\<close>, \<^verbatim>\<open>deny_write_lock\<close>) are therefore left out. Kernel memory
  allocation succeeds. \<open>None\<close> is a panic, a dangling pointer or an access outside an array.
\<close>

section \<open>State\<close>

record inode =
  in_sector :: block_sector_t
  open_cnt :: int
  removed :: bool
  in_lock :: lock
  deny_write_cnt :: int
  writer_cnt :: int

text \<open>A \<^verbatim>\<open>struct inode *\<close> is a number; \<open>free_map_file\<close> is the inode of the free map file.\<close>

record fs =
  bc :: buffer_cache
  inodes :: "nat \<Rightarrow> inode option"
  open_inodes :: "nat list"
  next_inode :: nat
  free_map :: bitmap
  free_map_file :: "nat option"
  running :: tid_t

text \<open>\<open>full_read (sector, buf, BLOCK_SECTOR_SIZE, 0)\<close> and the corresponding \<open>full_write\<close>.\<close>

definition fs_read :: "fs \<Rightarrow> block_sector_t \<Rightarrow> (bytes \<times> fs) option" where
  "fs_read s sec = do {
     (bs, c) \<leftarrow> cache_rd (running s) (bc s) sec BLOCK_SECTOR_SIZE 0;
     Some (bs, s\<lparr>bc := c\<rparr>) }"

definition fs_write :: "fs \<Rightarrow> block_sector_t \<Rightarrow> bytes \<Rightarrow> fs option" where
  "fs_write s sec bs = do {
     c \<leftarrow> cache_wr (running s) (bc s) sec bs 0;
     Some (s\<lparr>bc := c\<rparr>) }"

definition fetch :: "'a list \<Rightarrow> nat \<Rightarrow> 'a option" where
  "fetch xs i = (if i < length xs then Some (xs ! i) else None)"

definition read_disk_inode :: "fs \<Rightarrow> block_sector_t \<Rightarrow> (inode_disk \<times> fs) option" where
  "read_disk_inode s sec = do { (bs, s) \<leftarrow> fs_read s sec; Some (inode_disk_of_bytes bs, s) }"

definition read_table :: "fs \<Rightarrow> block_sector_t \<Rightarrow> (block_sector_t list \<times> fs) option" where
  "read_table s sec = do { (bs, s) \<leftarrow> fs_read s sec; Some (ptrs_of_bytes PTRS_PER_SECTOR bs, s) }"

definition upd_inode :: "fs \<Rightarrow> nat \<Rightarrow> (inode \<Rightarrow> inode) \<Rightarrow> fs" where
  "upd_inode s ino f = s\<lparr>inodes := (inodes s)(ino := map_option f (inodes s ino))\<rparr>"

section \<open>Finding the sector of an offset\<close>

text \<open>Follows a path of \<open>calculate_indices\<close> from the table of the inode.\<close>

fun follow :: "fs \<Rightarrow> inode_disk \<Rightarrow> nat list \<Rightarrow> (block_sector_t \<times> fs) option" where
  "follow s d [a] = do { x \<leftarrow> fetch (isectors d) a; Some (x, s) }"
| "follow s d [a, b] = do {
     x \<leftarrow> fetch (isectors d) INDIRECT_IDX;
     (buf, s) \<leftarrow> read_table s x;
     y \<leftarrow> fetch buf b;
     Some (y, s) }"
| "follow s d [a, b, c] = do {
     x \<leftarrow> fetch (isectors d) DBL_INDIRECT_IDX;
     (buf, s) \<leftarrow> read_table s x;
     y \<leftarrow> fetch buf b;
     (buf, s) \<leftarrow> read_table s y;
     z \<leftarrow> fetch buf c;
     Some (z, s) }"
| "follow s d _ = None"

definition byte_to_sector :: "fs \<Rightarrow> nat \<Rightarrow> off_t \<Rightarrow> (block_sector_t \<times> fs) option" where
  "byte_to_sector s ino pos = do {
     node \<leftarrow> inodes s ino;
     (d, s) \<leftarrow> read_disk_inode s (in_sector node);
     if pos > ilength d then Some (-1, s)
     else follow s d (calculate_indices (nat pos div BLOCK_SECTOR_SIZE)) }"

text \<open>The block number stored through the out parameter, \<open>None\<close> when it is left as it was.\<close>

definition get_data_block :: "fs \<Rightarrow> nat \<Rightarrow> off_t \<Rightarrow> bool \<Rightarrow> (block_sector_t option \<times> fs) option" where
  "get_data_block s ino offset allocate = do {
     node \<leftarrow> inodes s ino;
     (d, s) \<leftarrow> read_disk_inode s (in_sector node);
     ASSERT (imagic d = INODE_MAGIC);
     if offset > ilength d \<and> \<not> allocate then Some (None, s)
     else do {
       (nr, s) \<leftarrow> follow s d (calculate_indices (nat offset div BLOCK_SECTOR_SIZE));
       Some (Some nr, s) } }"

definition inode_length :: "fs \<Rightarrow> nat \<Rightarrow> (off_t \<times> fs) option" where
  "inode_length s ino = do {
     node \<leftarrow> inodes s ino;
     (d, s) \<leftarrow> read_disk_inode s (in_sector node);
     Some (ilength d, s) }"

section \<open>Reading\<close>

text \<open>The bytes stored into the buffer; their number is what the function returns.\<close>

function inode_read_at :: "fs \<Rightarrow> nat \<Rightarrow> off_t \<Rightarrow> off_t \<Rightarrow> (bytes \<times> fs) option" where
  "inode_read_at s ino sz offset =
     (if sz > 0 then do {
        let sector_ofs = offset mod 512;
        (len, s) \<leftarrow> inode_length s ino;
        let inode_left = len - offset;
        let sector_left = 512 - sector_ofs;
        let min_left = (if inode_left < sector_left then inode_left else sector_left);
        let chunk_size = (if sz < min_left then sz else min_left);
        if chunk_size \<le> 0 then Some ([], s)
        else do {
          (nr, s) \<leftarrow> get_data_block s ino offset False;
          (chunk, s) \<leftarrow>
            (case nr of
               Some n \<Rightarrow>
                 if n = -1 then Some (replicate (nat chunk_size) 0, s)
                 else do {
                   (sector_data, s) \<leftarrow> fs_read s n;
                   Some (take (nat chunk_size) (drop (nat sector_ofs) sector_data), s) }
             | None \<Rightarrow> Some (replicate (nat chunk_size) 0, s));
          (rest, s) \<leftarrow> inode_read_at s ino (sz - chunk_size) (offset + chunk_size);
          Some (chunk @ rest, s) } }
      else Some ([], s))"
  by pat_completeness auto
termination
  by (relation "measure (\<lambda>(s, ino, sz, offset). nat sz)") auto

declare inode_read_at.simps [simp del]

section \<open>Extending\<close>

text \<open>An allocator takes one sector from the free map: \<open>Some None\<close> when there is none left.\<close>

type_synonym allocator = "fs \<Rightarrow> (block_sector_t option \<times> fs) option"

text \<open>Signed division of C, and the sum of two 32-bit offsets.\<close>

definition div_trunc :: "int \<Rightarrow> int \<Rightarrow> int" where
  "div_trunc a b = (if a < 0 then - ((- a) div b) else a div b)"

definition off_add :: "off_t \<Rightarrow> off_t \<Rightarrow> off_t" where
  "off_add a b = sint (word_of_int (a + b) :: u32)"

definition last_sector :: "off_t \<Rightarrow> nat" where
  "last_sector len = unat (word_of_int (div_trunc (len - 1) 512) :: u32)"

definition set_ptr :: "inode_disk \<Rightarrow> nat \<Rightarrow> block_sector_t \<Rightarrow> inode_disk" where
  "set_ptr d i x = d\<lparr>isectors := (isectors d)[i := x]\<rparr>"

text \<open>Allocates the sector of a table of sector numbers when \<open>needed\<close> and stores it with \<open>store\<close>.\<close>

definition alloc_table ::
  "allocator \<Rightarrow> bool \<Rightarrow> (block_sector_t \<Rightarrow> inode_disk \<Rightarrow> inode_disk) \<Rightarrow> fs \<Rightarrow> inode_disk \<Rightarrow>
   (bool \<times> inode_disk \<times> fs) option" where
  "alloc_table alloc needed store s d =
     (if needed then do {
        (r, s) \<leftarrow> alloc s;
        case r of None \<Rightarrow> Some (False, d, s) | Some n \<Rightarrow> Some (True, store n d, s) }
      else Some (True, d, s))"

definition extend_indirect ::
  "allocator \<Rightarrow> fs \<Rightarrow> inode_disk \<Rightarrow> nat \<Rightarrow> block_sector_t \<Rightarrow> (bool \<times> inode_disk \<times> fs) option" where
  "extend_indirect alloc s d idx sector_nr = do {
     (ok, d, s) \<leftarrow> alloc_table alloc (idx = DIRECT_CNT) (\<lambda>n d. set_ptr d INDIRECT_IDX n) s d;
     if \<not> ok then Some (False, d, s)
     else do {
       (buf, s) \<leftarrow> read_table s (isectors d ! INDIRECT_IDX);
       s \<leftarrow> fs_write s (isectors d ! INDIRECT_IDX)
         (bytes_of_ptrs (buf[calculate_indices idx ! 1 := sector_nr]));
       Some (True, d, s) } }"

definition extend_dbl_indirect ::
  "allocator \<Rightarrow> fs \<Rightarrow> inode_disk \<Rightarrow> nat \<Rightarrow> block_sector_t \<Rightarrow> (bool \<times> inode_disk \<times> fs) option" where
  "extend_dbl_indirect alloc s d idx sector_nr = do {
     (ok, d, s) \<leftarrow> alloc_table alloc (idx = DIRECT_CNT + PTRS_PER_SECTOR) (\<lambda>n d. set_ptr d DBL_INDIRECT_IDX n) s d;
     if \<not> ok then Some (False, d, s)
     else do {
       (new, s) \<leftarrow> (if calculate_indices idx ! 2 = 0
         then do { (r, s) \<leftarrow> alloc s; Some (map_option Some r, s) } else Some (Some None, s));
       case new of
         None \<Rightarrow> Some (False, d, s)
       | Some new_sector \<Rightarrow> do {
           (buf, s) \<leftarrow> read_table s (isectors d ! DBL_INDIRECT_IDX);
           (buf, s) \<leftarrow> (case new_sector of
               None \<Rightarrow> Some (buf, s)
             | Some n \<Rightarrow> do {
                 let buf = buf[calculate_indices idx ! 1 := n];
                 s \<leftarrow> fs_write s (isectors d ! DBL_INDIRECT_IDX) (bytes_of_ptrs buf);
                 Some (buf, s) });
           dbl_indirect_first \<leftarrow> fetch buf (calculate_indices idx ! 1);
           (buf, s) \<leftarrow> read_table s dbl_indirect_first;
           s \<leftarrow> fs_write s dbl_indirect_first (bytes_of_ptrs (buf[calculate_indices idx ! 2 := sector_nr]));
           Some (True, d, s) } } }"

text \<open>The body of the loop: one more data sector, zeroed, and its place in the tables.\<close>

definition extend_step ::
  "allocator \<Rightarrow> fs \<Rightarrow> inode_disk \<Rightarrow> nat \<Rightarrow> (bool \<times> inode_disk \<times> fs) option" where
  "extend_step alloc s d idx = do {
     (r, s) \<leftarrow> alloc s;
     case r of
       None \<Rightarrow> Some (False, d, s)
     | Some sector_nr \<Rightarrow> do {
         s \<leftarrow> fs_write s sector_nr (replicate BLOCK_SECTOR_SIZE 0);
         if idx < DIRECT_CNT then Some (True, set_ptr d idx sector_nr, s)
         else if idx < DIRECT_CNT + PTRS_PER_SECTOR then extend_indirect alloc s d idx sector_nr
         else extend_dbl_indirect alloc s d idx sector_nr } }"

function extend_loop ::
  "allocator \<Rightarrow> fs \<Rightarrow> inode_disk \<Rightarrow> nat \<Rightarrow> nat \<Rightarrow> (bool \<times> inode_disk \<times> fs) option" where
  "extend_loop alloc s d idx last_new =
     (if idx \<le> last_new then do {
        (ok, d, s) \<leftarrow> extend_step alloc s d idx;
        if \<not> ok then Some (False, d, s) else extend_loop alloc s d (idx + 1) last_new }
      else Some (True, d, s))"
  by pat_completeness auto
termination
  by (relation "measure (\<lambda>(alloc, s, d, idx, last_new). last_new + 1 - idx)") auto

declare extend_loop.simps [simp del]

text \<open>
  \<open>in_disk\<close> is the third argument; with \<open>None\<close> the inode is read from the sector of \<open>tgt\<close> and written
  back there. The result has the inode as the function leaves it.
\<close>

definition write_back :: "fs \<Rightarrow> nat option \<Rightarrow> inode_disk option \<Rightarrow> inode_disk \<Rightarrow> fs option" where
  "write_back s tgt in_disk d =
     (if in_disk = None then do {
        ino \<leftarrow> tgt;
        node \<leftarrow> inodes s ino;
        fs_write s (in_sector node) (inode_disk_bytes d) }
      else Some s)"

definition extend_file ::
  "allocator \<Rightarrow> fs \<Rightarrow> nat option \<Rightarrow> off_t \<Rightarrow> inode_disk option \<Rightarrow>
   (bool \<times> inode_disk option \<times> fs) option" where
  "extend_file alloc s tgt len in_disk =
     (if len > int INODE_SPAN \<or> len < 0 then Some (False, in_disk, s)
      else do {
        ASSERT (tgt \<noteq> None \<or> in_disk \<noteq> None);
        (d, s) \<leftarrow> (case in_disk of
            Some d \<Rightarrow> Some (d, s)
          | None \<Rightarrow> do { ino \<leftarrow> tgt; node \<leftarrow> inodes s ino; read_disk_inode s (in_sector node) });
        let last_new = last_sector len;
        let last_old = last_sector (ilength d);
        if ilength d \<noteq> -1 \<and> last_new \<le> last_old then
          if last_new = last_old \<and> ilength d < len then do {
            let d = d\<lparr>ilength := len\<rparr>;
            s \<leftarrow> write_back s tgt in_disk d;
            Some (True, Some d, s) }
          else Some (True, Some d, s)
        else do {
          (ok, d, s) \<leftarrow> extend_loop alloc s d (if ilength d = -1 then 0 else last_old + 1) last_new;
          if \<not> ok then Some (False, Some d, s)
          else do {
            let d = d\<lparr>ilength := len\<rparr>;
            s \<leftarrow> write_back s tgt in_disk d;
            Some (True, Some d, s) } } })"

section \<open>Writing\<close>

function inode_write_loop :: "fs \<Rightarrow> nat \<Rightarrow> bytes \<Rightarrow> off_t \<Rightarrow> (nat \<times> fs) option" where
  "inode_write_loop s ino buf offset =
     (if buf \<noteq> [] then do {
        let sector_ofs = offset mod 512;
        let inode_left = int INODE_SPAN - offset;
        let sector_left = 512 - sector_ofs;
        let min_left = (if inode_left < sector_left then inode_left else sector_left);
        let chunk_size = (if int (length buf) < min_left then int (length buf) else min_left);
        if chunk_size \<le> 0 then Some (0, s)
        else do {
          (nr, s) \<leftarrow> get_data_block s ino offset True;
          let n = (case nr of None \<Rightarrow> 0 | Some n \<Rightarrow> n);
          (sector_data, s) \<leftarrow> fs_read s n;
          s \<leftarrow> fs_write s n (memcpy_at sector_data (nat sector_ofs) (take (nat chunk_size) buf));
          (written, s) \<leftarrow> inode_write_loop s ino (drop (nat chunk_size) buf) (offset + chunk_size);
          Some (nat chunk_size + written, s) } }
      else Some (0, s))"
  by pat_completeness auto
termination
  by (relation "measure (\<lambda>(s, ino, buf, offset). length buf)") auto

declare inode_write_loop.simps [simp del]

text \<open>The result of \<open>extend_file\<close> is ignored, as in the code.\<close>

definition inode_write_at :: "allocator \<Rightarrow> fs \<Rightarrow> nat \<Rightarrow> bytes \<Rightarrow> off_t \<Rightarrow> (nat \<times> fs) option" where
  "inode_write_at alloc s ino buf offset = do {
     node \<leftarrow> inodes s ino;
     if deny_write_cnt node \<noteq> 0 then Some (0, s)
     else do {
       let s = upd_inode s ino (\<lambda>n. n\<lparr>writer_cnt := writer_cnt n + 1\<rparr>);
       (_, _, s) \<leftarrow> extend_file alloc s (Some ino) (off_add offset (int (length buf))) None;
       (n, s) \<leftarrow> inode_write_loop s ino buf offset;
       Some (n, upd_inode s ino (\<lambda>n. n\<lparr>writer_cnt := writer_cnt n - 1\<rparr>)) } }"

section \<open>The free map\<close>

definition bitmap_write :: "allocator \<Rightarrow> fs \<Rightarrow> (bool \<times> fs) option" where
  "bitmap_write alloc s = do {
     ino \<leftarrow> free_map_file s;
     let bs = take (byte_cnt (bit_cnt (free_map s))) (bitmap_bytes (free_map s));
     (n, s) \<leftarrow> inode_write_at alloc s ino bs 0;
     Some (n = byte_cnt (bit_cnt (free_map s)), s) }"

primrec free_map_allocate :: "nat \<Rightarrow> nat \<Rightarrow> fs \<Rightarrow> (block_sector_t option \<times> fs) option" where
  "free_map_allocate 0 cnt s = None"
| "free_map_allocate (Suc k) cnt s = do {
     (sec, b) \<leftarrow> bitmap_scan_and_flip (free_map s) 0 cnt False;
     let s = s\<lparr>free_map := b\<rparr>;
     if sec \<noteq> BITMAP_ERROR \<and> free_map_file s \<noteq> None then do {
       (ok, s) \<leftarrow> bitmap_write (free_map_allocate k 1) s;
       if \<not> ok then do {
         b \<leftarrow> bitmap_set_multiple (free_map s) sec cnt False;
         Some (None, s\<lparr>free_map := b\<rparr>) }
       else Some (Some (of_nat sec), s) }
     else if sec \<noteq> BITMAP_ERROR then Some (Some (of_nat sec), s)
     else Some (None, s) }"

definition alloc_depth :: nat where "alloc_depth = 2"

definition free_map_alloc1 :: allocator where
  "free_map_alloc1 = free_map_allocate alloc_depth 1"

definition free_map_release :: "fs \<Rightarrow> block_sector_t \<Rightarrow> nat \<Rightarrow> fs option" where
  "free_map_release s sec cnt = do {
     a \<leftarrow> bitmap_all (free_map s) (unat sec) cnt;
     ASSERT a;
     b \<leftarrow> bitmap_set_multiple (free_map s) (unat sec) cnt False;
     (_, s) \<leftarrow> bitmap_write free_map_alloc1 (s\<lparr>free_map := b\<rparr>);
     Some s }"

section \<open>Creating, opening and closing\<close>

definition inode_init :: "fs \<Rightarrow> fs" where
  "inode_init s = s\<lparr>open_inodes := []\<rparr>"

definition same_sector :: "inode \<Rightarrow> inode \<Rightarrow> bool" where
  "same_sector node1 node2 \<longleftrightarrow> in_sector node1 = in_sector node2"

definition inode_create :: "fs \<Rightarrow> block_sector_t \<Rightarrow> off_t \<Rightarrow> u32 \<Rightarrow> (bool \<times> fs) option" where
  "inode_create s sec len ty = do {
     ASSERT (len \<ge> 0);
     let d = \<lparr>itype = ty, ilength = -1, imagic = INODE_MAGIC, isectors = replicate SECTOR_CNT 0\<rparr>;
     (success, d, s) \<leftarrow> extend_file free_map_alloc1 s None len (Some d);
     d \<leftarrow> d;
     if \<not> success then PANIC
     else do {
       s \<leftarrow> fs_write s sec (inode_disk_bytes d);
       ASSERT (ilength d = len);
       ASSERT (imagic d = INODE_MAGIC);
       Some (True, s) } }"

definition inode_reopen :: "fs \<Rightarrow> nat option \<Rightarrow> (nat option \<times> fs) option" where
  "inode_reopen s ino =
     (case ino of
        None \<Rightarrow> Some (None, s)
      | Some i \<Rightarrow> do {
          _ \<leftarrow> inodes s i;
          Some (Some i, upd_inode s i (\<lambda>n. n\<lparr>open_cnt := open_cnt n + 1\<rparr>)) })"

fun find_open :: "fs \<Rightarrow> block_sector_t \<Rightarrow> nat list \<Rightarrow> nat option option" where
  "find_open s sec [] = Some None"
| "find_open s sec (i # is) = do {
     node \<leftarrow> inodes s i;
     if in_sector node = sec then Some (Some i) else find_open s sec is }"

text \<open>\<open>mem\<close>: whether \<^verbatim>\<open>malloc\<close> of the in-memory inode succeeds.\<close>

definition inode_open :: "fs \<Rightarrow> bool \<Rightarrow> block_sector_t \<Rightarrow> (nat option \<times> fs) option" where
  "inode_open s mem sec = do {
     found \<leftarrow> find_open s sec (open_inodes s);
     case found of
       Some i \<Rightarrow> inode_reopen s (Some i)
     | None \<Rightarrow>
         if \<not> mem then Some (None, s)
         else let i = next_inode s in
           Some (Some i, s\<lparr>
             inodes := (inodes s)(i \<mapsto> \<lparr>in_sector = sec, open_cnt = 1, removed = False, in_lock = lock_init,
               deny_write_cnt = 0, writer_cnt = 0\<rparr>),
             open_inodes := i # open_inodes s, next_inode := i + 1\<rparr>) }"

definition inode_get_type :: "fs \<Rightarrow> nat \<Rightarrow> (u32 \<times> fs) option" where
  "inode_get_type s ino = do {
     node \<leftarrow> inodes s ino;
     (d, s) \<leftarrow> read_disk_inode s (in_sector node);
     Some (itype d, s) }"

definition inode_get_inumber :: "fs \<Rightarrow> nat \<Rightarrow> block_sector_t option" where
  "inode_get_inumber s ino = map_option in_sector (inodes s ino)"

text \<open>
  The buffers of \<^verbatim>\<open>deallocate_inode\<close>: null, allocated, or freed. The loop frees \<^verbatim>\<open>indirect_buf\<close> and
  \<^verbatim>\<open>dbl_buf\<close> at the end of an iteration that used them and does not reset the pointers; the use of
  a freed buffer has no defined result and is \<open>None\<close>.
\<close>

datatype heap_buf = NullBuf | LiveBuf "block_sector_t list" | FreedBuf

definition buf_at :: "heap_buf \<Rightarrow> nat \<Rightarrow> block_sector_t option" where
  "buf_at b i = (case b of LiveBuf ps \<Rightarrow> fetch ps i | _ \<Rightarrow> None)"

definition buf_free :: "heap_buf \<Rightarrow> heap_buf option" where
  "buf_free b = (case b of NullBuf \<Rightarrow> Some NullBuf | LiveBuf ps \<Rightarrow> Some FreedBuf | FreedBuf \<Rightarrow> None)"

record dealloc =
  indirect_buf :: heap_buf
  dbl_buf :: heap_buf
  do_indirect_release :: bool
  do_dbl_release :: bool

definition dealloc_indirect :: "fs \<Rightarrow> inode_disk \<Rightarrow> dealloc \<Rightarrow> nat \<Rightarrow> (dealloc \<times> fs) option" where
  "dealloc_indirect s d b idx = do {
     let b = b\<lparr>do_indirect_release := True\<rparr>;
     (b, s) \<leftarrow> (if indirect_buf b = NullBuf
       then do { (ps, s) \<leftarrow> read_table s (isectors d ! INDIRECT_IDX); Some (b\<lparr>indirect_buf := LiveBuf ps\<rparr>, s) }
       else Some (b, s));
     x \<leftarrow> buf_at (indirect_buf b) (idx - DIRECT_CNT);
     s \<leftarrow> free_map_release s x 1;
     f \<leftarrow> buf_free (indirect_buf b);
     Some (b\<lparr>indirect_buf := f\<rparr>, s) }"

definition dealloc_dbl :: "fs \<Rightarrow> inode_disk \<Rightarrow> dealloc \<Rightarrow> nat \<Rightarrow> (dealloc \<times> fs) option" where
  "dealloc_dbl s d b idx = do {
     let rel_next = (idx - DIRECT_CNT - PTRS_PER_SECTOR) mod PTRS_PER_SECTOR;
     let ind_nr = (idx - DIRECT_CNT - PTRS_PER_SECTOR) div PTRS_PER_SECTOR;
     (b, s) \<leftarrow> (if dbl_buf b = NullBuf
       then do { (ps, s) \<leftarrow> read_table s (isectors d ! DBL_INDIRECT_IDX); Some (b\<lparr>dbl_buf := LiveBuf ps\<rparr>, s) }
       else Some (b, s));
     (b, s) \<leftarrow> (if rel_next = 0
       then do {
         t \<leftarrow> buf_at (dbl_buf b) ind_nr;
         s \<leftarrow> free_map_release s t 1;
         (ps, s) \<leftarrow> read_table s t;
         case indirect_buf b of LiveBuf _ \<Rightarrow> Some (b\<lparr>indirect_buf := LiveBuf ps\<rparr>, s) | _ \<Rightarrow> None }
       else Some (b, s));
     f \<leftarrow> buf_free (dbl_buf b);
     x \<leftarrow> buf_at (indirect_buf b) rel_next;
     s \<leftarrow> free_map_release s x 1;
     Some (b\<lparr>dbl_buf := f, do_dbl_release := True\<rparr>, s) }"

function dealloc_loop :: "fs \<Rightarrow> inode_disk \<Rightarrow> dealloc \<Rightarrow> nat \<Rightarrow> nat \<Rightarrow> (dealloc \<times> fs) option" where
  "dealloc_loop s d b idx nr_sectors =
     (if idx < nr_sectors then do {
        (b, s) \<leftarrow>
          (if idx < DIRECT_CNT then do { s \<leftarrow> free_map_release s (isectors d ! idx) 1; Some (b, s) }
           else if idx < DIRECT_CNT + PTRS_PER_SECTOR then dealloc_indirect s d b idx
           else dealloc_dbl s d b idx);
        dealloc_loop s d b (idx + 1) nr_sectors }
      else Some (b, s))"
  by pat_completeness auto
termination
  by (relation "measure (\<lambda>(s, d, b, idx, nr_sectors). nr_sectors - idx)") auto

declare dealloc_loop.simps [simp del]

definition deallocate_inode :: "fs \<Rightarrow> block_sector_t \<Rightarrow> fs option" where
  "deallocate_inode s sec = do {
     (d, s) \<leftarrow> read_disk_inode s sec;
     let nr_sectors = (if ilength d = 0 then 0
       else unat (word_of_int (1 + div_trunc (ilength d - 1) 512) :: u32));
     (b, s) \<leftarrow> dealloc_loop s d \<lparr>indirect_buf = NullBuf, dbl_buf = NullBuf,
       do_indirect_release = False, do_dbl_release = False\<rparr> 0 nr_sectors;
     s \<leftarrow> (if do_indirect_release b then free_map_release s (isectors d ! INDIRECT_IDX) 1 else Some s);
     if do_dbl_release b then free_map_release s (isectors d ! DBL_INDIRECT_IDX) 1 else Some s }"

text \<open>\<^verbatim>\<open>list_remove\<close> takes the element out of \<^verbatim>\<open>open_inodes\<close>.\<close>

definition inode_close :: "fs \<Rightarrow> nat option \<Rightarrow> fs option" where
  "inode_close s ino =
     (case ino of
        None \<Rightarrow> Some s
      | Some i \<Rightarrow> do {
          node \<leftarrow> inodes s i;
          let s = upd_inode s i (\<lambda>n. n\<lparr>open_cnt := open_cnt n - 1\<rparr>);
          if open_cnt node - 1 = 0 then do {
            let s = s\<lparr>open_inodes := remove1 i (open_inodes s)\<rparr>;
            s \<leftarrow> (if removed node then deallocate_inode s (in_sector node) else Some s);
            Some (s\<lparr>inodes := (inodes s)(i := None)\<rparr>) }
          else Some s })"

definition inode_remove :: "fs \<Rightarrow> nat \<Rightarrow> fs option" where
  "inode_remove s ino = do {
     _ \<leftarrow> inodes s ino;
     Some (upd_inode s ino (\<lambda>n. n\<lparr>removed := True\<rparr>)) }"

definition inode_deny_write :: "fs \<Rightarrow> nat \<Rightarrow> fs option" where
  "inode_deny_write s ino = do {
     node \<leftarrow> inodes s ino;
     ASSERT (deny_write_cnt node + 1 \<le> open_cnt node);
     Some (upd_inode s ino (\<lambda>n. n\<lparr>deny_write_cnt := deny_write_cnt n + 1\<rparr>)) }"

definition inode_allow_write :: "fs \<Rightarrow> nat \<Rightarrow> fs option" where
  "inode_allow_write s ino = do {
     node \<leftarrow> inodes s ino;
     ASSERT (deny_write_cnt node > 0);
     ASSERT (deny_write_cnt node \<le> open_cnt node);
     Some (upd_inode s ino (\<lambda>n. n\<lparr>deny_write_cnt := deny_write_cnt n - 1\<rparr>)) }"

definition inode_open_cnt :: "fs \<Rightarrow> nat \<Rightarrow> int option" where
  "inode_open_cnt s ino = map_option open_cnt (inodes s ino)"

definition inode_lock :: "fs \<Rightarrow> nat \<Rightarrow> fs option" where
  "inode_lock s ino = do {
     node \<leftarrow> inodes s ino;
     l \<leftarrow> returned (lock_acquire (running s) (in_lock node));
     Some (upd_inode s ino (\<lambda>n. n\<lparr>in_lock := l\<rparr>)) }"

definition inode_unlock :: "fs \<Rightarrow> nat \<Rightarrow> fs option" where
  "inode_unlock s ino = do {
     node \<leftarrow> inodes s ino;
     l \<leftarrow> returned (lock_release (running s) (in_lock node));
     Some (upd_inode s ino (\<lambda>n. n\<lparr>in_lock := l\<rparr>)) }"

end
