(* ===== verification/Inode_Data.thy ===== *)
theory Inode_Data
  imports Inode
begin

text \<open>
  What an inode contains: the bytes of its file as a function of the contents of all sectors, and
  the correctness of reading and of overwriting. A well-formed inode (\<open>inode_wf\<close>) has its data
  sectors and index tables inside the device, and its data sectors are different from each other,
  from the tables and from the inode itself.
\<close>

section \<open>The file an inode stands for\<close>

type_synonym disk_view = "block_sector_t \<Rightarrow> bytes"

abbreviation table_at :: "disk_view \<Rightarrow> block_sector_t \<Rightarrow> block_sector_t list" where
  "table_at V x \<equiv> ptrs_of_bytes PTRS_PER_SECTOR (V x)"

abbreviation inode_at :: "disk_view \<Rightarrow> block_sector_t \<Rightarrow> inode_disk" where
  "inode_at V x \<equiv> inode_disk_of_bytes (V x)"

text \<open>The sector a path leads to, and the tables it passes through.\<close>

fun lookup :: "disk_view \<Rightarrow> inode_disk \<Rightarrow> nat list \<Rightarrow> block_sector_t" where
  "lookup V d [a] = isectors d ! a"
| "lookup V d [a, b] = table_at V (isectors d ! INDIRECT_IDX) ! b"
| "lookup V d [a, b, c] = table_at V (table_at V (isectors d ! DBL_INDIRECT_IDX) ! b) ! c"
| "lookup V d _ = 0"

fun tables_on :: "disk_view \<Rightarrow> inode_disk \<Rightarrow> nat list \<Rightarrow> block_sector_t set" where
  "tables_on V d [a, b] = {isectors d ! INDIRECT_IDX}"
| "tables_on V d [a, b, c] = {isectors d ! DBL_INDIRECT_IDX, table_at V (isectors d ! DBL_INDIRECT_IDX) ! b}"
| "tables_on V d _ = {}"

definition sector_of :: "disk_view \<Rightarrow> inode_disk \<Rightarrow> nat \<Rightarrow> block_sector_t" where
  "sector_of V d i = lookup V d (calculate_indices i)"

definition tables_of :: "disk_view \<Rightarrow> inode_disk \<Rightarrow> nat \<Rightarrow> block_sector_t set" where
  "tables_of V d i = tables_on V d (calculate_indices i)"

definition file_byte :: "disk_view \<Rightarrow> inode_disk \<Rightarrow> nat \<Rightarrow> u8" where
  "file_byte V d k = V (sector_of V d (k div 512)) ! (k mod 512)"

definition file_data :: "disk_view \<Rightarrow> block_sector_t \<Rightarrow> bytes" where
  "file_data V sec = map (file_byte V (inode_at V sec)) [0..<nat (ilength (inode_at V sec))]"

text \<open>The number of data sectors; an empty file has one.\<close>

definition sector_cnt :: "inode_disk \<Rightarrow> nat" where
  "sector_cnt d = last_sector (ilength d) + 1"

definition inode_wf :: "disk_view \<Rightarrow> block_sector_t \<Rightarrow> block_sector_t \<Rightarrow> bool" where
  "inode_wf V lim sec \<longleftrightarrow> (let d = inode_at V sec; n = sector_cnt d in
     sec < lim \<and> imagic d = INODE_MAGIC \<and> 0 \<le> ilength d \<and> ilength d \<le> int INODE_SPAN
     \<and> (\<forall>i < n. sector_of V d i < lim \<and> (\<forall>t \<in> tables_of V d i. t < lim))
     \<and> (\<forall>i < n. sector_of V d i \<noteq> sec \<and> sec \<notin> tables_of V d i
          \<and> (\<forall>j < n. sector_of V d i \<notin> tables_of V d j \<and> (i \<noteq> j \<longrightarrow> sector_of V d i \<noteq> sector_of V d j))))"

definition data_sectors :: "disk_view \<Rightarrow> block_sector_t \<Rightarrow> block_sector_t set" where
  "data_sectors V sec = sector_of V (inode_at V sec) ` {..< sector_cnt (inode_at V sec)}"

section \<open>Reading sectors\<close>

abbreviation fview :: "fs \<Rightarrow> disk_view" where
  "fview s \<equiv> view (bc s)"

text \<open>\<open>s'\<close> differs from \<open>s\<close> at most in what the cache holds.\<close>

definition same_files :: "fs \<Rightarrow> fs \<Rightarrow> bool" where
  "same_files s s' \<longleftrightarrow> (\<exists>c. s' = s\<lparr>bc := c\<rparr> \<and> cache_inv c \<and> view c = fview s \<and> cache_limit c = cache_limit (bc s))"

lemma same_filesD:
  assumes "same_files s s'"
  shows "cache_inv (bc s')" "fview s' = fview s" "cache_limit (bc s') = cache_limit (bc s)"
    "inodes s' = inodes s" "open_inodes s' = open_inodes s" "next_inode s' = next_inode s"
    "free_map s' = free_map s" "free_map_file s' = free_map_file s" "running s' = running s"
  using assms by (auto simp: same_files_def)

lemma same_files_trans: "same_files s s' \<Longrightarrow> same_files s' s'' \<Longrightarrow> same_files s s''"
  by (auto simp: same_files_def)

lemma same_files_refl: "cache_inv (bc s) \<Longrightarrow> same_files s s"
  unfolding same_files_def by (rule exI [of _ "bc s"]) simp

lemma fs_read_spec:
  assumes "cache_inv (bc s)" and "sec < cache_limit (bc s)"
  obtains s' where "fs_read s sec = Some (fview s sec, s')" "same_files s s'"
proof -
  have "length (fview s sec) = 512" using bc.sector_length [OF assms(1)] .
  then obtain c where "cache_rd (running s) (bc s) sec 512 0 = Some (fview s sec, c)" "cache_inv c"
    "cache_limit c = cache_limit (bc s)" "view c = fview s"
    using bc.rd [OF assms, of 0 512 "running s"] by auto
  then show ?thesis
    by (intro that [of "s\<lparr>bc := c\<rparr>"]) (auto simp: fs_read_def same_files_def BLOCK_SECTOR_SIZE_def)
qed

lemma fs_write_spec:
  assumes "cache_inv (bc s)" and "sec < cache_limit (bc s)" and "length bs = 512"
  obtains c where "fs_write s sec bs = Some (s\<lparr>bc := c\<rparr>)" "cache_inv c"
    "cache_limit c = cache_limit (bc s)" "view c = (fview s)(sec := bs)"
proof -
  have "length (fview s sec) = 512" using bc.sector_length [OF assms(1)] .
  then obtain c where "cache_wr (running s) (bc s) sec bs 0 = Some c" "cache_inv c"
    "cache_limit c = cache_limit (bc s)" "view c = (fview s)(sec := bs)"
    using bc.wr [OF assms(1,2), of 0 bs "running s"] assms(3) by auto
  then show ?thesis by (intro that [of c]) (auto simp: fs_write_def)
qed

lemma read_disk_inode_spec:
  assumes "cache_inv (bc s)" and "sec < cache_limit (bc s)"
  obtains s' where "read_disk_inode s sec = Some (inode_at (fview s) sec, s')" "same_files s s'"
  using fs_read_spec [OF assms] by (metis (no_types, lifting) read_disk_inode_def bind.bind_lunit old.prod.case)

lemma read_table_spec:
  assumes "cache_inv (bc s)" and "sec < cache_limit (bc s)"
  obtains s' where "read_table s sec = Some (table_at (fview s) sec, s')" "same_files s s'"
  using fs_read_spec [OF assms] by (metis (no_types, lifting) read_table_def bind.bind_lunit old.prod.case)

lemma length_inode_at [simp]: "length (isectors (inode_at V x)) = SECTOR_CNT"
  by (simp add: inode_disk_of_bytes_def)

text \<open>Following a path inside the tables.\<close>

lemma follow_spec:
  assumes inv: "cache_inv (bc s)" and len: "length (isectors d) = SECTOR_CNT"
    and i: "i * BLOCK_SECTOR_SIZE < INODE_SPAN"
    and tabs: "\<And>t. t \<in> tables_of (fview s) d i \<Longrightarrow> t < cache_limit (bc s)"
  obtains s' where "follow s d (calculate_indices i) = Some (sector_of (fview s) d i, s')" "same_files s s'"
proof -
  note b = calculate_indices_bounds [OF i]
  have idx: "INDIRECT_IDX < SECTOR_CNT" "DBL_INDIRECT_IDX < SECTOR_CNT" by (simp_all add: inode_consts)
  consider (direct) a where "calculate_indices i = [a]" "a < SECTOR_CNT"
    | (ind) a k where "calculate_indices i = [a, k]" "k < PTRS_PER_SECTOR"
    | (dbl) a k m where "calculate_indices i = [a, k, m]" "k < PTRS_PER_SECTOR" "m < PTRS_PER_SECTOR"
    using b by (auto simp: calculate_indices_def split: if_splits)
  then show ?thesis
  proof cases
    case direct
    then show ?thesis
      using len same_files_refl [OF inv] by (intro that [of s]) (auto simp: fetch_def sector_of_def)
  next
    case ind
    let ?x = "isectors d ! INDIRECT_IDX"
    have "?x < cache_limit (bc s)" using tabs ind by (simp add: tables_of_def)
    from read_table_spec [OF inv this] obtain s' where
      "read_table s ?x = Some (table_at (fview s) ?x, s')" "same_files s s'" .
    then show ?thesis
      using ind len idx by (intro that [of s']) (auto simp: fetch_def sector_of_def)
  next
    case dbl
    let ?x = "isectors d ! DBL_INDIRECT_IDX"
    let ?y = "table_at (fview s) ?x ! k"
    have lim: "?x < cache_limit (bc s)" "?y < cache_limit (bc s)" using tabs dbl by (auto simp: tables_of_def)
    from read_table_spec [OF inv lim(1)] obtain s1 where
      s1: "read_table s ?x = Some (table_at (fview s) ?x, s1)" "same_files s s1" .
    note same = same_filesD [OF s1(2)]
    have "?y < cache_limit (bc s1)" using lim(2) same by simp
    from read_table_spec [OF same(1) this] obtain s2 where
      s2: "read_table s1 ?y = Some (table_at (fview s1) ?y, s2)" "same_files s1 s2" .
    show ?thesis
      using dbl len idx s1 s2 same same_files_trans [OF s1(2) s2(2)]
      by (intro that [of s2]) (auto simp: fetch_def sector_of_def)
  qed
qed

section \<open>Offsets and sectors\<close>

lemma unat_of_nat_small: "n < 4294967296 \<Longrightarrow> unat (of_nat n :: u32) = n"
  by (simp add: unsigned_of_nat take_bit_nat_eq_self)

lemma last_sector_eq:
  assumes "0 \<le> len" and "len \<le> int INODE_SPAN"
  shows "last_sector len = (nat len - 1) div 512"
proof -
  have eq: "div_trunc (len - 1) 512 = int ((nat len - 1) div 512)"
  proof (cases "len = 0")
    case False
    then have "0 < len" using assms(1) by simp
    then obtain m where m: "len = int (Suc m)" by (metis gr0_implies_Suc zero_less_imp_eq_int)
    show ?thesis unfolding m by (simp add: div_trunc_def zdiv_int)
  qed (simp add: div_trunc_def)
  have "(nat len - 1) div 512 \<le> nat len" by (meson diff_le_self div_le_dividend order_trans)
  also have "nat len \<le> INODE_SPAN" using assms(2) by linarith
  also have "INODE_SPAN = 8517120" by (simp add: inode_consts)
  finally show ?thesis
    unfolding last_sector_def eq of_int_of_nat_eq by (intro unat_of_nat_small) simp
qed

lemma sector_cnt_gt:
  assumes "0 \<le> ilength d" "ilength d \<le> int INODE_SPAN" "k < nat (ilength d)"
  shows "k div 512 < sector_cnt d" "k div 512 * BLOCK_SECTOR_SIZE < INODE_SPAN"
proof -
  have "k div 512 \<le> (nat (ilength d) - 1) div 512" using assms(3) by (intro div_le_mono) linarith
  then show "k div 512 < sector_cnt d" by (simp add: sector_cnt_def last_sector_eq assms)
  have "k div 512 * 512 \<le> k" by simp
  then show "k div 512 * BLOCK_SECTOR_SIZE < INODE_SPAN"
    using assms by (simp add: inode_consts)
qed

lemma inode_wfD:
  assumes "inode_wf V lim sec"
  defines "d \<equiv> inode_at V sec"
  shows "sec < lim" "imagic d = INODE_MAGIC" "0 \<le> ilength d" "ilength d \<le> int INODE_SPAN"
    "\<And>i. i < sector_cnt d \<Longrightarrow> sector_of V d i < lim"
    "\<And>i t. i < sector_cnt d \<Longrightarrow> t \<in> tables_of V d i \<Longrightarrow> t < lim"
    "\<And>i. i < sector_cnt d \<Longrightarrow> sector_of V d i \<noteq> sec"
    "\<And>i. i < sector_cnt d \<Longrightarrow> sec \<notin> tables_of V d i"
    "\<And>i j. i < sector_cnt d \<Longrightarrow> j < sector_cnt d \<Longrightarrow> sector_of V d i \<notin> tables_of V d j"
    "\<And>i j. i < sector_cnt d \<Longrightarrow> j < sector_cnt d \<Longrightarrow> i \<noteq> j \<Longrightarrow> sector_of V d i \<noteq> sector_of V d j"
  using assms(1) unfolding inode_wf_def Let_def d_def by blast+

lemma same_sector_of_chunk: "k mod 512 + j < 512 \<Longrightarrow> (k + j) div 512 = k div 512 \<and> (k + j) mod 512 = k mod 512 + j"
  for k j :: nat
  using div_add1_eq [of k j 512] mod_add_left_eq [of k 512 j, symmetric] by simp

text \<open>A chunk inside one sector is a piece of the file.\<close>

lemma file_data_chunk:
  assumes "ofs + m \<le> nat (ilength (inode_at V sec))" and "ofs mod 512 + m \<le> 512"
    and "length (V (sector_of V (inode_at V sec) (ofs div 512))) = 512"
  shows "take m (drop (ofs mod 512) (V (sector_of V (inode_at V sec) (ofs div 512))))
    = take m (drop ofs (file_data V sec))"
proof (rule nth_equalityI)
  let ?l = "take m (drop (ofs mod 512) (V (sector_of V (inode_at V sec) (ofs div 512))))"
  let ?r = "take m (drop ofs (file_data V sec))"
  have "length ?l = m" "length ?r = m" using assms by (simp_all add: file_data_def)
  then show "length ?l = length ?r" by simp
  fix j
  assume "j < length ?l"
  then have j: "j < m" by simp
  then have "(ofs + j) div 512 = ofs div 512 \<and> (ofs + j) mod 512 = ofs mod 512 + j"
    using assms(2) by (intro same_sector_of_chunk) linarith
  then show "?l ! j = ?r ! j" using j assms by (simp add: file_data_def file_byte_def)
qed

section \<open>Reading a file\<close>

text \<open>The inode \<open>ino\<close> is in memory and well-formed on disk, and no thread is inside the cache.\<close>

definition open_wf :: "fs \<Rightarrow> nat \<Rightarrow> block_sector_t \<Rightarrow> bool" where
  "open_wf s ino sec \<longleftrightarrow> cache_inv (bc s) \<and> map_option in_sector (inodes s ino) = Some sec
     \<and> inode_wf (fview s) (cache_limit (bc s)) sec"

lemma open_wf_same_files: "open_wf s ino sec \<Longrightarrow> same_files s s' \<Longrightarrow> open_wf s' ino sec"
  by (auto simp: open_wf_def same_filesD)

lemma inode_length_spec:
  assumes "open_wf s ino sec"
  obtains s' where "inode_length s ino = Some (ilength (inode_at (fview s) sec), s')" "same_files s s'"
proof -
  have "cache_inv (bc s)" "sec < cache_limit (bc s)"
    using assms inode_wfD(1) by (auto simp: open_wf_def)
  from read_disk_inode_spec [OF this] obtain s' where
    "read_disk_inode s sec = Some (inode_at (fview s) sec, s')" "same_files s s'" .
  then show ?thesis using assms by (intro that [of s']) (auto simp: inode_length_def open_wf_def)
qed

lemma get_data_block_spec:
  assumes wf: "open_wf s ino sec" and ofs: "0 \<le> offset" "offset < ilength (inode_at (fview s) sec)"
  obtains s' where "get_data_block s ino offset a
      = Some (Some (sector_of (fview s) (inode_at (fview s) sec) (nat offset div 512)), s')"
    "same_files s s'"
proof -
  let ?d = "inode_at (fview s) sec"
  have inv: "cache_inv (bc s)" and w: "inode_wf (fview s) (cache_limit (bc s)) sec"
    using wf by (auto simp: open_wf_def)
  note w' = inode_wfD [OF w]
  obtain s1 where s1: "read_disk_inode s sec = Some (?d, s1)" "same_files s s1"
    using read_disk_inode_spec [OF inv w'(1)] .
  note same = same_filesD [OF s1(2)]
  have k: "nat offset div 512 < sector_cnt ?d" "nat offset div 512 * BLOCK_SECTOR_SIZE < INODE_SPAN"
    using sector_cnt_gt [OF w'(3,4), of "nat offset"] ofs by auto
  have "t < cache_limit (bc s1)" if "t \<in> tables_of (fview s1) ?d (nat offset div 512)" for t
    using w'(6) [OF k(1)] that same by simp
  then obtain s2 where s2: "follow s1 ?d (calculate_indices (nat offset div 512))
      = Some (sector_of (fview s1) ?d (nat offset div 512), s2)" "same_files s1 s2"
    using follow_spec [OF same(1) length_inode_at k(2)] by blast
  show ?thesis
    using wf s1 s2 w'(2) same ofs same_files_trans [OF s1(2) s2(2)]
    by (intro that [of s2]) (auto simp: get_data_block_def open_wf_def BLOCK_SECTOR_SIZE_def)
qed

lemma wf_sector_length: "open_wf s ino sec \<Longrightarrow> length (fview s x) = 512"
  using bc.sector_length by (simp add: open_wf_def)

text \<open>One round of the loop of \<^verbatim>\<open>inode_read_at\<close>.\<close>

definition chunk_at :: "off_t \<Rightarrow> off_t \<Rightarrow> off_t \<Rightarrow> off_t" where
  "chunk_at left sz offset = min sz (min left (512 - offset mod 512))"

lemma inode_read_at_unfold:
  assumes wf: "open_wf s ino sec" and sz: "0 < sz" and ofs: "0 \<le> offset"
  defines "len \<equiv> ilength (inode_at (fview s) sec)"
  shows "len \<le> offset \<Longrightarrow> \<exists>s'. inode_read_at s ino sz offset = Some ([], s') \<and> same_files s s'"
    and "offset < len \<Longrightarrow> \<exists>s'. same_files s s' \<and>
      inode_read_at s ino sz offset = do {
        (rest, s'') \<leftarrow> inode_read_at s' ino (sz - chunk_at (len - offset) sz offset) (offset + chunk_at (len - offset) sz offset);
        Some (take (nat (chunk_at (len - offset) sz offset)) (drop (nat offset) (file_data (fview s) sec)) @ rest, s'') }"
proof -
  let ?d = "inode_at (fview s) sec"
  let ?c = "chunk_at (len - offset) sz offset"
  obtain s1 where s1: "inode_length s ino = Some (len, s1)" "same_files s s1"
    using inode_length_spec [OF wf] unfolding len_def .
  have chunk: "(if sz < (if len - offset < 512 - offset mod 512 then len - offset else 512 - offset mod 512)
      then sz else (if len - offset < 512 - offset mod 512 then len - offset else 512 - offset mod 512)) = ?c"
    by (simp add: chunk_at_def min_def)
  note wf1 = open_wf_same_files [OF wf s1(2)]
  note same = same_filesD [OF s1(2)]
  show "\<exists>s'. inode_read_at s ino sz offset = Some ([], s') \<and> same_files s s'" if "len \<le> offset"
  proof -
    have "?c \<le> 0" using that by (simp add: chunk_at_def)
    then have "inode_read_at s ino sz offset = Some ([], s1)"
      using sz s1(1) chunk by (subst inode_read_at.simps) (simp add: Let_def)
    then show ?thesis using s1(2) by blast
  qed
  show "\<exists>s'. same_files s s' \<and>
      inode_read_at s ino sz offset = do {
        (rest, s'') \<leftarrow> inode_read_at s' ino (sz - ?c) (offset + ?c);
        Some (take (nat ?c) (drop (nat offset) (file_data (fview s) sec)) @ rest, s'') }" if lt: "offset < len"
  proof -
    have c: "0 < ?c" "?c \<le> len - offset" "?c \<le> 512 - offset mod 512"
      using lt sz by (auto simp: chunk_at_def)
    let ?n = "sector_of (fview s) ?d (nat offset div 512)"
    obtain s2 where s2: "get_data_block s1 ino offset False = Some (Some ?n, s2)" "same_files s1 s2"
      using get_data_block_spec [OF wf1 ofs] lt same unfolding len_def by metis
    note same2 = same_filesD [OF s2(2)]
    have w: "inode_wf (fview s) (cache_limit (bc s)) sec" using wf by (simp add: open_wf_def)
    note w' = inode_wfD [OF w]
    have "nat offset div 512 < sector_cnt ?d"
      using sector_cnt_gt [OF w'(3,4), of "nat offset"] ofs lt by (auto simp: len_def)
    then have n: "?n < cache_limit (bc s)" using w'(5) by blast
    then have nn: "?n \<noteq> - 1" using word_order.extremum_strict by auto
    obtain s3 where s3: "fs_read s2 ?n = Some (fview s2 ?n, s3)" "same_files s2 s3"
      using fs_read_spec [OF same2(1), of ?n] n same same2 by auto
    have "take (nat ?c) (drop (nat (offset mod 512)) (fview s ?n)) = take (nat ?c) (drop (nat offset) (file_data (fview s) sec))"
    proof -
      have m: "nat (offset mod 512) = nat offset mod 512" using ofs by (simp add: nat_mod_distrib)
      have "nat offset + nat ?c \<le> nat len" "nat offset mod 512 + nat ?c \<le> 512"
        using c ofs lt m by linarith+
      then show ?thesis
        using file_data_chunk [of "nat offset" "nat ?c" "fview s" sec] m wf_sector_length [OF wf]
        unfolding len_def by simp
    qed
    then have "inode_read_at s ino sz offset = do {
        (rest, s'') \<leftarrow> inode_read_at s3 ino (sz - ?c) (offset + ?c);
        Some (take (nat ?c) (drop (nat offset) (file_data (fview s) sec)) @ rest, s'') }"
      using sz s1(1) s2(1) s3(1) same same2 c nn
      by (subst inode_read_at.simps) (simp add: Let_def chunk)
    moreover have "same_files s s3" using s1(2) s2(2) s3(2) same_files_trans by blast
    ultimately show ?thesis by blast
  qed
qed

lemma inode_read_at_spec:
  assumes "open_wf s ino sec" and "0 \<le> offset"
  shows "\<exists>s'. inode_read_at s ino sz offset = Some (take (nat sz) (drop (nat offset) (file_data (fview s) sec)), s')
    \<and> same_files s s'"
  using assms
proof (induction "nat sz" arbitrary: s sz offset rule: less_induct)
  case less
  let ?len = "ilength (inode_at (fview s) sec)"
  let ?c = "chunk_at (?len - offset) sz offset"
  have L: "length (file_data (fview s) sec) = nat ?len" by (simp add: file_data_def)
  consider (none) "sz \<le> 0" | (past) "0 < sz" "?len \<le> offset" | (more) "0 < sz" "offset < ?len" by linarith
  then show ?case
  proof cases
    case none
    then show ?thesis using less.prems same_files_refl by (subst inode_read_at.simps) (auto simp: open_wf_def)
  next
    case past
    then show ?thesis
      using inode_read_at_unfold(1) [OF less.prems(1) past(1) less.prems(2) past(2)] L by auto
  next
    case more
    obtain s1 where s1: "same_files s s1" "inode_read_at s ino sz offset = do {
        (rest, s'') \<leftarrow> inode_read_at s1 ino (sz - ?c) (offset + ?c);
        Some (take (nat ?c) (drop (nat offset) (file_data (fview s) sec)) @ rest, s'') }"
      using inode_read_at_unfold(2) [OF less.prems(1) more(1) less.prems(2) more(2)] by blast
    have c: "0 < ?c" "?c \<le> sz" using more by (auto simp: chunk_at_def)
    obtain s2 where s2: "inode_read_at s1 ino (sz - ?c) (offset + ?c)
        = Some (take (nat (sz - ?c)) (drop (nat (offset + ?c)) (file_data (fview s1) sec)), s2)" "same_files s1 s2"
      using less.hyps [OF _ open_wf_same_files [OF less.prems(1) s1(1)], of "sz - ?c" "offset + ?c"] c less.prems(2)
      by auto
    have "nat sz = nat ?c + nat (sz - ?c)" "nat (offset + ?c) = nat ?c + nat offset"
      using c less.prems(2) by linarith+
    then have "take (nat sz) (drop (nat offset) xs)
      = take (nat ?c) (drop (nat offset) xs) @ take (nat (sz - ?c)) (drop (nat (offset + ?c)) xs)" for xs :: bytes
      by (simp add: take_add)
    then show ?thesis
      using s1 s2 same_filesD(2) [OF s1(1)] same_files_trans [OF s1(1) s2(2)] by simp
  qed
qed

section \<open>Overwriting a file\<close>

text \<open>The index of an inode depends only on the tables it passes through.\<close>

lemma index_cong:
  assumes "\<And>t. t \<in> tables_of V d i \<Longrightarrow> V' t = V t"
  shows "sector_of V' d i = sector_of V d i" "tables_of V' d i = tables_of V d i"
  using assms by (auto simp: sector_of_def tables_of_def calculate_indices_def split: if_splits)

text \<open>\<open>V'\<close> has the same inode and the same tables.\<close>

definition same_index :: "disk_view \<Rightarrow> disk_view \<Rightarrow> block_sector_t \<Rightarrow> bool" where
  "same_index V V' sec \<longleftrightarrow> V' sec = V sec
     \<and> (\<forall>i < sector_cnt (inode_at V sec). \<forall>t \<in> tables_of V (inode_at V sec) i. V' t = V t)"

lemma same_indexD:
  assumes "same_index V V' sec" and "i < sector_cnt (inode_at V sec)"
  shows "sector_of V' (inode_at V sec) i = sector_of V (inode_at V sec) i"
    "tables_of V' (inode_at V sec) i = tables_of V (inode_at V sec) i"
  using assms index_cong [of V "inode_at V sec" i V'] by (auto simp: same_index_def)

lemma same_index_wf: "same_index V V' sec \<Longrightarrow> inode_wf V lim sec \<Longrightarrow> inode_wf V' lim sec"
  using same_indexD [of V V' sec] unfolding inode_wf_def Let_def
  by (simp add: same_index_def [of V V' sec])

lemma same_index_data_sectors: "same_index V V' sec \<Longrightarrow> data_sectors V' sec = data_sectors V sec"
  using same_indexD(1) [of V V' sec] by (auto simp: data_sectors_def same_index_def [of V V' sec])

lemma same_index_refl: "same_index V V sec"
  by (simp add: same_index_def)

lemma same_index_trans: "same_index V V' sec \<Longrightarrow> same_index V' V'' sec \<Longrightarrow> same_index V V'' sec"
  using same_indexD(2) [of V V' sec] by (simp add: same_index_def)

text \<open>Changing a data sector keeps the index and changes a piece of the file.\<close>

lemma same_index_upd_data:
  assumes "inode_wf V lim sec" and "i < sector_cnt (inode_at V sec)"
  shows "same_index V (V(sector_of V (inode_at V sec) i := bs)) sec"
  using inode_wfD(7,9) [OF assms(1)] assms(2) by (force simp: same_index_def)

lemma sector_split: "k = 512 * (k div 512) + k mod 512" "k mod 512 < 512" for k :: nat
  by simp_all

lemma file_data_upd:
  assumes wf: "inode_wf V lim sec" and lens: "\<And>x. length (V x) = 512"
    and fit: "ofs mod 512 + length bs \<le> 512" and inside: "ofs + length bs \<le> nat (ilength (inode_at V sec))"
    and ne: "bs \<noteq> []"
  defines "x \<equiv> sector_of V (inode_at V sec) (ofs div 512)"
  shows "file_data (V(x := memcpy_at (V x) (ofs mod 512) bs)) sec = memcpy_at (file_data V sec) ofs bs"
proof -
  let ?V = "V(x := memcpy_at (V x) (ofs mod 512) bs)" and ?d = "inode_at V sec"
  note w = inode_wfD [OF wf]
  have io: "ofs div 512 < sector_cnt ?d"
    using ne inside by (intro sector_cnt_gt [OF w(3,4)]) (cases bs; simp)
  have si: "same_index V ?V sec" unfolding x_def using wf io by (rule same_index_upd_data)
  then have d: "inode_at ?V sec = ?d" by (simp add: same_index_def)
  let ?n = "nat (ilength ?d)"
  have L: "length (file_data V sec) = ?n" by (simp add: file_data_def)
  have "file_byte ?V ?d k = memcpy_at (file_data V sec) ofs bs ! k" if k: "k < ?n" for k
  proof -
    have kc: "k div 512 < sector_cnt ?d" using sector_cnt_gt [OF w(3,4) k] by blast
    have sk: "sector_of ?V ?d (k div 512) = sector_of V ?d (k div 512)" using same_indexD(1) [OF si kc] .
    have rhs: "memcpy_at (file_data V sec) ofs bs ! k
      = (if ofs \<le> k \<and> k < ofs + length bs then bs ! (k - ofs) else file_byte V ?d k)"
      using nth_memcpy_at [of ofs bs "file_data V sec" k] inside k L by (simp add: file_data_def)
    show ?thesis
    proof (cases "k div 512 = ofs div 512")
      case True
      then have "sector_of ?V ?d (k div 512) = x" using sk by (simp add: x_def)
      then have "file_byte ?V ?d k = memcpy_at (V x) (ofs mod 512) bs ! (k mod 512)"
        by (simp add: file_byte_def)
      also have "\<dots> = (if ofs mod 512 \<le> k mod 512 \<and> k mod 512 < ofs mod 512 + length bs
          then bs ! (k mod 512 - ofs mod 512) else V x ! (k mod 512))"
        using fit lens by (intro nth_memcpy_at) simp_all
      finally have lhs: "file_byte ?V ?d k = \<dots>" .
      have "ofs mod 512 \<le> k mod 512 \<and> k mod 512 < ofs mod 512 + length bs \<longleftrightarrow> ofs \<le> k \<and> k < ofs + length bs"
        "k mod 512 - ofs mod 512 = k - ofs"
        using sector_split(1) [of k] sector_split(1) [of ofs] True by linarith+
      moreover have "V x ! (k mod 512) = file_byte V ?d k" using True by (simp add: file_byte_def x_def)
      ultimately show ?thesis using lhs rhs by presburger
    next
      case False
      then have "sector_of V ?d (k div 512) \<noteq> x" unfolding x_def using w(10) [OF kc io] by simp
      then have "file_byte ?V ?d k = file_byte V ?d k" by (simp add: file_byte_def sk)
      moreover have "\<not> (ofs \<le> k \<and> k < ofs + length bs)"
        using sector_split [of k] sector_split [of ofs] False fit by linarith
      ultimately show ?thesis unfolding rhs by (simp only: if_False)
    qed
  qed
  moreover have "file_data ?V sec = map (file_byte ?V ?d) [0..<?n]" unfolding file_data_def d ..
  ultimately show ?thesis using L inside by (intro nth_equalityI) simp_all
qed

text \<open>\<open>s'\<close> differs from \<open>s\<close> only in the cache and the disk.\<close>

definition only_disk :: "fs \<Rightarrow> fs \<Rightarrow> bool" where
  "only_disk s s' \<longleftrightarrow> (\<exists>c. s' = s\<lparr>bc := c\<rparr> \<and> cache_inv c \<and> cache_limit c = cache_limit (bc s))"

lemma only_diskD:
  assumes "only_disk s s'"
  shows "cache_inv (bc s')" "cache_limit (bc s') = cache_limit (bc s)" "inodes s' = inodes s"
    "open_inodes s' = open_inodes s" "next_inode s' = next_inode s" "free_map s' = free_map s"
    "free_map_file s' = free_map_file s" "running s' = running s"
  using assms by (auto simp: only_disk_def)

lemma only_disk_trans: "only_disk s s' \<Longrightarrow> only_disk s' s'' \<Longrightarrow> only_disk s s''"
  by (auto simp: only_disk_def)

lemma same_files_only_disk: "same_files s s' \<Longrightarrow> only_disk s s'"
  by (auto simp: same_files_def only_disk_def)

text \<open>The effect of overwriting bytes of a file.\<close>

definition overwritten :: "fs \<Rightarrow> block_sector_t \<Rightarrow> nat \<Rightarrow> bytes \<Rightarrow> fs \<Rightarrow> bool" where
  "overwritten s sec ofs bs s' \<longleftrightarrow> only_disk s s' \<and> same_index (fview s) (fview s') sec
     \<and> file_data (fview s') sec = memcpy_at (file_data (fview s) sec) ofs bs
     \<and> (\<forall>x. x \<notin> data_sectors (fview s) sec \<longrightarrow> fview s' x = fview s x)"

lemma overwritten_open_wf: "overwritten s sec ofs bs s' \<Longrightarrow> open_wf s ino sec \<Longrightarrow> open_wf s' ino sec"
  using same_index_wf by (auto simp: overwritten_def open_wf_def only_diskD)

lemma overwritten_trans:
  assumes "overwritten s sec ofs a s'" and "overwritten s' sec (ofs + length a) b s''"
    and "ofs + length a + length b \<le> length (file_data (fview s) sec)"
  shows "overwritten s sec ofs (a @ b) s''"
proof -
  have 1: "only_disk s s'" "same_index (fview s) (fview s') sec"
    "file_data (fview s') sec = memcpy_at (file_data (fview s) sec) ofs a"
    "\<And>x. x \<notin> data_sectors (fview s) sec \<Longrightarrow> fview s' x = fview s x"
    using assms(1) by (auto simp: overwritten_def)
  have 2: "only_disk s' s''" "same_index (fview s') (fview s'') sec"
    "file_data (fview s'') sec = memcpy_at (file_data (fview s') sec) (ofs + length a) b"
    "\<And>x. x \<notin> data_sectors (fview s') sec \<Longrightarrow> fview s'' x = fview s' x"
    using assms(2) by (auto simp: overwritten_def)
  have ds: "data_sectors (fview s') sec = data_sectors (fview s) sec"
    using 1(2) by (rule same_index_data_sectors)
  show ?thesis
    unfolding overwritten_def
  proof (intro conjI allI impI)
    show "only_disk s s''" using 1(1) 2(1) by (rule only_disk_trans)
    show "same_index (fview s) (fview s'') sec" using 1(2) 2(2) by (rule same_index_trans)
    show "file_data (fview s'') sec = memcpy_at (file_data (fview s) sec) ofs (a @ b)"
      unfolding 2(3) 1(3) by (rule memcpy_at_append [OF assms(3)])
    show "fview s'' x = fview s x" if "x \<notin> data_sectors (fview s) sec" for x
      using that 1(4) 2(4) ds by simp
  qed
qed

text \<open>One round of the loop of \<^verbatim>\<open>inode_write_at\<close>.\<close>

lemma inode_write_loop_unfold:
  assumes wf: "open_wf s ino sec" and ofs: "0 \<le> offset" and ne: "buf \<noteq> []"
    and fit: "offset + int (length buf) \<le> ilength (inode_at (fview s) sec)"
  defines "m \<equiv> min (length buf) (512 - nat offset mod 512)"
  shows "\<exists>s'. overwritten s sec (nat offset) (take m buf) s'
    \<and> inode_write_loop s ino buf offset = do {
        (written, s'') \<leftarrow> inode_write_loop s' ino (drop m buf) (offset + int m);
        Some (m + written, s'') }"
proof -
  let ?d = "inode_at (fview s) sec"
  let ?n = "sector_of (fview s) ?d (nat offset div 512)"
  have w: "inode_wf (fview s) (cache_limit (bc s)) sec" and inv: "cache_inv (bc s)"
    using wf by (auto simp: open_wf_def)
  note w' = inode_wfD [OF w]
  have md: "offset mod 512 = int (nat offset mod 512)" using ofs by (simp add: zmod_int)
  have m: "0 < m" "m \<le> length buf" "nat offset mod 512 + m \<le> 512" using ne by (auto simp: m_def)
  have lt: "offset < ilength ?d" using fit ne by (cases buf) auto
  have k: "nat offset div 512 < sector_cnt ?d"
    using sector_cnt_gt [OF w'(3,4), of "nat offset"] ofs lt by auto
  have n: "?n < cache_limit (bc s)" using w'(5) [OF k] .
  have nmd: "nat (offset mod 512) = nat offset mod 512" using md by simp
  have chunk: "(if int (length buf) < (if int INODE_SPAN - offset < 512 - offset mod 512
        then int INODE_SPAN - offset else 512 - offset mod 512)
      then int (length buf)
      else (if int INODE_SPAN - offset < 512 - offset mod 512 then int INODE_SPAN - offset else 512 - offset mod 512))
    = int m"
  proof -
    have "int (length buf) \<le> int INODE_SPAN - offset" using fit w'(4) by linarith
    moreover have "512 - offset mod 512 = int (512 - nat offset mod 512)" using md by simp
    ultimately show ?thesis unfolding m_def by (auto simp del: of_nat_diff)
  qed
  obtain s1 where s1: "get_data_block s ino offset True = Some (Some ?n, s1)" "same_files s s1"
    using get_data_block_spec [OF wf ofs lt] .
  note same = same_filesD [OF s1(2)]
  obtain s2 where s2: "fs_read s1 ?n = Some (fview s ?n, s2)" "same_files s1 s2"
    using fs_read_spec [OF same(1), of ?n] n same by auto
  note same2 = same_filesD [OF s2(2)]
  let ?bs = "memcpy_at (fview s ?n) (nat offset mod 512) (take m buf)"
  have "length ?bs = 512" using m wf_sector_length [OF wf] by simp
  then obtain c where c: "fs_write s2 ?n ?bs = Some (s2\<lparr>bc := c\<rparr>)" "cache_inv c"
    "cache_limit c = cache_limit (bc s)" "view c = (fview s)(?n := ?bs)"
    using fs_write_spec [OF same2(1), of ?n ?bs] n same same2 by auto
  let ?s' = "s2\<lparr>bc := c\<rparr>"
  have eq: "inode_write_loop s ino buf offset = do {
      (written, s'') \<leftarrow> inode_write_loop ?s' ino (drop m buf) (offset + int m);
      Some (m + written, s'') }"
    using ne s1(1) s2(1) c(1) m(1)
    by (subst inode_write_loop.simps) (simp add: Let_def chunk nmd)
  have "overwritten s sec (nat offset) (take m buf) ?s'"
    unfolding overwritten_def
  proof (intro conjI allI impI)
    show "only_disk s ?s'"
      using same_files_only_disk [OF same_files_trans [OF s1(2) s2(2)]] c(2,3) by (auto simp: only_disk_def)
    show "same_index (fview s) (fview ?s') sec"
      using same_index_upd_data [OF w k] c(4) by simp
    have "file_data ((fview s)(?n := ?bs)) sec = memcpy_at (file_data (fview s) sec) (nat offset) (take m buf)"
    proof (rule file_data_upd [OF w wf_sector_length [OF wf]])
      show "nat offset + length (take m buf) \<le> nat (ilength ?d)" using fit m ofs by simp
    qed (use m ne in auto)
    then show "file_data (fview ?s') sec = memcpy_at (file_data (fview s) sec) (nat offset) (take m buf)"
      using c(4) by simp
    show "fview ?s' x = fview s x" if "x \<notin> data_sectors (fview s) sec" for x
      using that c(4) k by (auto simp: data_sectors_def)
  qed
  then show ?thesis using eq by blast
qed

lemma inode_write_loop_spec:
  assumes "open_wf s ino sec" and "0 \<le> offset"
    and "offset + int (length buf) \<le> ilength (inode_at (fview s) sec)"
  shows "\<exists>s'. inode_write_loop s ino buf offset = Some (length buf, s') \<and> overwritten s sec (nat offset) buf s'"
  using assms
proof (induction "length buf" arbitrary: s buf offset rule: less_induct)
  case less
  show ?case
  proof (cases "buf = []")
    case True
    then show ?thesis
      using less.prems same_files_only_disk [OF same_files_refl, of s]
      by (subst inode_write_loop.simps) (auto simp: overwritten_def open_wf_def same_index_refl)
  next
    case False
    define m where "m = min (length buf) (512 - nat offset mod 512)"
    obtain s1 where s1: "overwritten s sec (nat offset) (take m buf) s1"
      "inode_write_loop s ino buf offset = do {
        (written, s'') \<leftarrow> inode_write_loop s1 ino (drop m buf) (offset + int m);
        Some (m + written, s'') }"
      using inode_write_loop_unfold [OF less.prems(1,2) False less.prems(3)] unfolding m_def by blast
    have m: "0 < m" "m \<le> length buf" using False by (auto simp: m_def)
    have d: "inode_at (fview s1) sec = inode_at (fview s) sec"
      using s1(1) by (simp add: overwritten_def same_index_def)
    have "length (drop m buf) < length buf" using m False by simp
    moreover have "0 \<le> offset + int m" using less.prems(2) by simp
    moreover have "offset + int m + int (length (drop m buf)) \<le> ilength (inode_at (fview s1) sec)"
      using less.prems(3) m d by simp
    ultimately obtain s2 where s2: "inode_write_loop s1 ino (drop m buf) (offset + int m) = Some (length (drop m buf), s2)"
      "overwritten s1 sec (nat (offset + int m)) (drop m buf) s2"
      using less.hyps [OF _ overwritten_open_wf [OF s1(1) less.prems(1)]] by blast
    have no: "nat (offset + int m) = nat offset + length (take m buf)" using less.prems(2) m by simp
    have "overwritten s sec (nat offset) (take m buf @ drop m buf) s2"
    proof (rule overwritten_trans [OF s1(1)])
      show "overwritten s1 sec (nat offset + length (take m buf)) (drop m buf) s2" using s2(2) no by simp
      show "nat offset + length (take m buf) + length (drop m buf) \<le> length (file_data (fview s) sec)"
        using less.prems(2,3) m by (simp add: file_data_def)
    qed
    then show ?thesis using s1(2) s2(1) m by simp
  qed
qed

text \<open>When the file is long enough, \<^verbatim>\<open>extend_file\<close> changes nothing, whatever the allocator.\<close>

lemma extend_file_enough:
  assumes wf: "open_wf s ino sec" and len: "0 \<le> len" "len \<le> ilength (inode_at (fview s) sec)"
  shows "\<exists>d s'. extend_file alloc s (Some ino) len None = Some (True, d, s') \<and> same_files s s'"
proof -
  let ?d = "inode_at (fview s) sec"
  have w: "inode_wf (fview s) (cache_limit (bc s)) sec" and inv: "cache_inv (bc s)"
    using wf by (auto simp: open_wf_def)
  note w' = inode_wfD [OF w]
  obtain s1 where s1: "read_disk_inode s sec = Some (?d, s1)" "same_files s s1"
    using read_disk_inode_spec [OF inv w'(1)] .
  obtain node where node: "inodes s ino = Some node" "in_sector node = sec"
    using wf by (auto simp: open_wf_def)
  have "last_sector len \<le> last_sector (ilength ?d)"
    using len w'(3,4) by (simp add: last_sector_eq div_le_mono nat_mono diff_le_mono)
  moreover have "\<not> (len > int INODE_SPAN \<or> len < 0)" "ilength ?d \<noteq> - 1" "\<not> ilength ?d < len"
    using len w'(3,4) by auto
  ultimately have "extend_file alloc s (Some ino) len None = Some (True, Some ?d, s1)"
    using s1(1) node by (auto simp: extend_file_def)
  then show ?thesis using s1(2) by blast
qed

lemma open_wf_upd_inode:
  "(\<And>n. in_sector (f n) = in_sector n) \<Longrightarrow> open_wf (upd_inode s ino' f) ino sec = open_wf s ino sec"
  by (auto simp: open_wf_def upd_inode_def)

lemma off_add_small: "off_t_ok (a + b) \<Longrightarrow> off_add a b = a + b"
  unfolding off_add_def by (rule sint_word_of_off_t)

lemma inode_write_at_inside:
  assumes wf: "open_wf s ino sec" and node: "inodes s ino = Some node" "deny_write_cnt node = 0"
    and ofs: "0 \<le> offset" "offset + int (length buf) \<le> ilength (inode_at (fview s) sec)"
  shows "\<exists>s'. inode_write_at alloc s ino buf offset = Some (length buf, s') \<and> overwritten s sec (nat offset) buf s'"
proof -
  let ?s1 = "upd_inode s ino (\<lambda>n. n\<lparr>writer_cnt := writer_cnt n + 1\<rparr>)"
  have "ilength (inode_at (fview s) sec) \<le> int INODE_SPAN"
    using wf inode_wfD(4) by (auto simp: open_wf_def)
  then have ok: "off_add offset (int (length buf)) = offset + int (length buf)"
    using ofs by (intro off_add_small) (simp add: off_t_ok_def inode_consts)
  have wf1: "open_wf ?s1 ino sec" using wf by (simp add: open_wf_upd_inode)
  obtain d s2 where s2: "extend_file alloc ?s1 (Some ino) (offset + int (length buf)) None = Some (True, d, s2)"
    "same_files ?s1 s2"
    using extend_file_enough [OF wf1, of "offset + int (length buf)" alloc] ofs by (auto simp: upd_inode_def)
  obtain s3 where s3: "inode_write_loop s2 ino buf offset = Some (length buf, s3)"
    "overwritten s2 sec (nat offset) buf s3"
    using inode_write_loop_spec [OF open_wf_same_files [OF wf1 s2(2)] ofs(1), of buf] ofs(2)
    by (auto simp: same_filesD [OF s2(2)] upd_inode_def)
  have f2: "fview s2 = fview s" using same_filesD(2) [OF s2(2)] by (simp add: upd_inode_def)
  let ?s4 = "upd_inode s3 ino (\<lambda>n. n\<lparr>writer_cnt := writer_cnt n - 1\<rparr>)"
  have "only_disk ?s1 s3"
    using same_files_only_disk [OF s2(2)] s3(2) only_disk_trans by (auto simp: overwritten_def)
  then obtain c where c: "s3 = ?s1\<lparr>bc := c\<rparr>" "cache_inv c" "cache_limit c = cache_limit (bc s)"
    by (auto simp: only_disk_def upd_inode_def)
  have "?s4 = s\<lparr>bc := c\<rparr>"
    unfolding c(1) by (simp add: upd_inode_def node fun_upd_idem)
  then have "overwritten s sec (nat offset) buf ?s4"
    using s3(2) c f2 by (auto simp: overwritten_def only_disk_def)
  moreover have "inode_write_at alloc s ino buf offset = Some (length buf, ?s4)"
    using node s2(1) s3(1) by (simp add: inode_write_at_def ok)
  ultimately show ?thesis by blast
qed

section \<open>Properties\<close>

text \<open>
  A disk of eight sectors with one file in the data sectors \<open>ds\<close>, whose inode is in sector 2 and
  is opened as inode 0, for the witnesses.
\<close>

definition demo_inode :: "block_sector_t list \<Rightarrow> off_t \<Rightarrow> inode_disk" where
  "demo_inode ds len = \<lparr>itype = FILE_INODE, ilength = len, imagic = INODE_MAGIC,
     isectors = ds @ replicate (125 - length ds) 0\<rparr>"

definition demo_contents :: "block_sector_t list \<Rightarrow> off_t \<Rightarrow> disk_view" where
  "demo_contents ds len = (\<lambda>_. replicate 512 7)(5 := replicate 512 0, 2 := inode_disk_bytes (demo_inode ds len))"

definition demo_fs :: "block_sector_t list \<Rightarrow> off_t \<Rightarrow> fs" where
  "demo_fs ds len = \<lparr>bc = cache_init (replicate 64 demo_block) (demo_disk\<lparr>contents := demo_contents ds len\<rparr>),
     inodes = [0 \<mapsto> \<lparr>in_sector = 2, open_cnt = 1, removed = False, in_lock = None, deny_write_cnt = 0, writer_cnt = 0\<rparr>],
     open_inodes = [0], next_inode = 1, free_map = \<lparr>bit_cnt = 8, bits = [31]\<rparr>, free_map_file = None, running = 1\<rparr>"

definition demo_ok :: "block_sector_t list \<Rightarrow> off_t \<Rightarrow> bool" where
  "demo_ok ds len \<longleftrightarrow> distinct ds \<and> (\<forall>x \<in> set ds. x < 8 \<and> x \<noteq> 2) \<and> length ds \<le> 123
     \<and> 0 \<le> len \<and> len \<le> 60000 \<and> length ds = (nat len - 1) div 512 + 1"

lemma demo_inode_len: "demo_ok ds len \<Longrightarrow> length (isectors (demo_inode ds len)) = SECTOR_CNT"
  by (simp add: demo_inode_def demo_ok_def inode_consts)

lemma demo_contents_inode: "demo_ok ds len \<Longrightarrow> inode_at (demo_contents ds len) 2 = demo_inode ds len"
  using inode_disk_roundtrip [OF demo_inode_len]
  by (simp add: demo_contents_def) (simp add: demo_inode_def off_t_ok_def demo_ok_def)

lemma demo_fs_cache:
  assumes "demo_ok ds len"
  shows "cache_inv (bc (demo_fs ds len))" "fview (demo_fs ds len) = demo_contents ds len"
    "cache_limit (bc (demo_fs ds len)) = 8"
proof -
  have "length (demo_contents ds len x) = 512" for x
    using length_inode_disk_bytes [OF demo_inode_len [OF assms]] by (simp add: demo_contents_def BLOCK_SECTOR_SIZE_def)
  then have "dev_ok (demo_disk\<lparr>contents := demo_contents ds len\<rparr>)"
    by (simp add: dev_ok_def demo_disk_def BLOCK_SECTOR_SIZE_def)
  moreover have "length (replicate 64 demo_block) = CACHE_CNT"
    "\<forall>cb \<in> set (replicate 64 demo_block). length (data cb) = BLOCK_SECTOR_SIZE"
    by (simp_all add: CACHE_CNT_def demo_block_def BLOCK_SECTOR_SIZE_def)
  ultimately show "cache_inv (bc (demo_fs ds len))" "fview (demo_fs ds len) = demo_contents ds len"
    using cache_init_inv by (simp_all add: demo_fs_def)
  show "cache_limit (bc (demo_fs ds len)) = 8" by (simp add: demo_fs_def cache_init_def demo_disk_def)
qed

lemma demo_fs_wf:
  assumes ok: "demo_ok ds len"
  shows "open_wf (demo_fs ds len) 0 2"
proof -
  let ?d = "demo_inode ds len" and ?V = "demo_contents ds len"
  have len: "0 \<le> len" "len \<le> int INODE_SPAN" using ok by (simp_all add: demo_ok_def inode_consts)
  have n: "sector_cnt ?d = length ds"
    using ok by (simp add: sector_cnt_def demo_inode_def last_sector_eq [OF len] demo_ok_def)
  have so: "sector_of ?V ?d i = ds ! i" "tables_of ?V ?d i = {}" if "i < length ds" for i
    using that ok by (simp_all add: sector_of_def tables_of_def calculate_indices_def inode_consts
        demo_inode_def demo_ok_def nth_append)
  have ds: "ds ! i < 8" "ds ! i \<noteq> 2" if "i < length ds" for i
    using ok that by (auto simp: demo_ok_def)
  have "distinct ds" using ok by (simp add: demo_ok_def)
  then have "inode_wf ?V 8 2"
    unfolding inode_wf_def demo_contents_inode [OF ok] Let_def n
    using len so ds by (auto simp: nth_eq_iff_index_eq) (simp_all add: demo_inode_def)
  then show ?thesis using demo_fs_cache [OF ok] by (simp add: open_wf_def) (simp add: demo_fs_def)
qed

lemma demo_fs_node:
  "inodes (demo_fs ds len) 0
    = Some \<lparr>in_sector = 2, open_cnt = 1, removed = False, in_lock = None, deny_write_cnt = 0, writer_cnt = 0\<rparr>"
  "demo_ok ds len \<Longrightarrow> ilength (inode_at (fview (demo_fs ds len)) 2) = len"
  by (simp_all add: demo_fs_cache demo_contents_inode) (simp_all add: demo_fs_def demo_inode_def)

lemma demo_ok_600: "demo_ok [3, 4] 600"
  by (simp add: demo_ok_def)

text \<open>
  C5: \<^verbatim>\<open>inode_read_at\<close> returns exactly the bytes of the file between \<open>offset\<close> and the end of the file
  or of the request, whichever comes first, through direct, indirect and doubly indirect
  sectors; it always returns and changes no file.
\<close>

theorem inode_read_at_correct:
  assumes "open_wf s ino sec" and "0 \<le> offset"
  shows "\<exists>s'. inode_read_at s ino sz offset = Some (take (nat sz) (drop (nat offset) (file_data (fview s) sec)), s')
    \<and> fview s' = fview s \<and> open_wf s' ino sec"
  using inode_read_at_spec [OF assms, of sz] open_wf_same_files [OF assms(1)] same_filesD(2) by blast

theorem inode_read_at_correct_witness:
  "\<exists>s'. inode_read_at (demo_fs [3, 4] 600) 0 100 550 = Some (take (nat 100) (drop (nat 550) (file_data (fview (demo_fs [3, 4] 600)) 2)), s')"
  using inode_read_at_correct [OF demo_fs_wf [OF demo_ok_600], of 550 100] by auto

text \<open>
  C4: writing inside a file writes the whole buffer, replaces exactly the bytes from \<open>offset\<close> on and
  leaves every sector that is not a data sector of the file as it was, in particular all inodes
  and index tables; no sector is allocated.
\<close>

theorem inode_write_at_overwrites:
  assumes "open_wf s ino sec" and "inodes s ino = Some node" and "deny_write_cnt node = 0"
    and "0 \<le> offset" and "offset + int (length buf) \<le> ilength (inode_at (fview s) sec)"
  shows "\<exists>s'. inode_write_at alloc s ino buf offset = Some (length buf, s')
    \<and> file_data (fview s') sec = memcpy_at (file_data (fview s) sec) (nat offset) buf
    \<and> (\<forall>x. x \<notin> data_sectors (fview s) sec \<longrightarrow> fview s' x = fview s x)
    \<and> open_wf s' ino sec \<and> free_map s' = free_map s"
  using inode_write_at_inside [OF assms, of alloc] overwritten_open_wf [OF _ assms(1)]
  by (auto simp: overwritten_def only_diskD)

theorem inode_write_at_overwrites_witness:
  "\<exists>s'. inode_write_at free_map_alloc1 (demo_fs [3, 4] 600) 0 [1, 2, 3, 4] 510 = Some (4, s')
    \<and> file_data (fview s') 2 = memcpy_at (file_data (fview (demo_fs [3, 4] 600)) 2) (nat 510) [1, 2, 3, 4]"
  using inode_write_at_overwrites [OF demo_fs_wf [OF demo_ok_600] demo_fs_node(1), of 510 "[1, 2, 3, 4]" free_map_alloc1] demo_fs_node(2) [OF demo_ok_600]
  by auto

text \<open>
  what is written inside a file is what is read back from there.
\<close>

theorem inode_write_read_back:
  assumes "open_wf s ino sec" and "inodes s ino = Some node" and "deny_write_cnt node = 0"
    and "0 \<le> offset" and "offset + int (length buf) \<le> ilength (inode_at (fview s) sec)"
  shows "\<exists>s' s''. inode_write_at alloc s ino buf offset = Some (length buf, s')
    \<and> inode_read_at s' ino (int (length buf)) offset = Some (buf, s'')"
proof -
  obtain s' where s': "inode_write_at alloc s ino buf offset = Some (length buf, s')"
    "overwritten s sec (nat offset) buf s'"
    using inode_write_at_inside [OF assms] by blast
  have "nat offset + length buf \<le> length (file_data (fview s) sec)"
    using assms(4,5) by (simp add: file_data_def)
  then show ?thesis
    using s' inode_read_at_spec [OF overwritten_open_wf [OF s'(2) assms(1)] assms(4), of "int (length buf)"]
      take_drop_memcpy_at [of "nat offset" buf]
    by (auto simp: overwritten_def)
qed

theorem inode_write_read_back_witness:
  "\<exists>s' s''. inode_write_at free_map_alloc1 (demo_fs [3, 4] 600) 0 [1, 2, 3, 4] 510 = Some (4, s')
    \<and> inode_read_at s' 0 4 510 = Some ([1, 2, 3, 4], s'')"
  using inode_write_read_back [OF demo_fs_wf [OF demo_ok_600] demo_fs_node(1), of 510 "[1, 2, 3, 4]" free_map_alloc1] demo_fs_node(2) [OF demo_ok_600]
  by auto

end
