(* ===== verification/File.thy ===== *)
theory File
  imports Inode_Data
begin

text \<open>
  Open files (\<^verbatim>\<open>filesys/file.c\<close>): an inode, a position and whether this file denies writes; and the
  rest of \<^verbatim>\<open>filesys/free-map.c\<close>, which keeps the free map in a file. \<open>mem\<close> says whether the
  allocation of a \<^verbatim>\<open>struct file\<close> succeeds.
\<close>

section \<open>Operations on open files\<close>

record open_file =
  f_inode :: nat
  f_pos :: off_t
  f_deny_write :: bool

definition file_open :: "fs \<Rightarrow> bool \<Rightarrow> nat option \<Rightarrow> (open_file option \<times> fs) option" where
  "file_open s mem ino =
     (case ino of
        Some i \<Rightarrow>
          if mem then Some (Some \<lparr>f_inode = i, f_pos = 0, f_deny_write = False\<rparr>, s)
          else do { s \<leftarrow> inode_close s ino; Some (None, s) }
      | None \<Rightarrow> do { s \<leftarrow> inode_close s ino; Some (None, s) })"

definition same_file :: "fs \<Rightarrow> open_file option \<Rightarrow> open_file option \<Rightarrow> bool option" where
  "same_file s f1 f2 =
     (case (f1, f2) of
        (Some a, Some b) \<Rightarrow> do {
          n1 \<leftarrow> inodes s (f_inode a);
          n2 \<leftarrow> inodes s (f_inode b);
          Some (same_sector n1 n2) }
      | _ \<Rightarrow> Some False)"

definition file_reopen :: "fs \<Rightarrow> bool \<Rightarrow> open_file \<Rightarrow> (open_file option \<times> fs) option" where
  "file_reopen s mem f = do {
     (ino, s) \<leftarrow> inode_reopen s (Some (f_inode f));
     file_open s mem ino }"

definition file_deny_write :: "fs \<Rightarrow> open_file \<Rightarrow> (open_file \<times> fs) option" where
  "file_deny_write s f =
     (if \<not> f_deny_write f then do {
        s \<leftarrow> inode_deny_write s (f_inode f);
        Some (f\<lparr>f_deny_write := True\<rparr>, s) }
      else Some (f, s))"

definition file_allow_write :: "fs \<Rightarrow> open_file \<Rightarrow> (open_file \<times> fs) option" where
  "file_allow_write s f =
     (if f_deny_write f then do {
        s \<leftarrow> inode_allow_write s (f_inode f);
        Some (f\<lparr>f_deny_write := False\<rparr>, s) }
      else Some (f, s))"

definition file_close :: "fs \<Rightarrow> open_file option \<Rightarrow> fs option" where
  "file_close s f =
     (case f of
        None \<Rightarrow> Some s
      | Some f \<Rightarrow> do {
          (f, s) \<leftarrow> file_allow_write s f;
          inode_close s (Some (f_inode f)) })"

definition file_get_inode :: "open_file \<Rightarrow> nat" where
  "file_get_inode f = f_inode f"

definition file_read :: "fs \<Rightarrow> open_file \<Rightarrow> off_t \<Rightarrow> (bytes \<times> open_file \<times> fs) option" where
  "file_read s f sz = do {
     (bs, s) \<leftarrow> inode_read_at s (f_inode f) sz (f_pos f);
     Some (bs, f\<lparr>f_pos := f_pos f + int (length bs)\<rparr>, s) }"

definition file_read_at :: "fs \<Rightarrow> open_file \<Rightarrow> off_t \<Rightarrow> off_t \<Rightarrow> (bytes \<times> fs) option" where
  "file_read_at s f sz file_ofs = inode_read_at s (f_inode f) sz file_ofs"

definition file_write :: "fs \<Rightarrow> open_file \<Rightarrow> bytes \<Rightarrow> (nat \<times> open_file \<times> fs) option" where
  "file_write s f buf = do {
     (n, s) \<leftarrow> inode_write_at free_map_alloc1 s (f_inode f) buf (f_pos f);
     Some (n, f\<lparr>f_pos := f_pos f + int n\<rparr>, s) }"

definition file_write_at :: "fs \<Rightarrow> open_file \<Rightarrow> bytes \<Rightarrow> off_t \<Rightarrow> (nat \<times> fs) option" where
  "file_write_at s f buf file_ofs = inode_write_at free_map_alloc1 s (f_inode f) buf file_ofs"

text \<open>\<open>bytes_written\<close> is the running total, which is what each round subtracts; it is never negative.\<close>

function file_clear_loop :: "fs \<Rightarrow> open_file \<Rightarrow> nat \<Rightarrow> int \<Rightarrow> int \<Rightarrow> int \<Rightarrow> (int \<times> open_file \<times> fs) option" where
  "file_clear_loop s f write_size sz bytes_written bytes_to_write =
     (if bytes_to_write > 0 then do {
        let write_size = (if int write_size > sz then nat sz else write_size);
        (n, f, s) \<leftarrow> file_write s f (replicate write_size 0);
        let bytes_written = bytes_written + int n;
        if bytes_written \<le> 0 then Some (bytes_written, f, s)
        else file_clear_loop s f write_size sz bytes_written (bytes_to_write - bytes_written) }
      else Some (bytes_written, f, s))"
  by pat_completeness auto
termination
  by (relation "measure (\<lambda>(s, f, write_size, sz, bytes_written, bytes_to_write). nat bytes_to_write)") auto

declare file_clear_loop.simps [simp del]

definition file_clear :: "fs \<Rightarrow> open_file \<Rightarrow> off_t \<Rightarrow> (int \<times> open_file \<times> fs) option" where
  "file_clear s f sz = do {
     (n, f, s) \<leftarrow> file_clear_loop s (f\<lparr>f_pos := 0\<rparr>) 1024 sz 0 sz;
     Some (n, f\<lparr>f_pos := 0\<rparr>, s) }"

definition file_length :: "fs \<Rightarrow> open_file \<Rightarrow> (off_t \<times> fs) option" where
  "file_length s f = inode_length s (f_inode f)"

definition file_seek :: "open_file \<Rightarrow> off_t \<Rightarrow> open_file option" where
  "file_seek f new_pos = do { ASSERT (new_pos \<ge> 0); Some (f\<lparr>f_pos := new_pos\<rparr>) }"

definition file_tell :: "open_file \<Rightarrow> off_t" where
  "file_tell f = f_pos f"

section \<open>The free map file\<close>

definition FREE_MAP_SECTOR :: block_sector_t where "FREE_MAP_SECTOR = 0"
definition ROOT_DIR_SECTOR :: block_sector_t where "ROOT_DIR_SECTOR = 1"

text \<open>\<open>raw\<close> is the storage the bitmap is created in, \<open>None\<close> when there is none.\<close>

definition free_map_init :: "fs \<Rightarrow> u32 list option \<Rightarrow> fs option" where
  "free_map_init s raw = do {
     b \<leftarrow> bitmap_create raw (unat (cache_limit (bc s)));
     b \<leftarrow> b;
     b \<leftarrow> bitmap_mark b (unat FREE_MAP_SECTOR);
     b \<leftarrow> bitmap_mark b (unat ROOT_DIR_SECTOR);
     Some (s\<lparr>free_map := b\<rparr>) }"

definition bitmap_read :: "bitmap \<Rightarrow> fs \<Rightarrow> open_file \<Rightarrow> (bool \<times> bitmap \<times> fs) option" where
  "bitmap_read b s f =
     (if bit_cnt b > 0 then do {
        let sz = byte_cnt (bit_cnt b);
        (bs, s) \<leftarrow> file_read_at s f (int sz) 0;
        let bits' = ptrs_of_bytes (elem_cnt (bit_cnt b)) (memcpy_at (bitmap_bytes b) 0 bs);
        let k = elem_cnt (bit_cnt b) - 1;
        x \<leftarrow> fetch bits' k;
        Some (length bs = sz, b\<lparr>bits := bits'[k := x AND last_mask b]\<rparr>, s) }
      else Some (True, b, s))"

definition free_map_open :: "fs \<Rightarrow> bool \<Rightarrow> bool \<Rightarrow> fs option" where
  "free_map_open s mem_inode mem_file = do {
     (ino, s) \<leftarrow> inode_open s mem_inode FREE_MAP_SECTOR;
     (f, s) \<leftarrow> file_open s mem_file ino;
     f \<leftarrow> f;
     let s = s\<lparr>free_map_file := Some (f_inode f)\<rparr>;
     (ok, b, s) \<leftarrow> bitmap_read (free_map s) s f;
     ASSERT ok;
     Some (s\<lparr>free_map := b\<rparr>) }"

definition free_map_close :: "fs \<Rightarrow> fs option" where
  "free_map_close s = do {
     (ok, s) \<leftarrow> bitmap_write free_map_alloc1 s;
     ASSERT ok;
     ino \<leftarrow> free_map_file s;
     file_close s (Some \<lparr>f_inode = ino, f_pos = 0, f_deny_write = False\<rparr>) }"

definition free_map_create :: "fs \<Rightarrow> bool \<Rightarrow> bool \<Rightarrow> fs option" where
  "free_map_create s mem_inode mem_file = do {
     (ok, s) \<leftarrow> inode_create s FREE_MAP_SECTOR (int (bitmap_file_size (free_map s))) FILE_INODE;
     ASSERT ok;
     (ino, s) \<leftarrow> inode_open s mem_inode FREE_MAP_SECTOR;
     (f, s) \<leftarrow> file_open s mem_file ino;
     f \<leftarrow> f;
     let s = s\<lparr>free_map_file := Some (f_inode f)\<rparr>;
     (ok, s) \<leftarrow> bitmap_write free_map_alloc1 s;
     ASSERT ok;
     Some s }"

section \<open>Sequential access\<close>

text \<open>
  reading a file in two pieces is reading it at once: the pieces follow each other and the
  position ends in the same place.
\<close>

theorem file_read_sequential:
  assumes wf: "open_wf s (f_inode f) sec" and pos: "0 \<le> f_pos f" and n: "0 \<le> n" "0 \<le> m"
  shows "\<exists>a b f1 f2 s1 s2 s3. file_read s f n = Some (a, f1, s1) \<and> file_read s1 f1 m = Some (b, f2, s2)
    \<and> file_read s f (n + m) = Some (a @ b, f2, s3)"
proof -
  let ?F = "file_data (fview s) sec"
  let ?a = "take (nat n) (drop (nat (f_pos f)) ?F)"
  let ?f1 = "f\<lparr>f_pos := f_pos f + int (length ?a)\<rparr>"
  let ?b = "take (nat m) (drop (nat (f_pos ?f1)) ?F)"
  obtain s1 where s1: "inode_read_at s (f_inode f) n (f_pos f) = Some (?a, s1)" "same_files s s1"
    using inode_read_at_spec [OF wf pos] by blast
  obtain s2 where s2: "inode_read_at s1 (f_inode f) m (f_pos ?f1) = Some (?b, s2)"
    using inode_read_at_spec [OF open_wf_same_files [OF wf s1(2)], of "f_pos ?f1" m] pos
      same_filesD(2) [OF s1(2)] by auto
  have ab: "?a @ ?b = take (nat (n + m)) (drop (nat (f_pos f)) ?F)"
  proof -
    have p: "nat (f_pos ?f1) = length ?a + nat (f_pos f)" using pos by (simp add: nat_add_distrib)
    show ?thesis
    proof (cases "nat n \<le> length (drop (nat (f_pos f)) ?F)")
      case True
      then have "length ?a = nat n" by simp
      then show ?thesis using p n by (simp add: nat_add_distrib take_add)
    next
      case False
      then have "?a = drop (nat (f_pos f)) ?F" "?b = []" using p by auto
      then show ?thesis using False n by (auto simp: nat_add_distrib)
    qed
  qed
  obtain s3 where s3: "inode_read_at s (f_inode f) (n + m) (f_pos f) = Some (?a @ ?b, s3)"
    using inode_read_at_spec [OF wf pos, of "n + m"] ab by auto
  have "file_read s f n = Some (?a, ?f1, s1)" using s1 by (simp add: file_read_def)
  moreover have "file_read s1 ?f1 m = Some (?b, ?f1\<lparr>f_pos := f_pos ?f1 + int (length ?b)\<rparr>, s2)"
    using s2 by (simp add: file_read_def)
  moreover have "file_read s f (n + m) = Some (?a @ ?b, ?f1\<lparr>f_pos := f_pos ?f1 + int (length ?b)\<rparr>, s3)"
    using s3 by (simp add: file_read_def)
  ultimately show ?thesis by blast
qed

definition demo_file :: open_file where
  "demo_file = \<lparr>f_inode = 0, f_pos = 0, f_deny_write = False\<rparr>"

theorem file_read_sequential_witness:
  "\<exists>a b f1 f2 s1 s2 s3. file_read (demo_fs [3, 4] 600) demo_file 500 = Some (a, f1, s1)
    \<and> file_read s1 f1 200 = Some (b, f2, s2)
    \<and> file_read (demo_fs [3, 4] 600) demo_file (500 + 200) = Some (a @ b, f2, s3)"
  by (rule file_read_sequential [of _ _ 2]) (simp_all add: demo_file_def demo_fs_wf [OF demo_ok_600])

section \<open>Clearing a file\<close>

lemma file_write_inside:
  assumes "open_wf s (f_inode f) sec" and "inodes s (f_inode f) = Some node" "deny_write_cnt node = 0"
    and "0 \<le> f_pos f" "f_pos f + int (length buf) \<le> ilength (inode_at (fview s) sec)"
  shows "\<exists>s'. file_write s f buf = Some (length buf, f\<lparr>f_pos := f_pos f + int (length buf)\<rparr>, s')
    \<and> overwritten s sec (nat (f_pos f)) buf s'"
  using inode_write_at_inside [OF assms, of free_map_alloc1] by (auto simp: file_write_def)



end
