(* ===== verification/Inode_Table.thy ===== *)
theory Inode_Table
  imports Inode_Data
begin

text \<open>
  The table of open inodes of \<^verbatim>\<open>filesys/inode.c\<close>: every sector is open at most once in memory, however
  often it is opened, the open count is positive exactly while the inode is in the list, and
  writes are denied at most as often as the inode is open.
\<close>

definition table_ok :: "fs \<Rightarrow> bool" where
  "table_ok s \<longleftrightarrow> distinct (open_inodes s) \<and> dom (inodes s) = set (open_inodes s)
     \<and> (\<forall>i \<in> set (open_inodes s). i < next_inode s)
     \<and> (\<forall>i n. inodes s i = Some n \<longrightarrow> 1 \<le> open_cnt n \<and> 0 \<le> deny_write_cnt n \<and> deny_write_cnt n \<le> open_cnt n)
     \<and> (\<forall>i j m n. inodes s i = Some m \<longrightarrow> inodes s j = Some n \<longrightarrow> in_sector m = in_sector n \<longrightarrow> i = j)"

lemma table_okD:
  assumes "table_ok s"
  shows "distinct (open_inodes s)" "dom (inodes s) = set (open_inodes s)"
    "\<And>i. i \<in> set (open_inodes s) \<Longrightarrow> i < next_inode s"
    "\<And>i n. inodes s i = Some n \<Longrightarrow> 1 \<le> open_cnt n \<and> 0 \<le> deny_write_cnt n \<and> deny_write_cnt n \<le> open_cnt n"
    "\<And>i j m n. inodes s i = Some m \<Longrightarrow> inodes s j = Some n \<Longrightarrow> in_sector m = in_sector n \<Longrightarrow> i = j"
  using assms unfolding table_ok_def by blast+

lemma find_open_spec:
  assumes "set is \<subseteq> dom (inodes s)"
  shows "\<exists>r. find_open s sec is = Some r \<and> (case r of
      None \<Rightarrow> \<forall>i \<in> set is. map_option in_sector (inodes s i) \<noteq> Some sec
    | Some i \<Rightarrow> i \<in> set is \<and> map_option in_sector (inodes s i) = Some sec)"
  using assms
proof (induction "is")
  case (Cons i "is")
  then obtain n where n: "inodes s i = Some n" by auto
  show ?case
  proof (cases "in_sector n = sec")
    case True
    then show ?thesis using n by simp
  next
    case False
    then obtain r where r: "find_open s sec is = Some r" "case r of
      None \<Rightarrow> \<forall>i \<in> set is. map_option in_sector (inodes s i) \<noteq> Some sec
    | Some i \<Rightarrow> i \<in> set is \<and> map_option in_sector (inodes s i) = Some sec"
      using Cons by auto
    then show ?thesis using n False by (auto split: option.splits)
  qed
qed simp

text \<open>Changing the counters of one open inode.\<close>

lemma table_ok_upd:
  assumes "table_ok s" and "inodes s i = Some n" and "in_sector (f n) = in_sector n"
    and "1 \<le> open_cnt (f n) \<and> 0 \<le> deny_write_cnt (f n) \<and> deny_write_cnt (f n) \<le> open_cnt (f n)"
  shows "table_ok (upd_inode s i f)"
proof -
  note ok = table_okD [OF assms(1)]
  let ?s = "upd_inode s i f"
  have nodes: "inodes ?s = (inodes s)(i \<mapsto> f n)" and rest: "open_inodes ?s = open_inodes s" "next_inode ?s = next_inode s"
    using assms(2) by (simp_all add: upd_inode_def)
  show ?thesis
    unfolding table_ok_def
  proof (intro conjI ballI allI impI)
    show "distinct (open_inodes ?s)" using ok(1) rest by simp
    show "dom (inodes ?s) = set (open_inodes ?s)" using ok(2) assms(2) nodes rest by auto
    show "j < next_inode ?s" if "j \<in> set (open_inodes ?s)" for j using that ok(3) rest by simp
    show "1 \<le> open_cnt p" "0 \<le> deny_write_cnt p" "deny_write_cnt p \<le> open_cnt p" if "inodes ?s j = Some p" for j p
      using that ok(4) [of j p] assms(4) nodes by (auto split: if_splits)
    show "a = b" if ab: "inodes ?s a = Some p" "inodes ?s b = Some q" "in_sector p = in_sector q" for a b p q
    proof -
      have "\<exists>p'. inodes s c = Some p' \<and> in_sector p' = in_sector r" if "inodes ?s c = Some r" for c r
        using that nodes assms(2,3) by (auto split: if_splits)
      from this [OF ab(1)] this [OF ab(2)] ab(3) ok(5) show ?thesis by metis
    qed
  qed
qed

lemma inode_open_frame:
  assumes "inode_open s mem sec = Some (r, s')"
  shows "bc s' = bc s" "free_map s' = free_map s" "free_map_file s' = free_map_file s" "running s' = running s"
  using assms by (auto simp: inode_open_def inode_reopen_def upd_inode_def Let_def split: if_splits option.splits bind_splits)

lemma inode_open_spec:
  assumes ok: "table_ok s"
  shows "\<exists>i s' n. inode_open s True sec = Some (Some i, s') \<and> table_ok s' \<and> inodes s' i = Some n \<and> in_sector n = sec
    \<and> (if \<exists>j m. inodes s j = Some m \<and> in_sector m = sec
       then \<exists>m. inodes s i = Some m \<and> in_sector m = sec \<and> n = m\<lparr>open_cnt := open_cnt m + 1\<rparr>
         \<and> s' = s\<lparr>inodes := (inodes s)(i \<mapsto> n)\<rparr>
       else inodes s i = None \<and> open_cnt n = 1 \<and> deny_write_cnt n = 0 \<and> \<not> removed n \<and> open_inodes s' = i # open_inodes s
         \<and> s' = s\<lparr>inodes := (inodes s)(i \<mapsto> n), open_inodes := i # open_inodes s, next_inode := i + 1\<rparr>)"
proof -
  note okD = table_okD [OF ok]
  obtain r where r: "find_open s sec (open_inodes s) = Some r" "case r of
      None \<Rightarrow> \<forall>i \<in> set (open_inodes s). map_option in_sector (inodes s i) \<noteq> Some sec
    | Some i \<Rightarrow> i \<in> set (open_inodes s) \<and> map_option in_sector (inodes s i) = Some sec"
    using find_open_spec [of "open_inodes s" s sec] okD(2) by auto
  show ?thesis
  proof (cases r)
    case (Some i)
    then obtain m where m: "inodes s i = Some m" "in_sector m = sec" using r(2) by auto
    let ?f = "\<lambda>n. n\<lparr>open_cnt := open_cnt n + 1\<rparr>"
    have u: "upd_inode s i ?f = s\<lparr>inodes := (inodes s)(i \<mapsto> ?f m)\<rparr>" using m by (simp add: upd_inode_def)
    have "inode_open s True sec = Some (Some i, upd_inode s i ?f)"
      using r(1) Some m by (simp add: inode_open_def inode_reopen_def)
    moreover have "table_ok (upd_inode s i ?f)"
      using okD(4) [OF m(1)] by (intro table_ok_upd [OF ok m(1)]) auto
    moreover have "\<exists>j m. inodes s j = Some m \<and> in_sector m = sec" using m by blast
    ultimately show ?thesis using m u by (intro exI [of _ i] exI [of _ "upd_inode s i ?f"] exI [of _ "?f m"]) simp
  next
    case None
    let ?i = "next_inode s"
    let ?n = "\<lparr>in_sector = sec, open_cnt = 1, removed = False, in_lock = lock_init, deny_write_cnt = 0, writer_cnt = 0\<rparr>"
    let ?s = "s\<lparr>inodes := (inodes s)(?i \<mapsto> ?n), open_inodes := ?i # open_inodes s, next_inode := ?i + 1\<rparr>"
    have no: "\<not> (\<exists>j m. inodes s j = Some m \<and> in_sector m = sec)"
    proof
      assume "\<exists>j m. inodes s j = Some m \<and> in_sector m = sec"
      then obtain j m where "inodes s j = Some m" "in_sector m = sec" by blast
      moreover from this have "j \<in> set (open_inodes s)" using okD(2) by auto
      ultimately show False using r(2) None by auto
    qed
    then have no': "\<And>j m. inodes s j = Some m \<Longrightarrow> in_sector m \<noteq> sec" by blast
    have fresh: "?i \<notin> set (open_inodes s)" using okD(3) by blast
    then have fr: "inodes s ?i = None" using okD(2) by auto
    have "table_ok ?s"
      unfolding table_ok_def
    proof (intro conjI ballI allI impI)
      show "distinct (open_inodes ?s)" using okD(1) fresh by simp
      show "dom (inodes ?s) = set (open_inodes ?s)" using okD(2) by simp
      show "j < next_inode ?s" if "j \<in> set (open_inodes ?s)" for j
        using that okD(3) by (auto simp: less_SucI)
      show "1 \<le> open_cnt p" "0 \<le> deny_write_cnt p" "deny_write_cnt p \<le> open_cnt p" if "inodes ?s j = Some p" for j p
        using that okD(4) [of j p] by (auto split: if_splits)
      show "a = b" if "inodes ?s a = Some p" "inodes ?s b = Some q" "in_sector p = in_sector q" for a b p q
        using that okD(5) [of a p b q] no' by (auto split: if_splits dest: no')
    qed
    moreover have "inode_open s True sec = Some (Some ?i, ?s)" using r(1) None by (simp add: inode_open_def Let_def)
    ultimately show ?thesis
      unfolding if_not_P [OF no] using fr
      by (intro exI [of _ ?i] exI [of _ ?s] exI [of _ ?n]) simp
  qed
qed

text \<open>
  C16: opening a sector twice yields the same in-memory inode, whose open count is one higher; other
  open inodes are untouched.
\<close>

theorem inode_open_shares:
  assumes "table_ok s" and "inode_open s True sec = Some (Some i, s1)"
  shows "\<exists>n s2. inodes s1 i = Some n \<and> in_sector n = sec \<and> inode_open s1 True sec = Some (Some i, s2)
    \<and> inodes s2 = (inodes s1)(i \<mapsto> n\<lparr>open_cnt := open_cnt n + 1\<rparr>) \<and> table_ok s2"
proof -
  obtain n where n: "table_ok s1" "inodes s1 i = Some n" "in_sector n = sec"
    using inode_open_spec [OF assms(1), of sec] assms(2) by auto
  then have ex: "\<exists>j m. inodes s1 j = Some m \<and> in_sector m = sec" by blast
  obtain j s2 m where j: "inode_open s1 True sec = Some (Some j, s2)" "table_ok s2"
    "inodes s1 j = Some m" "in_sector m = sec" "s2 = s1\<lparr>inodes := (inodes s1)(j \<mapsto> m\<lparr>open_cnt := open_cnt m + 1\<rparr>)\<rparr>"
    using inode_open_spec [OF n(1), of sec] unfolding if_P [OF ex] by blast
  have "j = i" using table_okD(5) [OF n(1) j(3) n(2)] j(4) n(3) by simp
  then show ?thesis using n j by auto
qed

theorem inode_open_shares_witness:
  "\<exists>i s1 n s2. inode_open (demo_fs [3, 4] 600) True 2 = Some (Some i, s1) \<and> inodes s1 i = Some n
    \<and> inode_open s1 True 2 = Some (Some i, s2) \<and> table_ok s2"
proof -
  have ok: "table_ok (demo_fs [3, 4] 600)" by (auto simp: table_ok_def demo_fs_def split: if_splits)
  then obtain i s1 where "inode_open (demo_fs [3, 4] 600) True 2 = Some (Some i, s1)"
    using inode_open_spec by blast
  then show ?thesis using inode_open_shares [OF ok] by blast
qed

lemma inode_close_spec:
  assumes ok: "table_ok s" and n: "inodes s i = Some n" "\<not> removed n" "deny_write_cnt n < open_cnt n"
  shows "\<exists>s'. inode_close s (Some i) = Some s' \<and> table_ok s' \<and> bc s' = bc s \<and> free_map s' = free_map s
    \<and> inodes s' = (if open_cnt n = 1 then (inodes s)(i := None) else (inodes s)(i \<mapsto> n\<lparr>open_cnt := open_cnt n - 1\<rparr>))"
proof -
  note okD = table_okD [OF ok]
  let ?f = "\<lambda>n. n\<lparr>open_cnt := open_cnt n - 1\<rparr>"
  show ?thesis
  proof (cases "open_cnt n = 1")
    case True
    let ?s = "s\<lparr>open_inodes := remove1 i (open_inodes s), inodes := (inodes s)(i := None)\<rparr>"
    have "inode_close s (Some i) = Some ?s" using n True by (simp add: inode_close_def upd_inode_def)
    moreover have "table_ok ?s"
      using okD unfolding table_ok_def by (auto simp: set_remove1_eq split: if_splits)
    ultimately show ?thesis using True by auto
  next
    case False
    then have "inode_close s (Some i) = Some (upd_inode s i ?f)" using n by (simp add: inode_close_def)
    moreover have "table_ok (upd_inode s i ?f)"
      using okD(4) [OF n(1)] n(3) False by (intro table_ok_upd [OF ok n(1)]) auto
    ultimately show ?thesis using False n by (auto simp: upd_inode_def)
  qed
qed

text \<open>
  closing an inode that is not marked as removed undoes one open: the count goes down, and the
  inode leaves the table exactly when it reaches zero. The disk and the free map do not change.
\<close>

theorem inode_close_correct:
  assumes ok: "table_ok s" and n: "inodes s i = Some n" "\<not> removed n" "deny_write_cnt n < open_cnt n"
  shows "\<exists>s'. inode_close s (Some i) = Some s' \<and> table_ok s' \<and> bc s' = bc s \<and> free_map s' = free_map s
    \<and> inodes s' = (if open_cnt n = 1 then (inodes s)(i := None) else (inodes s)(i \<mapsto> n\<lparr>open_cnt := open_cnt n - 1\<rparr>))"
  by (rule inode_close_spec [OF assms])

theorem inode_close_correct_witness:
  "\<exists>s'. inode_close (demo_fs [3, 4] 600) (Some 0) = Some s' \<and> table_ok s'
    \<and> inodes s' = (inodes (demo_fs [3, 4] 600))(0 := None)"
proof -
  have ok: "table_ok (demo_fs [3, 4] 600)" by (auto simp: table_ok_def demo_fs_def split: if_splits)
  show ?thesis using inode_close_correct [OF ok demo_fs_node(1)] by auto
qed

end
