(* ===== verification/Cstring.thy ===== *)
theory Cstring
  imports Kernel_Prelude
begin

text \<open>
  Memory blocks and C strings (\<^verbatim>\<open>lib/string.c\<close>) on a flat memory of bytes. A pointer is an address,
  a function that returns a pointer returns \<open>NULL\<close> for the null pointer; loops that look for the
  null byte are partial. \<open>cstr m p s\<close> says that the string \<open>s\<close> is stored at \<open>p\<close>. Addresses do not wrap
  around.
\<close>

type_synonym memory = "addr \<Rightarrow> u8"

section \<open>Blocks of memory\<close>

primrec copy_up :: "nat \<Rightarrow> memory \<Rightarrow> addr \<Rightarrow> addr \<Rightarrow> memory" where
  "copy_up 0 m dst src = m"
| "copy_up (Suc n) m dst src = copy_up n (m(dst := m src)) (dst + 1) (src + 1)"

primrec copy_down :: "nat \<Rightarrow> memory \<Rightarrow> addr \<Rightarrow> addr \<Rightarrow> memory" where
  "copy_down 0 m dst src = m"
| "copy_down (Suc n) m dst src = copy_down n (m(dst - 1 := m (src - 1))) (dst - 1) (src - 1)"

definition memcpy :: "memory \<Rightarrow> addr \<Rightarrow> addr \<Rightarrow> nat \<Rightarrow> (addr \<times> memory) option" where
  "memcpy m dst src sz = do {
     ASSERT (dst \<noteq> NULL \<or> sz = 0);
     ASSERT (src \<noteq> NULL \<or> sz = 0);
     Some (dst, copy_up sz m dst src) }"

text \<open>The pointer that is returned is the one the loop has moved.\<close>

definition memmove :: "memory \<Rightarrow> addr \<Rightarrow> addr \<Rightarrow> nat \<Rightarrow> (addr \<times> memory) option" where
  "memmove m dst src sz = do {
     ASSERT (dst \<noteq> NULL \<or> sz = 0);
     ASSERT (src \<noteq> NULL \<or> sz = 0);
     if dst < src then Some (dst + sz, copy_up sz m dst src)
     else Some (dst + sz - sz, copy_down sz m (dst + sz) (src + sz)) }"

primrec memcmp_loop :: "nat \<Rightarrow> memory \<Rightarrow> addr \<Rightarrow> addr \<Rightarrow> int" where
  "memcmp_loop 0 m a b = 0"
| "memcmp_loop (Suc n) m a b =
     (if m a \<noteq> m b then if m a > m b then 1 else - 1 else memcmp_loop n m (a + 1) (b + 1))"

definition memcmp :: "memory \<Rightarrow> addr \<Rightarrow> addr \<Rightarrow> nat \<Rightarrow> int option" where
  "memcmp m a b sz = do {
     ASSERT (a \<noteq> NULL \<or> sz = 0);
     ASSERT (b \<noteq> NULL \<or> sz = 0);
     Some (memcmp_loop sz m a b) }"

primrec memchr_loop :: "nat \<Rightarrow> memory \<Rightarrow> addr \<Rightarrow> u8 \<Rightarrow> addr" where
  "memchr_loop 0 m p ch = NULL"
| "memchr_loop (Suc n) m p ch = (if m p = ch then p else memchr_loop n m (p + 1) ch)"

definition memchr :: "memory \<Rightarrow> addr \<Rightarrow> u8 \<Rightarrow> nat \<Rightarrow> addr option" where
  "memchr m p ch sz = do { ASSERT (p \<noteq> NULL \<or> sz = 0); Some (memchr_loop sz m p ch) }"

primrec memset_loop :: "nat \<Rightarrow> memory \<Rightarrow> addr \<Rightarrow> u8 \<Rightarrow> memory" where
  "memset_loop 0 m dst v = m"
| "memset_loop (Suc n) m dst v = memset_loop n (m(dst := v)) (dst + 1) v"

definition memset :: "memory \<Rightarrow> addr \<Rightarrow> u8 \<Rightarrow> nat \<Rightarrow> (addr \<times> memory) option" where
  "memset m dst v sz = do { ASSERT (dst \<noteq> NULL \<or> sz = 0); Some (dst, memset_loop sz m dst v) }"

section \<open>Strings\<close>

partial_function (option) strcmp_loop :: "memory \<Rightarrow> addr \<Rightarrow> addr \<Rightarrow> int option" where
  "strcmp_loop m a b =
     (if m a \<noteq> 0 \<and> m a = m b then strcmp_loop m (a + 1) (b + 1)
      else Some (if m a < m b then - 1 else if m a > m b then 1 else 0))"

definition strcmp :: "memory \<Rightarrow> addr \<Rightarrow> addr \<Rightarrow> int option" where
  "strcmp m a b = do { ASSERT (a \<noteq> NULL); ASSERT (b \<noteq> NULL); strcmp_loop m a b }"

partial_function (option) strchr_loop :: "memory \<Rightarrow> addr \<Rightarrow> u8 \<Rightarrow> addr option" where
  "strchr_loop m p c =
     (if m p = c then Some p else if m p = 0 then Some NULL else strchr_loop m (p + 1) c)"

definition strchr :: "memory \<Rightarrow> addr \<Rightarrow> u8 \<Rightarrow> addr option" where
  "strchr m p c = do { ASSERT (p \<noteq> NULL); strchr_loop m p c }"

partial_function (option) strcspn_loop :: "memory \<Rightarrow> addr \<Rightarrow> addr \<Rightarrow> nat \<Rightarrow> nat option" where
  "strcspn_loop m p stop len =
     (if m (p + len) \<noteq> 0 then do {
        q \<leftarrow> strchr m stop (m (p + len));
        if q \<noteq> NULL then Some len else strcspn_loop m p stop (len + 1) }
      else Some len)"

definition strcspn :: "memory \<Rightarrow> addr \<Rightarrow> addr \<Rightarrow> nat option" where
  "strcspn m p stop = strcspn_loop m p stop 0"

partial_function (option) strpbrk :: "memory \<Rightarrow> addr \<Rightarrow> addr \<Rightarrow> addr option" where
  "strpbrk m p stop =
     (if m p \<noteq> 0 then do {
        q \<leftarrow> strchr m stop (m p);
        if q \<noteq> NULL then Some p else strpbrk m (p + 1) stop }
      else Some NULL)"

partial_function (option) strrchr_loop :: "memory \<Rightarrow> addr \<Rightarrow> u8 \<Rightarrow> addr \<Rightarrow> addr option" where
  "strrchr_loop m q c p = (if m q \<noteq> 0 then strrchr_loop m (q + 1) c (if m q = c then q else p) else Some p)"

definition strrchr :: "memory \<Rightarrow> addr \<Rightarrow> u8 \<Rightarrow> addr option" where
  "strrchr m p c = strrchr_loop m p c NULL"

partial_function (option) strspn_loop :: "memory \<Rightarrow> addr \<Rightarrow> addr \<Rightarrow> nat \<Rightarrow> nat option" where
  "strspn_loop m p skip len =
     (if m (p + len) \<noteq> 0 then do {
        q \<leftarrow> strchr m skip (m (p + len));
        if q = NULL then Some len else strspn_loop m p skip (len + 1) }
      else Some len)"

definition strspn :: "memory \<Rightarrow> addr \<Rightarrow> addr \<Rightarrow> nat option" where
  "strspn m p skip = strspn_loop m p skip 0"

partial_function (option) strlen_loop :: "memory \<Rightarrow> addr \<Rightarrow> addr option" where
  "strlen_loop m p = (if m p \<noteq> 0 then strlen_loop m (p + 1) else Some p)"

definition strlen :: "memory \<Rightarrow> addr \<Rightarrow> nat option" where
  "strlen m s = do { ASSERT (s \<noteq> NULL); p \<leftarrow> strlen_loop m s; Some (p - s) }"

partial_function (option) strnlen_loop :: "memory \<Rightarrow> addr \<Rightarrow> nat \<Rightarrow> nat \<Rightarrow> nat option" where
  "strnlen_loop m p maxlen len =
     (if m (p + len) \<noteq> 0 \<and> len < maxlen then strnlen_loop m p maxlen (len + 1) else Some len)"

definition strnlen :: "memory \<Rightarrow> addr \<Rightarrow> nat \<Rightarrow> nat option" where
  "strnlen m p maxlen = strnlen_loop m p maxlen 0"

function strstr_loop :: "memory \<Rightarrow> addr \<Rightarrow> addr \<Rightarrow> nat \<Rightarrow> nat \<Rightarrow> nat \<Rightarrow> addr option" where
  "strstr_loop m haystack needle needle_len bound i =
     (if i \<le> bound then do {
        c \<leftarrow> memcmp m (haystack + i) needle needle_len;
        if c = 0 then Some (haystack + i) else strstr_loop m haystack needle needle_len bound (i + 1) }
      else Some NULL)"
  by pat_completeness auto
termination
  by (relation "measure (\<lambda>(m, haystack, needle, needle_len, bound, i). bound + 1 - i)") auto

declare strstr_loop.simps [simp del]

definition strstr :: "memory \<Rightarrow> addr \<Rightarrow> addr \<Rightarrow> addr option" where
  "strstr m haystack needle = do {
     haystack_len \<leftarrow> strlen m haystack;
     needle_len \<leftarrow> strlen m needle;
     if haystack_len \<ge> needle_len
     then strstr_loop m haystack needle needle_len (haystack_len - needle_len) 0
     else Some NULL }"

text \<open>The two loops of \<^verbatim>\<open>strtok_r\<close>; the first ends at the null byte (\<open>True\<close>) or at a token.\<close>

partial_function (option) skip_delims :: "memory \<Rightarrow> addr \<Rightarrow> addr \<Rightarrow> (bool \<times> addr) option" where
  "skip_delims m delims s = do {
     q \<leftarrow> strchr m delims (m s);
     if q \<noteq> NULL then if m s = 0 then Some (True, s) else skip_delims m delims (s + 1)
     else Some (False, s) }"

partial_function (option) skip_token :: "memory \<Rightarrow> addr \<Rightarrow> addr \<Rightarrow> addr option" where
  "skip_token m delims s = do {
     q \<leftarrow> strchr m delims (m s);
     if q = NULL then skip_token m delims (s + 1) else Some s }"

text \<open>The token, the new value of \<open>*save_ptr\<close> and the memory.\<close>

definition strtok_r :: "memory \<Rightarrow> addr \<Rightarrow> addr \<Rightarrow> addr \<Rightarrow> (addr \<times> addr \<times> memory) option" where
  "strtok_r m s delims save_ptr = do {
     ASSERT (delims \<noteq> NULL);
     let s = (if s = NULL then save_ptr else s);
     ASSERT (s \<noteq> NULL);
     (at_end, s) \<leftarrow> skip_delims m delims s;
     if at_end then Some (NULL, s, m)
     else do {
       let token = s;
       s \<leftarrow> skip_token m delims s;
       if m s \<noteq> 0 then Some (token, s + 1, m(s := 0)) else Some (token, s, m) } }"

definition strlcpy :: "memory \<Rightarrow> addr \<Rightarrow> addr \<Rightarrow> nat \<Rightarrow> (nat \<times> memory) option" where
  "strlcpy m dst src sz = do {
     ASSERT (dst \<noteq> NULL);
     ASSERT (src \<noteq> NULL);
     src_len \<leftarrow> strlen m src;
     if sz > 0 then do {
       let dst_len = (if src_len < sz - 1 then src_len else sz - 1);
       (_, m) \<leftarrow> memcpy m dst src dst_len;
       Some (src_len, m(dst + dst_len := 0)) }
     else Some (src_len, m) }"

definition strlcat :: "memory \<Rightarrow> addr \<Rightarrow> addr \<Rightarrow> nat \<Rightarrow> (nat \<times> memory) option" where
  "strlcat m dst src sz = do {
     ASSERT (dst \<noteq> NULL);
     ASSERT (src \<noteq> NULL);
     src_len \<leftarrow> strlen m src;
     dst_len \<leftarrow> strlen m dst;
     if sz > 0 \<and> dst_len < sz then do {
       let copy_cnt = (if src_len < sz - dst_len - 1 then src_len else sz - dst_len - 1);
       (_, m) \<leftarrow> memcpy m (dst + dst_len) src copy_cnt;
       Some (src_len + dst_len, m(dst + dst_len + copy_cnt := 0)) }
     else Some (src_len + dst_len, m) }"

section \<open>Copying\<close>

definition copied :: "memory \<Rightarrow> addr \<Rightarrow> addr \<Rightarrow> nat \<Rightarrow> memory" where
  "copied m dst src n = (\<lambda>a. if dst \<le> a \<and> a < dst + n then m (src + (a - dst)) else m a)"

lemma copy_up_eq: "dst \<le> src \<or> src + n \<le> dst \<Longrightarrow> copy_up n m dst src = copied m dst src n"
proof (induction n arbitrary: m dst src)
  case (Suc n)
  have "copy_up (Suc n) m dst src = copied (m(dst := m src)) (dst + 1) (src + 1) n"
    unfolding copy_up.simps by (rule Suc.IH) (use Suc.prems in auto)
  also have "\<dots> = copied m dst src (Suc n)"
  proof
    fix a
    have "src + 1 + (a - (dst + 1)) = src + (a - dst)" "src + 1 + (a - (dst + 1)) \<noteq> dst" if "dst + 1 \<le> a" "a < dst + 1 + n"
      using that Suc.prems by auto
    then show "copied (m(dst := m src)) (dst + 1) (src + 1) n a = copied m dst src (Suc n) a"
      by (cases "dst + 1 \<le> a \<and> a < dst + 1 + n") (auto simp: copied_def)
  qed
  finally show ?case .
qed (auto simp: copied_def fun_eq_iff)

lemma copy_down_eq: "src \<le> dst \<Longrightarrow> copy_down n m (dst + n) (src + n) = copied m dst src n"
proof (induction n arbitrary: m)
  case (Suc n)
  have "copy_down (Suc n) m (dst + Suc n) (src + Suc n)
      = copied (m(dst + n := m (src + n))) dst src n"
    using Suc by simp
  also have "\<dots> = copied m dst src (Suc n)"
  proof
    fix a
    have "src + (a - dst) \<noteq> dst + n" if "dst \<le> a" "a < dst + n" using that Suc.prems by auto
    then show "copied (m(dst + n := m (src + n))) dst src n a = copied m dst src (Suc n) a"
      by (cases "a = dst + n") (auto simp: copied_def)
  qed
  finally show ?case .
qed (auto simp: copied_def fun_eq_iff)

lemma memset_loop_eq: "memset_loop n m dst v = (\<lambda>a. if dst \<le> a \<and> a < dst + n then v else m a)"
  by (induction n arbitrary: m dst) (auto simp: fun_eq_iff)

lemma memcmp_loop_zero: "memcmp_loop n m a b = 0 \<longleftrightarrow> (\<forall>i < n. m (a + i) = m (b + i))"
proof (induction n arbitrary: a b)
  case (Suc n)
  then show ?case by (auto simp: All_less_Suc2)
qed simp

section \<open>Stored strings\<close>

fun cstr :: "memory \<Rightarrow> addr \<Rightarrow> bytes \<Rightarrow> bool" where
  "cstr m p [] \<longleftrightarrow> m p = 0"
| "cstr m p (c # s) \<longleftrightarrow> c \<noteq> 0 \<and> m p = c \<and> cstr m (p + 1) s"

lemma cstr_nth: "cstr m p s \<longleftrightarrow> 0 \<notin> set s \<and> (\<forall>i < length s. m (p + i) = s ! i) \<and> m (p + length s) = 0"
proof (induction s arbitrary: p)
  case (Cons c s)
  then show ?case by (auto simp: All_less_Suc2)
qed auto

lemma cstr_cong: "(\<And>a. p \<le> a \<Longrightarrow> a \<le> p + length s \<Longrightarrow> m' a = m a) \<Longrightarrow> cstr m' p s = cstr m p s"
  by (simp add: cstr_nth)

lemma cstr_drop: "cstr m p s \<Longrightarrow> n \<le> length s \<Longrightarrow> cstr m (p + n) (drop n s)"
  by (auto simp: cstr_nth add.assoc dest: in_set_dropD)

lemma strlen_loop_cstr: "cstr m p s \<Longrightarrow> strlen_loop m p = Some (p + length s)"
proof (induction s arbitrary: p)
  case (Cons c s)
  then show ?case by (subst strlen_loop.simps) simp
qed (simp add: strlen_loop.simps)

lemma strlen_cstr: "cstr m p s \<Longrightarrow> p \<noteq> NULL \<Longrightarrow> strlen m p = Some (length s)"
  by (simp add: strlen_def strlen_loop_cstr)

lemma strchr_loop_cstr:
  "cstr m p s \<Longrightarrow> p \<noteq> NULL \<Longrightarrow>
   \<exists>q. strchr_loop m p c = Some q \<and> (q = NULL \<longleftrightarrow> c \<noteq> 0 \<and> c \<notin> set s)"
proof (induction s arbitrary: p)
  case (Cons b s)
  then show ?case by (subst strchr_loop.simps) auto
qed (simp add: strchr_loop.simps)

lemma strchr_cstr:
  assumes "cstr m p s" and "p \<noteq> NULL"
  obtains q where "strchr m p c = Some q" "q = NULL \<longleftrightarrow> c \<noteq> 0 \<and> c \<notin> set s"
  using strchr_loop_cstr [OF assms, of c] assms(2) by (auto simp: strchr_def)

text \<open>The order of strings that \<^verbatim>\<open>strcmp\<close> decides.\<close>

fun bytes_cmp :: "bytes \<Rightarrow> bytes \<Rightarrow> int" where
  "bytes_cmp [] [] = 0"
| "bytes_cmp [] (b # bs) = - 1"
| "bytes_cmp (a # as) [] = 1"
| "bytes_cmp (a # as) (b # bs) = (if a = b then bytes_cmp as bs else if a < b then - 1 else 1)"

lemma bytes_cmp_zero: "bytes_cmp s t = 0 \<longleftrightarrow> s = t"
  by (induction s t rule: bytes_cmp.induct) auto

lemma bytes_cmp_sym: "bytes_cmp t s = - bytes_cmp s t"
  by (induction s t rule: bytes_cmp.induct) auto

lemma strcmp_loop_cstr: "cstr m a s \<Longrightarrow> cstr m b t \<Longrightarrow> strcmp_loop m a b = Some (bytes_cmp s t)"
proof (induction s t arbitrary: a b rule: bytes_cmp.induct)
  case (4 x xs y ys)
  then show ?case by (subst strcmp_loop.simps) auto
qed (subst strcmp_loop.simps; auto simp: word_gt_0)+

lemma skip_delims_cstr:
  assumes "cstr m p s" "cstr m d ds" "p \<noteq> NULL" "d \<noteq> NULL"
  shows "skip_delims m d p = Some (dropWhile (\<lambda>c. c \<in> set ds) s = [], p + length (takeWhile (\<lambda>c. c \<in> set ds) s))"
  using assms
proof (induction s arbitrary: p)
  case Nil
  then show ?case using strchr_cstr [OF Nil(2,4), of 0] by (subst skip_delims.simps) fastforce
next
  case (Cons c s)
  obtain q where q: "strchr m d c = Some q" "q = NULL \<longleftrightarrow> c \<noteq> 0 \<and> c \<notin> set ds"
    using strchr_cstr [OF Cons.prems(2,4)] .
  then show ?case using Cons by (subst skip_delims.simps) auto
qed

lemma skip_token_cstr:
  assumes "cstr m p s" "cstr m d ds" "p \<noteq> NULL" "d \<noteq> NULL"
  shows "skip_token m d p = Some (p + length (takeWhile (\<lambda>c. c \<notin> set ds) s))"
  using assms
proof (induction s arbitrary: p)
  case Nil
  then show ?case using strchr_cstr [OF Nil(2,4), of 0] by (subst skip_token.simps) fastforce
next
  case (Cons c s)
  obtain q where q: "strchr m d c = Some q" "q = NULL \<longleftrightarrow> c \<noteq> 0 \<and> c \<notin> set ds"
    using strchr_cstr [OF Cons.prems(2,4)] .
  then show ?case using Cons by (subst skip_token.simps) auto
qed

section \<open>Properties\<close>

text \<open>The memory with the bytes \<open>bs\<close> from address \<open>p\<close> on, for the witnesses.\<close>

definition poke :: "addr \<Rightarrow> bytes \<Rightarrow> memory \<Rightarrow> memory" where
  "poke p bs m = (\<lambda>a. if p \<le> a \<and> a < p + length bs then bs ! (a - p) else m a)"

lemma poke_cstr: "0 \<notin> set s \<Longrightarrow> cstr (poke p (s @ [0]) m) p s"
  by (simp add: cstr_nth poke_def nth_append)

lemma poke_cstr_other:
  "cstr m q t \<Longrightarrow> q + length t < p \<or> p + length bs \<le> q \<Longrightarrow> cstr (poke p bs m) q t"
  by (subst cstr_cong [of q t _ m]) (auto simp: poke_def)

text \<open>
  \<^verbatim>\<open>memmove\<close> copies the block as it was before the call even when source and destination overlap
  and changes nothing else. It returns the destination only when the destination does not lie
  before the source; otherwise it returns the end of the destination.
\<close>

theorem memmove_correct:
  assumes "dst \<noteq> NULL" and "src \<noteq> NULL"
  shows "memmove m dst src sz = Some (if dst < src then dst + sz else dst,
    \<lambda>a. if dst \<le> a \<and> a < dst + sz then m (src + (a - dst)) else m a)"
proof (cases "dst < src")
  case True
  then have "copy_up sz m dst src = copied m dst src sz" by (intro copy_up_eq) simp
  then show ?thesis using True assms by (simp add: memmove_def) (simp add: copied_def)
next
  case False
  then have "copy_down sz m (dst + sz) (src + sz) = copied m dst src sz" by (intro copy_down_eq) simp
  then show ?thesis using False assms by (simp add: memmove_def) (simp add: copied_def)
qed

theorem memmove_correct_witness:
  "memmove (\<lambda>a. of_nat a) 100 102 3
    = Some (103, \<lambda>a. if 100 \<le> a \<and> a < 103 then of_nat (102 + (a - 100)) else of_nat a)"
  using memmove_correct [of 100 102 "\<lambda>a. of_nat a" 3] by simp

text \<open>
  \<^verbatim>\<open>strcmp\<close> of two stored strings terminates and compares them lexicographically as sequences of
  unsigned bytes; it is zero exactly when they are equal, and swapping the arguments changes the
  sign.
\<close>

theorem strcmp_correct:
  assumes "cstr m a s" and "cstr m b t" and "a \<noteq> NULL" and "b \<noteq> NULL"
  shows "strcmp m a b = Some (bytes_cmp s t) \<and> strcmp m b a = Some (- bytes_cmp s t)
    \<and> (bytes_cmp s t = 0 \<longleftrightarrow> s = t)"
  using strcmp_loop_cstr [OF assms(1,2)] strcmp_loop_cstr [OF assms(2,1)] bytes_cmp_sym [of t s]
    bytes_cmp_zero [of s t] assms(3,4)
  by (simp add: strcmp_def)

theorem strcmp_correct_witness:
  "strcmp (poke 10 [97, 98, 0] (poke 20 [97, 200, 0] (\<lambda>_. 7))) 10 20 = Some (- 1)"
proof -
  let ?m = "poke 10 ([97, 98] @ [0]) (poke 20 ([97, 200] @ [0]) (\<lambda>_. 7))"
  have "cstr ?m 10 [97, 98]" by (rule poke_cstr) simp
  moreover have "cstr ?m 20 [97, 200]" by (rule poke_cstr_other [OF poke_cstr]) simp_all
  ultimately show ?thesis using strcmp_correct [of ?m 10 "[97, 98]" 20 "[97, 200]"] by simp
qed

text \<open>
  \<^verbatim>\<open>strlcpy\<close> never writes outside the \<open>size\<close> bytes of the destination, leaves there the source
  truncated to \<open>size - 1\<close> characters and null-terminated, and returns the length of the source.
\<close>

theorem strlcpy_correct:
  assumes src: "cstr m src s" and nn: "dst \<noteq> NULL" "src \<noteq> NULL" and sz: "0 < sz"
    and disj: "src + length s < dst \<or> dst + sz \<le> src"
  shows "\<exists>m'. strlcpy m dst src sz = Some (length s, m') \<and> cstr m' dst (take (sz - 1) s)
    \<and> (\<forall>a. a < dst \<or> dst + sz \<le> a \<longrightarrow> m' a = m a)"
proof -
  let ?n = "if length s < sz - 1 then length s else sz - 1"
  let ?m = "(copied m dst src ?n)(dst + ?n := 0)"
  have "copy_up ?n m dst src = copied m dst src ?n"
    using disj by (intro copy_up_eq) auto
  then have "strlcpy m dst src sz = Some (length s, ?m)"
    using nn sz strlen_cstr [OF src nn(2)] by (simp add: strlcpy_def memcpy_def Let_def)
  moreover have "cstr ?m dst (take (sz - 1) s)"
    using src by (auto simp: cstr_nth copied_def min_def dest: in_set_takeD)
  moreover have "\<forall>a. a < dst \<or> dst + sz \<le> a \<longrightarrow> ?m a = m a"
    using sz by (auto simp: copied_def)
  ultimately show ?thesis by blast
qed

theorem strlcpy_correct_witness:
  "\<exists>m'. strlcpy (poke 20 [104, 101, 108, 108, 111, 0] (\<lambda>_. 7)) 10 20 4
      = Some (length [104, 101, 108, 108, 111 :: u8], m')
    \<and> cstr m' 10 [104, 101, 108] \<and> m' 14 = 7"
proof -
  let ?m = "poke 20 ([104, 101, 108, 108, 111] @ [0]) (\<lambda>_. 7)"
  have "cstr ?m 20 [104, 101, 108, 108, 111]" by (rule poke_cstr) simp
  from strlcpy_correct [OF this, of 10 4]
  have "\<exists>m'. strlcpy ?m 10 20 4 = Some (length [104, 101, 108, 108, 111 :: u8], m') \<and> cstr m' 10 [104, 101, 108]
      \<and> (\<forall>a. a < 10 \<or> 14 \<le> a \<longrightarrow> m' a = ?m a)"
    by simp
  moreover have "?m 14 = 7" by (simp add: poke_def)
  ultimately show ?thesis by fastforce
qed

text \<open>
  one call of \<^verbatim>\<open>strtok_r\<close> on a stored string skips the delimiters, null-terminates the next token
  in place, and saves the position from which the following call continues; with no token left
  it returns null. It writes at most one byte of the string.
\<close>

theorem strtok_r_correct:
  assumes str: "cstr m p s" and del: "cstr m d ds" and nn: "p \<noteq> NULL" "d \<noteq> NULL"
    and disj: "d + length ds < p \<or> p + length s < d"
  defines "r \<equiv> dropWhile (\<lambda>c. c \<in> set ds) s"
  shows "if r = [] then strtok_r m p d sv = Some (NULL, p + length s, m)
    else \<exists>q save m'. strtok_r m p d sv = Some (q, save, m') \<and> q \<noteq> NULL
      \<and> cstr m' q (takeWhile (\<lambda>c. c \<notin> set ds) r)
      \<and> cstr m' save (drop 1 (dropWhile (\<lambda>c. c \<notin> set ds) r)) \<and> cstr m' d ds
      \<and> p \<le> q \<and> p \<le> save \<and> save + length (drop 1 (dropWhile (\<lambda>c. c \<notin> set ds) r)) = p + length s
      \<and> (\<forall>a. a < p \<or> p + length s < a \<longrightarrow> m' a = m a)"
proof -
  let ?k = "length (takeWhile (\<lambda>c. c \<in> set ds) s)"
  let ?t = "takeWhile (\<lambda>c. c \<notin> set ds) r"
  have sd: "skip_delims m d p = Some (r = [], p + ?k)"
    unfolding r_def using skip_delims_cstr [OF str del nn] .
  have k: "?k \<le> length s" by (rule length_takeWhile_le)
  have rs: "r = drop ?k s" unfolding r_def by (rule dropWhile_eq_drop)
  show ?thesis
  proof (cases "r = []")
    case True
    then have "?k = length s" using rs k by simp
    then show ?thesis using True sd nn by (simp add: strtok_r_def)
  next
    case False
    have rc: "cstr m (p + ?k) r" unfolding rs using str k by (rule cstr_drop)
    let ?e = "p + ?k + length ?t"
    have st: "skip_token m d (p + ?k) = Some ?e"
      using skip_token_cstr [OF rc del _ nn(2)] nn(1) by simp
    have lt: "length ?t \<le> length r" by (rule length_takeWhile_le)
    have lr: "length r = length s - ?k" by (simp add: rs)
    show ?thesis
    proof (cases "m ?e = 0")
      case True
      have full: "length ?t = length r"
      proof (rule ccontr)
        assume "length ?t \<noteq> length r"
        then have "length ?t < length r" using lt by simp
        then have "m ?e = r ! length ?t" "r ! length ?t \<in> set r" using rc by (auto simp: cstr_nth)
        then show False using True rc by (auto simp: cstr_nth)
      qed
      then have "?t = r" by (metis takeWhile_eq_take take_all_iff order_refl)
      then have tr: "takeWhile (\<lambda>c. c \<notin> set ds) r = r" "dropWhile (\<lambda>c. c \<notin> set ds) r = []"
        by (simp, metis dropWhile_eq_Nil_conv set_takeWhileD \<open>?t = r\<close>)
      have "strtok_r m p d sv = Some (p + ?k, ?e, m)"
        using True False sd st nn by (simp add: strtok_r_def Let_def)
      then show ?thesis
        unfolding tr using False rc nn del cstr_drop [OF rc, of "length r"] full lr k by auto
    next
      case nz: False
      then have lt': "length ?t < length r" using rc lt by (metis cstr_nth le_neq_implies_less)
      let ?m = "m(?e := 0)"
      have "strtok_r m p d sv = Some (p + ?k, ?e + 1, ?m)"
        using nz False sd st nn by (simp add: strtok_r_def Let_def)
      moreover have "cstr ?m (p + ?k) ?t"
        using rc lt' by (auto simp: cstr_nth takeWhile_nth dest: set_takeWhileD)
      moreover have "cstr ?m (?e + 1) (drop 1 (dropWhile (\<lambda>c. c \<notin> set ds) r))"
      proof -
        have "cstr m (p + ?k + Suc (length ?t)) (drop (Suc (length ?t)) r)"
          using rc lt' by (intro cstr_drop) auto
        moreover have "drop (Suc (length ?t)) r = drop 1 (dropWhile (\<lambda>c. c \<notin> set ds) r)"
          by (simp add: dropWhile_eq_drop)
        ultimately show ?thesis by (subst cstr_cong [of _ _ _ m]) auto
      qed
      moreover have "cstr ?m d ds"
        using del disj lt' lr k by (subst cstr_cong [of _ _ _ m]) auto
      moreover have "\<forall>a. a < p \<or> p + length s < a \<longrightarrow> ?m a = m a" using lt' lr k by auto
      moreover have "?e + 1 + length (drop 1 (dropWhile (\<lambda>c. c \<notin> set ds) r)) = p + length s"
        using lt' lr k by (simp add: dropWhile_eq_drop)
      ultimately show ?thesis using False nn by auto
    qed
  qed
qed

theorem strtok_r_correct_witness:
  "\<exists>q save m'. strtok_r (poke 10 [32, 97, 98, 32, 99, 0] (poke 30 [32, 0] (\<lambda>_. 7))) 10 30 NULL = Some (q, save, m')
    \<and> cstr m' q [97, 98] \<and> cstr m' save [99]"
proof -
  let ?m = "poke 10 ([32, 97, 98, 32, 99] @ [0]) (poke 30 ([32] @ [0]) (\<lambda>_. 7))"
  have "cstr ?m 10 [32, 97, 98, 32, 99]" by (rule poke_cstr) simp
  moreover have "cstr ?m 30 [32]" by (rule poke_cstr_other [OF poke_cstr]) simp_all
  ultimately show ?thesis
    using strtok_r_correct [of ?m 10 "[32, 97, 98, 32, 99]" 30 "[32]" NULL] by (auto simp del: cstr.simps)
qed

end
