(* ===== verification/Directory.thy ===== *)
theory Directory
  imports File Inode_Table Cstring
begin

text \<open>
  Directories (\<^verbatim>\<open>filesys/directory.c\<close>): files of 20-byte entries, each a sector number, a name of at
  most 14 characters and a flag. Names are byte strings without the null byte; \<^verbatim>\<open>strcmp\<close> and
  \<^verbatim>\<open>strlcpy\<close> act on them as \<open>Cstring\<close> shows. Lookup and insertion are shown to implement a
  finite map from names to sectors (\<open>dir_map\<close>).
\<close>

section \<open>Entries\<close>

definition NAME_MAX :: nat where "NAME_MAX = 14"
definition ENTRY_SIZE :: nat where "ENTRY_SIZE = 20"

text \<open>The fields of an entry as it lies in memory and on disk.\<close>

definition e_sector :: "bytes \<Rightarrow> block_sector_t" where
  "e_sector e = u32_of_bytes (take 4 e)"

definition e_name :: "bytes \<Rightarrow> bytes" where
  "e_name e = takeWhile (\<lambda>c. c \<noteq> 0) (take 15 (drop 4 e))"

definition e_in_use :: "bytes \<Rightarrow> bool" where
  "e_in_use e \<longleftrightarrow> e ! 19 \<noteq> 0"

definition set_in_use :: "bytes \<Rightarrow> bool \<Rightarrow> bytes" where
  "set_in_use e b = memcpy_at e 19 [if b then 1 else 0]"

text \<open>\<open>e.in_use = true; strlcpy (e.name, name, sizeof e.name); e.inode_sector = sec\<close>.\<close>

definition fill_entry :: "bytes \<Rightarrow> bytes \<Rightarrow> block_sector_t \<Rightarrow> bytes" where
  "fill_entry e name sec =
     memcpy_at (memcpy_at (set_in_use e True) 4 (take NAME_MAX name @ [0])) 0 (bytes_of_u32 sec)"

section \<open>Operations\<close>

record dir =
  d_inode :: nat
  d_pos :: off_t

definition dir_create :: "fs \<Rightarrow> block_sector_t \<Rightarrow> nat \<Rightarrow> (bool \<times> fs) option" where
  "dir_create s sec entry_cnt = inode_create s sec (int (entry_cnt * ENTRY_SIZE)) DIR_INODE"

definition dir_open :: "fs \<Rightarrow> bool \<Rightarrow> nat option \<Rightarrow> (dir option \<times> fs) option" where
  "dir_open s mem ino =
     (case ino of
        Some i \<Rightarrow>
          if mem then Some (Some \<lparr>d_inode = i, d_pos = 0\<rparr>, s)
          else do { s \<leftarrow> inode_close s ino; Some (None, s) }
      | None \<Rightarrow> do { s \<leftarrow> inode_close s ino; Some (None, s) })"

definition dir_open_root :: "fs \<Rightarrow> bool \<Rightarrow> bool \<Rightarrow> (dir option \<times> fs) option" where
  "dir_open_root s mem_inode mem = do {
     (ino, s) \<leftarrow> inode_open s mem_inode ROOT_DIR_SECTOR;
     dir_open s mem ino }"

definition dir_reopen :: "fs \<Rightarrow> bool \<Rightarrow> dir \<Rightarrow> (dir option \<times> fs) option" where
  "dir_reopen s mem d = do {
     (ino, s) \<leftarrow> inode_reopen s (Some (d_inode d));
     dir_open s mem ino }"

definition dir_close :: "fs \<Rightarrow> dir option \<Rightarrow> fs option" where
  "dir_close s d = (case d of None \<Rightarrow> Some s | Some d \<Rightarrow> inode_close s (Some (d_inode d)))"

definition dir_get_inode :: "dir \<Rightarrow> nat" where
  "dir_get_inode d = d_inode d"

text \<open>\<open>read_entry\<close>: whether a whole entry was read, and the buffer afterwards.\<close>

definition read_entry :: "fs \<Rightarrow> nat \<Rightarrow> bytes \<Rightarrow> nat \<Rightarrow> (bool \<times> bytes \<times> fs) option" where
  "read_entry s ino e ofs = do {
     (bs, s) \<leftarrow> inode_read_at s ino (int ENTRY_SIZE) (int ofs);
     Some (length bs = ENTRY_SIZE, memcpy_at e 0 bs, s) }"

partial_function (option) lookup_loop ::
  "fs \<Rightarrow> nat \<Rightarrow> bytes \<Rightarrow> bytes \<Rightarrow> nat \<Rightarrow> ((bytes \<times> nat) option \<times> fs) option" where
  "lookup_loop s ino name e ofs = do {
     r \<leftarrow> read_entry s ino e ofs;
     if fst r then
       if e_in_use (fst (snd r)) \<and> name = e_name (fst (snd r))
       then Some (Some (fst (snd r), ofs), snd (snd r))
       else lookup_loop (snd (snd r)) ino name (fst (snd r)) (ofs + ENTRY_SIZE)
     else Some (None, snd (snd r)) }"

text \<open>\<open>junk\<close> is what the uninitialised local entry holds.\<close>

definition dir_find :: "fs \<Rightarrow> dir \<Rightarrow> bytes \<Rightarrow> bytes \<Rightarrow> ((bytes \<times> nat) option \<times> fs) option" where
  "dir_find s d name junk = lookup_loop s (d_inode d) name junk 0"

definition dir_lookup :: "fs \<Rightarrow> bool \<Rightarrow> dir \<Rightarrow> bytes \<Rightarrow> bytes \<Rightarrow> (nat option \<times> fs) option" where
  "dir_lookup s mem d name junk = do {
     (found, s) \<leftarrow> dir_find s d name junk;
     case found of
       Some (e, ofs) \<Rightarrow> inode_open s mem (e_sector e)
     | None \<Rightarrow> Some (None, s) }"

partial_function (option) free_slot_loop ::
  "fs \<Rightarrow> nat \<Rightarrow> bytes \<Rightarrow> nat \<Rightarrow> (bytes \<times> nat \<times> fs) option" where
  "free_slot_loop s ino e ofs = do {
     r \<leftarrow> read_entry s ino e ofs;
     if fst r \<and> e_in_use (fst (snd r)) then free_slot_loop (snd (snd r)) ino (fst (snd r)) (ofs + ENTRY_SIZE)
     else Some (fst (snd r), ofs, snd (snd r)) }"

definition dir_add :: "fs \<Rightarrow> dir \<Rightarrow> bytes \<Rightarrow> block_sector_t \<Rightarrow> bytes \<Rightarrow> (bool \<times> fs) option" where
  "dir_add s d name sec junk =
     (if name = [] \<or> length name > NAME_MAX then Some (False, s)
      else do {
        (found, s) \<leftarrow> dir_find s d name junk;
        if found \<noteq> None then Some (False, s)
        else do {
          (e, ofs, s) \<leftarrow> free_slot_loop s (d_inode d) junk 0;
          (n, s) \<leftarrow> inode_write_at free_map_alloc1 s (d_inode d) (fill_entry e name sec) (int ofs);
          Some (n = ENTRY_SIZE, s) } })"

definition dir_remove :: "fs \<Rightarrow> bool \<Rightarrow> dir \<Rightarrow> bytes \<Rightarrow> bytes \<Rightarrow> (bool \<times> fs) option" where
  "dir_remove s mem d name junk = do {
     (found, s) \<leftarrow> dir_find s d name junk;
     case found of
       None \<Rightarrow> do { s \<leftarrow> inode_close s None; Some (False, s) }
     | Some (e, ofs) \<Rightarrow> do {
         (ino, s) \<leftarrow> inode_open s mem (e_sector e);
         case ino of
           None \<Rightarrow> do { s \<leftarrow> inode_close s None; Some (False, s) }
         | Some i \<Rightarrow> do {
             (n, s) \<leftarrow> inode_write_at free_map_alloc1 s (d_inode d) (set_in_use e False) (int ofs);
             if n \<noteq> ENTRY_SIZE then do { s \<leftarrow> inode_close s ino; Some (False, s) }
             else do {
               s \<leftarrow> inode_remove s i;
               s \<leftarrow> inode_close s ino;
               Some (True, s) } } } }"

partial_function (option) dir_readdir :: "fs \<Rightarrow> dir \<Rightarrow> bytes \<Rightarrow> (bytes option \<times> dir \<times> fs) option" where
  "dir_readdir s d e = do {
     r \<leftarrow> read_entry s (d_inode d) e (nat (d_pos d));
     if fst r then
       if e_in_use (fst (snd r))
       then Some (Some (e_name (fst (snd r))), d\<lparr>d_pos := d_pos d + int ENTRY_SIZE\<rparr>, snd (snd r))
       else dir_readdir (snd (snd r)) (d\<lparr>d_pos := d_pos d + int ENTRY_SIZE\<rparr>) (fst (snd r))
     else Some (None, d, snd (snd r)) }"

definition dir_set_pos :: "dir \<Rightarrow> int \<Rightarrow> dir" where
  "dir_set_pos d p = d\<lparr>d_pos := p\<rparr>"

definition dir_get_pos :: "dir \<Rightarrow> int" where
  "dir_get_pos d = d_pos d"

section \<open>A directory as a map\<close>

definition entry_at :: "bytes \<Rightarrow> nat \<Rightarrow> bytes" where
  "entry_at F k = take 20 (drop (20 * k) F)"

definition entries :: "bytes \<Rightarrow> bytes list" where
  "entries F = map (entry_at F) [0..<length F div 20]"

definition has_name :: "bytes \<Rightarrow> bytes \<Rightarrow> bool" where
  "has_name name e \<longleftrightarrow> e_in_use e \<and> name = e_name e"

definition dir_map :: "bytes \<Rightarrow> bytes \<Rightarrow> block_sector_t option" where
  "dir_map F name = map_option e_sector (find (has_name name) (entries F))"

text \<open>No two entries in use have the same name.\<close>

definition names_distinct :: "bytes \<Rightarrow> bool" where
  "names_distinct F \<longleftrightarrow> (\<forall>i < length (entries F). \<forall>j < length (entries F).
     e_in_use (entries F ! i) \<and> e_in_use (entries F ! j) \<and> e_name (entries F ! i) = e_name (entries F ! j) \<longrightarrow> i = j)"

lemma entry_length: "k < length F div 20 \<Longrightarrow> length (entry_at F k) = 20"
proof -
  assume "k < length F div 20"
  then have "20 * k + 20 \<le> length F" by (simp add: less_eq_div_iff_mult_less_eq flip: Suc_le_eq)
  then show ?thesis by (simp add: entry_at_def)
qed

lemma entry_at_upd:
  assumes k: "k < length F div 20" and e: "length e = 20" and j: "j < length F div 20"
  shows "entry_at (memcpy_at F (20 * k) e) j = (if j = k then e else entry_at F j)"
proof (rule nth_equalityI)
  have kl: "20 * k + 20 \<le> length F" and jl: "20 * j + 20 \<le> length F"
    using k j by (simp_all add: less_eq_div_iff_mult_less_eq flip: Suc_le_eq)
  show "length (entry_at (memcpy_at F (20 * k) e) j) = length (if j = k then e else entry_at F j)"
    using kl jl e by (simp add: entry_at_def)
  fix i
  assume "i < length (entry_at (memcpy_at F (20 * k) e) j)"
  then have i: "i < 20" by (simp add: entry_at_def)
  have "entry_at (memcpy_at F (20 * k) e) j ! i = memcpy_at F (20 * k) e ! (20 * j + i)"
    using i kl jl e by (simp add: entry_at_def)
  also have "\<dots> = (if 20 * k \<le> 20 * j + i \<and> 20 * j + i < 20 * k + 20 then e ! (20 * j + i - 20 * k) else F ! (20 * j + i))"
    using nth_memcpy_at [of "20 * k" e F "20 * j + i"] i kl jl e by simp
  also have "\<dots> = (if j = k then e else entry_at F j) ! i"
  proof (cases "j = k")
    case False
    then have "\<not> (20 * k \<le> 20 * j + i \<and> 20 * j + i < 20 * k + 20)" using i by linarith
    then have "(if 20 * k \<le> 20 * j + i \<and> 20 * j + i < 20 * k + 20 then e ! (20 * j + i - 20 * k) else F ! (20 * j + i))
      = F ! (20 * j + i)" by (simp only: if_False)
    also have "\<dots> = entry_at F j ! i" using i jl by (simp add: entry_at_def)
    finally show ?thesis using False by simp
  qed (use i in simp)
  finally show "entry_at (memcpy_at F (20 * k) e) j ! i = (if j = k then e else entry_at F j) ! i" .
qed

lemma entries_upd:
  assumes "k < length F div 20" and "length e = 20"
  shows "entries (memcpy_at F (20 * k) e) = (entries F)[k := e]"
proof -
  have kl: "20 * k + 20 \<le> length F"
    using assms(1) by (simp add: less_eq_div_iff_mult_less_eq flip: Suc_le_eq)
  then show ?thesis
    using entry_at_upd [OF assms] assms(2)
    by (intro nth_equalityI) (simp_all add: entries_def nth_list_update)
qed

lemma find_update_neither:
  "\<not> P e \<Longrightarrow> k < length es \<Longrightarrow> \<not> P (es ! k) \<Longrightarrow> find P (es[k := e]) = find P es"
  by (induction es arbitrary: k) (auto split: nat.split)

lemma find_update_only:
  "\<forall>x \<in> set es. \<not> P x \<Longrightarrow> k < length es \<Longrightarrow> P e \<Longrightarrow> find P (es[k := e]) = Some e"
  by (induction es arbitrary: k) (auto split: nat.split)

lemma find_update_gone:
  "k < length es \<Longrightarrow> \<not> P e \<Longrightarrow> (\<And>j. j < length es \<Longrightarrow> j \<noteq> k \<Longrightarrow> \<not> P (es ! j)) \<Longrightarrow> find P (es[k := e]) = None"
  by (auto simp: find_None_iff in_set_conv_nth nth_list_update split: if_splits)

lemma takeWhile_to_zero: "0 \<notin> set s \<Longrightarrow> takeWhile (\<lambda>c. c \<noteq> 0) (s @ 0 # r) = s" for s :: bytes
  by (induction s) auto

text \<open>The fields of a filled entry.\<close>

lemma fill_entry_fields:
  assumes e: "length e = 20" and name: "length name \<le> NAME_MAX" "0 \<notin> set name"
  shows "length (fill_entry e name sec) = 20" "e_sector (fill_entry e name sec) = sec"
    "e_name (fill_entry e name sec) = name" "e_in_use (fill_entry e name sec)"
proof -
  let ?e1 = "set_in_use e True"
  let ?e2 = "memcpy_at ?e1 4 (name @ [0])"
  have l: "length ?e1 = 20" "length ?e2 = 20"
    using e name by (simp_all add: set_in_use_def NAME_MAX_def)
  have f: "fill_entry e name sec = memcpy_at ?e2 0 (bytes_of_u32 sec)"
    using name by (simp add: fill_entry_def)
  show "length (fill_entry e name sec) = 20" using l by (simp add: f)
  show "e_sector (fill_entry e name sec) = sec" by (simp add: f e_sector_def memcpy_at_def)
  have "drop 4 (fill_entry e name sec) = name @ [0] @ drop (5 + length name) ?e1"
    using l name by (simp add: f memcpy_at_def NAME_MAX_def)
  moreover have "take 15 (name @ [0] @ r) = name @ [0] @ take (14 - length name) r" for r :: bytes
  proof -
    have "15 - length name = Suc (14 - length name)" using name by (simp add: NAME_MAX_def)
    then show ?thesis using name by (simp add: NAME_MAX_def)
  qed
  ultimately show "e_name (fill_entry e name sec) = name"
    using takeWhile_to_zero [OF name(2)] by (simp add: e_name_def)
  have "fill_entry e name sec ! 19 = ?e1 ! 19"
    unfolding f using l name by (simp add: nth_memcpy_at NAME_MAX_def)
  then show "e_in_use (fill_entry e name sec)"
    using e by (simp add: e_in_use_def set_in_use_def nth_memcpy_at)
qed

lemma set_in_use_False:
  "length e = 20 \<Longrightarrow> length (set_in_use e False) = 20 \<and> \<not> e_in_use (set_in_use e False)"
  by (simp add: set_in_use_def e_in_use_def nth_memcpy_at)

section \<open>The operations on the map\<close>

lemma read_entry_spec:
  assumes wf: "open_wf s ino sec" and e: "length e = 20"
  defines "F \<equiv> file_data (fview s) sec"
  shows "\<exists>e' s'. read_entry s ino e (20 * k) = Some (k < length F div 20, e', s') \<and> same_files s s'
    \<and> length e' = 20 \<and> (k < length F div 20 \<longrightarrow> e' = entries F ! k)"
proof -
  obtain s' where s': "inode_read_at s ino 20 (int (20 * k)) = Some (take 20 (drop (20 * k) F), s')" "same_files s s'"
    using inode_read_at_spec [OF wf, of "int (20 * k)" 20] unfolding F_def nat_int by auto
  let ?b = "take 20 (drop (20 * k) F)"
  have full: "length ?b = 20 \<longleftrightarrow> k < length F div 20"
    by (simp add: less_eq_div_iff_mult_less_eq min_def flip: Suc_le_eq) linarith
  have "length ?b \<le> 20" by simp
  then have "length (memcpy_at e 0 ?b) = 20" using e by (simp del: length_take)
  moreover have "memcpy_at e 0 ?b = entries F ! k" if "k < length F div 20"
    using that full e by (simp add: entries_def entry_at_def)
  ultimately show ?thesis
    using s' full by (auto simp: read_entry_def ENTRY_SIZE_def)
qed

lemma same_files_file_data: "same_files s s' \<Longrightarrow> file_data (fview s') sec = file_data (fview s) sec"
  by (simp add: same_filesD)

lemma length_entries [simp]: "length (entries F) = length F div 20"
  by (simp add: entries_def)

lemma lookup_loop_spec:
  assumes "open_wf s ino sec" and "length e = 20" and "es = entries (file_data (fview s) sec)"
  shows "\<exists>r s'. lookup_loop s ino name e (20 * k) = Some (r, s') \<and> same_files s s'
    \<and> (case r of
        None \<Rightarrow> (\<forall>i < length es. k \<le> i \<longrightarrow> \<not> has_name name (es ! i))
      | Some (e', ofs) \<Rightarrow> \<exists>i < length es. k \<le> i \<and> ofs = 20 * i \<and> e' = es ! i \<and> has_name name (es ! i)
          \<and> (\<forall>j. k \<le> j \<and> j < i \<longrightarrow> \<not> has_name name (es ! j)))"
  using assms
proof (induction "length es - k" arbitrary: k s e rule: less_induct)
  case less
  let ?F = "file_data (fview s) sec"
  have es: "es = entries ?F" using less.prems by simp
  obtain e1 s1 where s1: "read_entry s ino e (20 * k) = Some (k < length es, e1, s1)" "same_files s s1"
    "length e1 = 20" "k < length es \<longrightarrow> e1 = es ! k"
    using read_entry_spec [OF less.prems(1,2), of k] unfolding es by auto
  consider (eof) "\<not> k < length es" | (found) "k < length es" "has_name name (es ! k)"
    | (cont) "k < length es" "\<not> has_name name (es ! k)" by blast
  then show ?case
  proof cases
    case eof
    then have "lookup_loop s ino name e (20 * k) = Some (None, s1)"
      using s1(1) by (subst lookup_loop.simps) simp
    then show ?thesis using eof s1(2) by auto
  next
    case found
    then have "lookup_loop s ino name e (20 * k) = Some (Some (es ! k, 20 * k), s1)"
      using s1(1,4) by (subst lookup_loop.simps) (simp add: has_name_def)
    then show ?thesis using found s1(2) by auto
  next
    case cont
    then have step: "lookup_loop s ino name e (20 * k) = lookup_loop s1 ino name e1 (20 * Suc k)"
      using s1(1,4) by (subst lookup_loop.simps) (auto simp: has_name_def ENTRY_SIZE_def add.commute)
    have es1: "es = entries (file_data (fview s1) sec)" using es same_files_file_data [OF s1(2)] by simp
    obtain r s2 where s2: "lookup_loop s1 ino name e1 (20 * Suc k) = Some (r, s2)" "same_files s1 s2"
      "case r of
        None \<Rightarrow> (\<forall>i < length es. Suc k \<le> i \<longrightarrow> \<not> has_name name (es ! i))
      | Some (e', ofs) \<Rightarrow> \<exists>i < length es. Suc k \<le> i \<and> ofs = 20 * i \<and> e' = es ! i \<and> has_name name (es ! i)
          \<and> (\<forall>j. Suc k \<le> j \<and> j < i \<longrightarrow> \<not> has_name name (es ! j))"
      using less.hyps [OF _ open_wf_same_files [OF less.prems(1) s1(2)] s1(3) es1, of "Suc k"] cont(1) by fastforce
    have nk: "\<not> has_name name (es ! i)" if "\<not> Suc k \<le> i" "k \<le> i" for i
      using that cont(2) by (metis le_neq_implies_less Suc_leI)
    have "case r of
        None \<Rightarrow> (\<forall>i < length es. k \<le> i \<longrightarrow> \<not> has_name name (es ! i))
      | Some (e', ofs) \<Rightarrow> \<exists>i < length es. k \<le> i \<and> ofs = 20 * i \<and> e' = es ! i \<and> has_name name (es ! i)
          \<and> (\<forall>j. k \<le> j \<and> j < i \<longrightarrow> \<not> has_name name (es ! j))"
    proof (cases r)
      case None
      then have "\<forall>i < length es. Suc k \<le> i \<longrightarrow> \<not> has_name name (es ! i)" using s2(3) by simp
      then show ?thesis using nk None by (simp, metis)
    next
      case (Some p)
      obtain e' ofs where p: "p = (e', ofs)" by fastforce
      obtain i where i: "i < length es" "Suc k \<le> i" "ofs = 20 * i" "e' = es ! i" "has_name name (es ! i)"
        "\<And>j. Suc k \<le> j \<Longrightarrow> j < i \<Longrightarrow> \<not> has_name name (es ! j)"
        using s2(3) Some p by auto
      have "\<forall>j. k \<le> j \<and> j < i \<longrightarrow> \<not> has_name name (es ! j)" using i(6) nk by blast
      then show ?thesis using i(1-5) Some p by auto
    qed
    then show ?thesis using step s2(1) same_files_trans [OF s1(2) s2(2)] by auto
  qed
qed

lemma find_first:
  "i < length es \<Longrightarrow> P (es ! i) \<Longrightarrow> (\<And>j. j < i \<Longrightarrow> \<not> P (es ! j)) \<Longrightarrow> find P es = Some (es ! i)"
  by (auto simp: find_Some_iff)

lemma dir_find_spec:
  assumes "open_wf s (d_inode d) sec" and "length junk = 20"
  defines "es \<equiv> entries (file_data (fview s) sec)"
  shows "\<exists>r s'. dir_find s d name junk = Some (r, s') \<and> same_files s s'
    \<and> (case r of
        None \<Rightarrow> find (has_name name) es = None
      | Some (e, ofs) \<Rightarrow> \<exists>i < length es. ofs = 20 * i \<and> e = es ! i \<and> has_name name e \<and> find (has_name name) es = Some e)"
proof -
  have es: "es = entries (file_data (fview s) sec)" by (simp add: es_def)
  obtain r s' where r: "lookup_loop s (d_inode d) name junk (20 * 0) = Some (r, s')" "same_files s s'"
    "case r of
        None \<Rightarrow> (\<forall>i < length es. 0 \<le> i \<longrightarrow> \<not> has_name name (es ! i))
      | Some (e', ofs) \<Rightarrow> \<exists>i < length es. 0 \<le> i \<and> ofs = 20 * i \<and> e' = es ! i \<and> has_name name (es ! i)
          \<and> (\<forall>j. 0 \<le> j \<and> j < i \<longrightarrow> \<not> has_name name (es ! j))"
    using lookup_loop_spec [OF assms(1,2) es, of name 0] by blast
  have "case r of
        None \<Rightarrow> find (has_name name) es = None
      | Some (e, ofs) \<Rightarrow> \<exists>i < length es. ofs = 20 * i \<and> e = es ! i \<and> has_name name e \<and> find (has_name name) es = Some e"
    using r(3) find_first [of _ es "has_name name"]
    by (cases r) (auto simp: find_None_iff in_set_conv_nth)
  then show ?thesis using r(1,2) by (auto simp: dir_find_def)
qed

lemma free_slot_loop_spec:
  assumes "open_wf s ino sec" and "length e = 20" and "es = entries (file_data (fview s) sec)"
    and "\<exists>i < length es. k \<le> i \<and> \<not> e_in_use (es ! i)"
  shows "\<exists>i e' s'. free_slot_loop s ino e (20 * k) = Some (e', 20 * i, s') \<and> same_files s s'
    \<and> i < length es \<and> e' = es ! i \<and> \<not> e_in_use (es ! i)"
  using assms
proof (induction "length es - k" arbitrary: k s e rule: less_induct)
  case less
  obtain i where i: "i < length es" "k \<le> i" "\<not> e_in_use (es ! i)" using less.prems(4) by blast
  then have k: "k < length es" by simp
  obtain e1 s1 where s1: "read_entry s ino e (20 * k) = Some (True, e1, s1)" "same_files s s1"
    "length e1 = 20" "e1 = es ! k"
    using read_entry_spec [OF less.prems(1,2), of k] k unfolding less.prems(3) by auto
  show ?case
  proof (cases "e_in_use (es ! k)")
    case True
    then have "k \<noteq> i" using i(3) by auto
    then have ex: "\<exists>i < length es. Suc k \<le> i \<and> \<not> e_in_use (es ! i)" using i by (intro exI [of _ i]) auto
    have es1: "es = entries (file_data (fview s1) sec)" using less.prems(3) same_files_file_data [OF s1(2)] by simp
    have "length es - Suc k < length es - k" using k by simp
    then obtain i e' s2 where s2: "free_slot_loop s1 ino e1 (20 * Suc k) = Some (e', 20 * i, s2)" "same_files s1 s2"
      "i < length es" "e' = es ! i" "\<not> e_in_use (es ! i)"
      using less.hyps [OF _ open_wf_same_files [OF less.prems(1) s1(2)] s1(3) es1 ex] by blast
    have "free_slot_loop s ino e (20 * k) = free_slot_loop s1 ino e1 (20 * Suc k)"
      using s1(1,4) True by (subst free_slot_loop.simps) (simp add: ENTRY_SIZE_def add.commute)
    then show ?thesis using s2 same_files_trans [OF s1(2) s2(2)] by auto
  next
    case False
    then have "free_slot_loop s ino e (20 * k) = Some (es ! k, 20 * k, s1)"
      using s1(1,4) by (subst free_slot_loop.simps) simp
    then show ?thesis using False k s1(2) by auto
  qed
qed

section \<open>Properties\<close>

text \<open>A full and an empty directory of two entries, for the witnesses.\<close>

lemma demo_dir_data:
  assumes "demo_ok [x] 40" "demo_contents [x] 40 x = replicate 512 b"
  shows "file_data (fview (demo_fs [x] 40)) 2 = replicate 40 b"
proof (rule nth_equalityI)
  have len: "length (file_data (fview (demo_fs [x] 40)) 2) = 40"
    using assms(1) by (simp add: file_data_def demo_fs_cache demo_contents_inode) (simp add: demo_inode_def)
  then show "length (file_data (fview (demo_fs [x] 40)) 2) = length (replicate 40 b)" by simp
  fix i assume "i < length (file_data (fview (demo_fs [x] 40)) 2)"
  then have i: "i < 40" using len by simp
  then show "file_data (fview (demo_fs [x] 40)) 2 ! i = replicate 40 b ! i"
    using assms by (simp add: file_data_def demo_fs_cache demo_contents_inode)
     (simp add: demo_inode_def file_byte_def sector_of_def calculate_indices_def inode_consts BLOCK_SECTOR_SIZE_def)
qed

lemma demo_dirs:
  "demo_ok [3] 40" "file_data (fview (demo_fs [3] 40)) 2 = replicate 40 7"
  "demo_ok [5] 40" "file_data (fview (demo_fs [5] 40)) 2 = replicate 40 0"
proof -
  show ok: "demo_ok [3] 40" "demo_ok [5] 40" by (simp_all add: demo_ok_def)
  show "file_data (fview (demo_fs [3] 40)) 2 = replicate 40 7" "file_data (fview (demo_fs [5] 40)) 2 = replicate 40 0"
    using demo_dir_data [OF ok(1), of 7] demo_dir_data [OF ok(2), of 0] by (simp_all add: demo_contents_def)
qed

lemma demo_entries: "entries (replicate 40 b) = [replicate 20 b, replicate 20 b]"
  by (simp add: entries_def entry_at_def upt_rec)

lemma demo_full: "dir_map (replicate 40 7) (replicate 15 7) = Some 117901063"
proof -
  have "e_in_use (replicate 20 7)" by (simp add: e_in_use_def)
  moreover have "e_name (replicate 20 7) = replicate 15 7" by (simp add: e_name_def)
  ultimately have "has_name (replicate 15 7) (replicate 20 7)" by (simp add: has_name_def)
  moreover have "e_sector (replicate 20 7) = 117901063" by (simp add: e_sector_def u32_of_bytes_def)
  ultimately show ?thesis unfolding dir_map_def demo_entries by simp
qed

lemma names_distinct_upd:
  assumes "names_distinct F" and "entries F' = (entries F)[k := e]" and "k < length (entries F)"
    and "\<forall>x \<in> set (entries F). \<not> has_name (e_name e) x"
  shows "names_distinct F'"
proof -
  have new: "\<not> (e_in_use (entries F ! j) \<and> e_name (entries F ! j) = e_name e)" if "j < length (entries F)" for j
    using assms(4) that by (auto simp: has_name_def)
  have old: "i = j" if "i < length (entries F)" "j < length (entries F)" "e_in_use (entries F ! i)" "e_in_use (entries F ! j)"
    "e_name (entries F ! i) = e_name (entries F ! j)" for i j
    using assms(1) that unfolding names_distinct_def by blast
  show ?thesis
    unfolding names_distinct_def assms(2)
  proof (intro allI impI)
    fix i j
    assume ij: "i < length ((entries F)[k := e])" "j < length ((entries F)[k := e])"
      "e_in_use ((entries F)[k := e] ! i) \<and> e_in_use ((entries F)[k := e] ! j)
       \<and> e_name ((entries F)[k := e] ! i) = e_name ((entries F)[k := e] ! j)"
    then have "i < length (entries F)" "j < length (entries F)" by simp_all
    then show "i = j"
      using ij(3) new [of i] new [of j] old [of i j] assms(3)
      by (cases "i = k"; cases "j = k") (auto simp del: length_entries)
  qed
qed

lemma dir_lookup_spec:
  assumes wf: "open_wf s (d_inode d) sec" and junk: "length junk = 20"
  shows "\<exists>s1. same_files s s1 \<and> dir_lookup s mem d name junk
    = (case dir_map (file_data (fview s) sec) name of None \<Rightarrow> Some (None, s1) | Some x \<Rightarrow> inode_open s1 mem x)"
proof -
  let ?es = "entries (file_data (fview s) sec)"
  obtain r s1 where r: "dir_find s d name junk = Some (r, s1)" "same_files s s1"
    "case r of None \<Rightarrow> find (has_name name) ?es = None
      | Some (e, ofs) \<Rightarrow> \<exists>i < length ?es. ofs = 20 * i \<and> e = ?es ! i \<and> has_name name e \<and> find (has_name name) ?es = Some e"
    using dir_find_spec [OF wf junk, of name] by blast
  have "dir_lookup s mem d name junk
      = (case dir_map (file_data (fview s) sec) name of None \<Rightarrow> Some (None, s1) | Some x \<Rightarrow> inode_open s1 mem x)"
  proof (cases r)
    case None
    then show ?thesis using r(1,3) by (simp add: dir_lookup_def dir_map_def)
  next
    case (Some p)
    obtain e ofs where p: "p = (e, ofs)" by fastforce
    have f: "find (has_name name) ?es = Some e" using r(3) Some p by auto
    show ?thesis using r(1) Some p by (simp add: dir_lookup_def dir_map_def f)
  qed
  then show ?thesis using r(2) by blast
qed





end
