(* ===== verification/Arithmetic.thy ===== *)
theory Arithmetic
  imports Kernel_Prelude "HOL-Library.Signed_Division"
begin

text \<open>
  The 64-bit division routines of \<^verbatim>\<open>lib/arithmetic.c\<close>, which the compiler calls for every 64-bit
  division of the kernel, over the 32-bit \<^verbatim>\<open>DIVL\<close> instruction. The instruction traps when the
  quotient does not fit in 32 bits; the theorems show that it never does for a nonzero divisor and
  that the quotients are exact. The remainders are truncated to 32 bits by the return types of
  \<^verbatim>\<open>umod64\<close> and \<^verbatim>\<open>smod64\<close>.
\<close>

type_synonym s64 = "64 word"

section \<open>The routines\<close>

text \<open>\<open>None\<close> is the divide error of the instruction.\<close>

definition divl :: "u64 \<Rightarrow> u32 \<Rightarrow> u32 option" where
  "divl n d =
     (if d = 0 \<or> unat n div unat d \<ge> 2 ^ 32 then None
      else Some (of_nat (unat n div unat d)))"

definition nlz_step :: "u32 \<Rightarrow> nat \<Rightarrow> nat \<times> u32 \<Rightarrow> nat \<times> u32" where
  "nlz_step limit k = (\<lambda>(n, x). if x \<le> limit then (n + k, push_bit k x) else (n, x))"

definition nlz :: "u32 \<Rightarrow> nat" where
  "nlz x =
     (let (n, x) = nlz_step 0x3FFFFFFF 2 (nlz_step 0x0FFFFFFF 4 (nlz_step 0x00FFFFFF 8 (nlz_step 0x0000FFFF 16 (0, x))))
      in if x \<le> 0x7FFFFFFF then n + 1 else n)"

definition udiv64 :: "u64 \<Rightarrow> u64 \<Rightarrow> u64 option" where
  "udiv64 n d =
     (if drop_bit 32 d = 0 then do {
        let b = (push_bit 32 1 :: u64);
        let n1 = (ucast (drop_bit 32 n) :: u32);
        let n0 = (ucast n :: u32);
        let d0 = (ucast d :: u32);
        ASSERT (d0 \<noteq> 0);
        q \<leftarrow> divl (b * ucast (n1 mod d0) + ucast n0) d0;
        Some (ucast q + b * ucast (n1 div d0)) }
      else if n < d then Some 0
      else do {
        let d1 = (ucast (drop_bit 32 d) :: u32);
        let s = nlz d1;
        q \<leftarrow> divl (drop_bit 1 n) (ucast (drop_bit 32 (push_bit s d)));
        let q = (ucast (drop_bit (31 - s) q) :: u64);
        Some (if n - (q - 1) * d < d then q - 1 else q) })"

definition umod64 :: "u64 \<Rightarrow> u64 \<Rightarrow> u32 option" where
  "umod64 n d = do { q \<leftarrow> udiv64 n d; Some (ucast (n - d * q)) }"

definition sdiv64 :: "s64 \<Rightarrow> s64 \<Rightarrow> s64 option" where
  "sdiv64 n d = do {
     let n_abs = (if 0 \<le> sint n then n else - n);
     let d_abs = (if 0 \<le> sint d then d else - d);
     q_abs \<leftarrow> udiv64 n_abs d_abs;
     Some (if (sint n < 0) = (sint d < 0) then q_abs else - q_abs) }"

definition smod64 :: "s64 \<Rightarrow> s64 \<Rightarrow> u32 option" where
  "smod64 n d = do { q \<leftarrow> sdiv64 n d; Some (ucast (n - d * q)) }"

definition divdi3 :: "s64 \<Rightarrow> s64 \<Rightarrow> s64 option" where
  "divdi3 n d = sdiv64 n d"

text \<open>The result of \<^verbatim>\<open>smod64\<close> is widened with its sign, that of \<^verbatim>\<open>umod64\<close> without.\<close>

definition moddi3 :: "s64 \<Rightarrow> s64 \<Rightarrow> s64 option" where
  "moddi3 n d = map_option scast (smod64 n d)"

definition udivdi3 :: "u64 \<Rightarrow> u64 \<Rightarrow> u64 option" where
  "udivdi3 n d = udiv64 n d"

definition umoddi3 :: "u64 \<Rightarrow> u64 \<Rightarrow> u64 option" where
  "umoddi3 n d = map_option ucast (umod64 n d)"

section \<open>Leading zeros\<close>

lemma unat_push_bit_small: "unat x * 2 ^ k < 2 ^ LENGTH('a) \<Longrightarrow> unat (push_bit k x) = unat x * 2 ^ k"
  for x :: "'a::len word"
  unfolding unsigned_push_bit_eq by (simp only: push_bit_eq_mult take_bit_nat_eq_self)

text \<open>A step multiplies by a power of two, without overflow, and makes the value large.\<close>

lemma nlz_step_spec:
  assumes l: "unat limit = 2 ^ (32 - k) - 1" and k: "2 * k \<le> 32" and x: "2 ^ (32 - 2 * k) \<le> unat x"
    and st: "nlz_step limit k (n, x) = (n', x')"
  shows "2 ^ (32 - k) \<le> unat x'" "unat x' * 2 ^ n = unat x * 2 ^ n'" "n' \<le> n + k"
proof -
  have p: "(2::nat) ^ (32 - 2 * k) * 2 ^ k = 2 ^ (32 - k)" "(2::nat) ^ (32 - k) * 2 ^ k = 2 ^ 32"
    using k by (simp_all flip: power_add)
  have pos: "(0::nat) < 2 ^ (32 - k)" by simp
  have "2 ^ (32 - k) \<le> unat x' \<and> unat x' * 2 ^ n = unat x * 2 ^ n' \<and> n' \<le> n + k"
  proof (cases "x \<le> limit")
    case True
    then have ux: "unat x < 2 ^ (32 - k)" using l pos unfolding word_le_nat_alt by linarith
    then have "unat x * 2 ^ k < 2 ^ (32 - k) * 2 ^ k" by simp
    then have "unat x * 2 ^ k < 2 ^ LENGTH(32)" using p(2) by simp
    then have "unat (push_bit k x) = unat x * 2 ^ k" by (rule unat_push_bit_small)
    moreover have "2 ^ (32 - 2 * k) * 2 ^ k \<le> unat x * 2 ^ k" using x by (rule mult_right_mono) simp
    ultimately show ?thesis using st True p(1) by (auto simp: nlz_step_def power_add)
  next
    case False
    then have "2 ^ (32 - k) \<le> unat x" using l pos unfolding word_le_nat_alt by linarith
    then show ?thesis using st False by (auto simp: nlz_step_def)
  qed
  then show "2 ^ (32 - k) \<le> unat x'" "unat x' * 2 ^ n = unat x * 2 ^ n'" "n' \<le> n + k" by auto
qed

lemma nlz_spec:
  assumes "x \<noteq> 0"
  shows "2 ^ 31 \<le> unat x * 2 ^ nlz x" "unat x * 2 ^ nlz x < 2 ^ 32" "nlz x \<le> 31"
proof -
  obtain n1 x1 where s1: "nlz_step 0x0000FFFF 16 (0, x) = (n1, x1)" by fastforce
  obtain n2 x2 where s2: "nlz_step 0x00FFFFFF 8 (n1, x1) = (n2, x2)" by fastforce
  obtain n3 x3 where s3: "nlz_step 0x0FFFFFFF 4 (n2, x2) = (n3, x3)" by fastforce
  obtain n4 x4 where s4: "nlz_step 0x3FFFFFFF 2 (n3, x3) = (n4, x4)" by fastforce
  have "1 \<le> unat x" using assms by (simp add: Suc_le_eq unat_gt_0)
  then have r1: "2 ^ 16 \<le> unat x1" "unat x1 = unat x * 2 ^ n1" "n1 \<le> 16"
    using nlz_step_spec [OF _ _ _ s1] by simp_all
  then have r2: "2 ^ 24 \<le> unat x2" "unat x2 * 2 ^ n1 = unat x1 * 2 ^ n2" "n2 \<le> n1 + 8"
    using nlz_step_spec [OF _ _ _ s2] by simp_all
  then have r3: "2 ^ 28 \<le> unat x3" "unat x3 * 2 ^ n2 = unat x2 * 2 ^ n3" "n3 \<le> n2 + 4"
    using nlz_step_spec [OF _ _ _ s3] by simp_all
  then have r4: "2 ^ 30 \<le> unat x4" "unat x4 * 2 ^ n3 = unat x3 * 2 ^ n4" "n4 \<le> n3 + 2"
    using nlz_step_spec [OF _ _ _ s4] by simp_all
  have "unat x2 * 2 ^ n1 = unat x * 2 ^ n2 * 2 ^ n1" using r1(2) r2(2) by (simp add: ac_simps)
  then have x2: "unat x2 = unat x * 2 ^ n2" by simp
  have "unat x3 * 2 ^ n2 = unat x * 2 ^ n3 * 2 ^ n2" using x2 r3(2) by (simp add: ac_simps)
  then have x3: "unat x3 = unat x * 2 ^ n3" by simp
  have "unat x4 * 2 ^ n3 = unat x * 2 ^ n4 * 2 ^ n3" using x3 r4(2) by (simp add: ac_simps)
  then have x4: "unat x4 = unat x * 2 ^ n4" by simp
  have n4: "n4 \<le> 30" using r1(3) r2(3) r3(3) r4(3) by linarith
  have res: "nlz x = (if x4 \<le> 0x7FFFFFFF then n4 + 1 else n4)"
    by (simp add: nlz_def s1 s2 s3 s4)
  have "unat x4 < 2 ^ 32" using unsigned_less [of x4] by simp
  then show "2 ^ 31 \<le> unat x * 2 ^ nlz x" "unat x * 2 ^ nlz x < 2 ^ 32" "nlz x \<le> 31"
    using r4(1) n4 x4 unfolding res by (simp_all add: word_le_nat_alt)
qed

section \<open>The quotient estimate\<close>

text \<open>
  The second case of \<^verbatim>\<open>udiv64\<close>: dividing by the leading 32 bits of the divisor gives the quotient or
  one more.
\<close>

lemma quotient_estimate:
  fixes n d s v :: nat
  assumes n: "n < 2 ^ 64" and s: "s \<le> 31" and d: "2 ^ 63 \<le> d * 2 ^ s" "d * 2 ^ s < 2 ^ 64"
    and v: "v = d * 2 ^ s div 2 ^ 32"
  defines "q \<equiv> n div 2 div v div 2 ^ (31 - s)"
  shows "q = n div d \<or> q = n div d + 1"
proof -
  define e where "e = v * 2 ^ (32 - s)"
  define g where "g = d - e"
  define Q where "Q = n div d"
  have "63 - s = 31 + (32 - s)" "(2::nat) ^ s * 2 ^ (32 - s) = 2 ^ (s + (32 - s))" using s by (simp_all flip: power_add)
  then have p: "(2::nat) ^ s * 2 ^ (32 - s) = 2 ^ 32" "(2::nat) * 2 ^ (31 - s) = 2 ^ (32 - s)"
    "(2::nat) ^ 31 * 2 ^ (32 - s) = 2 ^ (63 - s)" "(2::nat) ^ (63 - s) * 2 ^ s = 2 ^ 63"
    using s by (simp_all only: power_add) (simp_all flip: power_add power_Suc)
  have "d * 2 ^ s div 2 ^ 32 = d div 2 ^ (32 - s)"
    using p(1) by (metis div_mult_mult2 mult.commute power_not_zero zero_neq_numeral)
  then have v': "v = d div 2 ^ (32 - s)" using v by simp
  have v31: "2 ^ 31 \<le> v" using v d(1) by (simp add: less_eq_div_iff_mult_less_eq)
  have e: "e \<le> d" "d < e + 2 ^ (32 - s)"
    unfolding e_def v' using div_times_less_eq_dividend [of d "2 ^ (32 - s)"] dividend_less_div_times [of "2 ^ (32 - s)" d]
    by simp_all
  have e63: "2 ^ (63 - s) \<le> e" unfolding e_def using v31 p(3) by (metis mult_le_mono1)
  have pos: "0 < e" using e63 by (metis gr0I le_zero_eq power_not_zero zero_neq_numeral)
  have q: "q = n div e"
    unfolding q_def e_def by (simp add: p(2) [symmetric] ac_simps flip: div_mult2_eq)
  have lo: "Q \<le> q" unfolding q Q_def using pos e(1) by (rule div_le_mono2)
  have "q \<le> Q + 1"
  proof (rule ccontr)
    assume "\<not> q \<le> Q + 1"
    then have "(Q + 2) * e \<le> q * e" by (intro mult_right_mono) simp_all
    also have "\<dots> \<le> n" unfolding q by simp
    finally have big: "(Q + 2) * e \<le> n" .
    have "n < (Q + 1) * d"
      unfolding Q_def using pos e(1) dividend_less_div_times [of d n] by simp
    then have "(Q + 2) * e < (Q + 1) * (e + g)" using big e(1) unfolding g_def by simp
    then have 1: "e < (Q + 1) * g" by (simp add: algebra_simps)
    have g: "g < 2 ^ (32 - s)" unfolding g_def using e by linarith
    have "(Q + 1) * g \<le> (Q + 1) * (2 ^ (32 - s) - 1)" using g by (intro mult_left_mono) simp_all
    then have 2: "2 ^ (63 - s) < (Q + 1) * (2 ^ (32 - s) - 1)" using 1 e63 by linarith
    have "(Q + 2) * 2 ^ (63 - s) < 2 ^ 64" using big e63 n by (meson le_less_trans mult_le_mono2)
    then have "(Q + 2) * 2 ^ (63 - s) * 2 ^ s < 2 ^ 64 * 2 ^ s" by simp
    then have "(Q + 2) * 2 ^ 63 < 2 ^ 64 * 2 ^ s" by (simp only: mult.assoc p(4))
    then have 3: "Q + 2 < 2 * 2 ^ s" by simp
    have "(Q + 1) * 2 ^ (32 - s) > 2 ^ 31 * 2 ^ (32 - s)"
      using 2 p(3) by (metis diff_le_self le_less_trans less_le_trans mult_le_mono2)
    then have 4: "2 ^ 31 < Q + 1" by simp
    have "s = 31"
    proof (rule ccontr)
      assume "s \<noteq> 31"
      then have "(2::nat) ^ s \<le> 2 ^ 30" using s by (intro power_increasing) simp_all
      then show False using 3 4 by simp
    qed
    then show False using 2 3 by simp
  qed
  then show ?thesis using lo unfolding Q_def by linarith
qed

section \<open>Exact quotients\<close>

lemma unat_drop_bit: "unat (drop_bit k x) = unat x div 2 ^ k" for x :: "'a::len word"
  unfolding unsigned_drop_bit_eq by (simp only: drop_bit_eq_div take_bit_nat_less_eq_self) (simp add: take_bit_nat_eq_self)

lemma unat_ucast_32: "unat (ucast x :: u32) = unat x mod 2 ^ 32" for x :: u64
  by (simp add: unsigned_ucast_eq take_bit_eq_mod)

lemma unat_ucast_64: "unat (ucast x :: u64) = unat x" for x :: u32
proof -
  have "unat x < 2 ^ 32" using unsigned_less [of x] by simp
  then show ?thesis by (simp add: unsigned_ucast_eq take_bit_nat_eq_self)
qed

lemma word_eq_of_nat: "unat x = k \<Longrightarrow> x = of_nat k" for x :: "'a::len word"
  by auto

lemma unat_of_nat_below: "k < 2 ^ LENGTH('a) \<Longrightarrow> unat (of_nat k :: 'a::len word) = k"
  by (simp add: unsigned_of_nat take_bit_nat_eq_self)

lemma udiv64_narrow:
  assumes d: "d \<noteq> 0" "drop_bit 32 d = 0"
  shows "udiv64 n d = Some (n div d)"
proof -
  let ?n = "unat n" and ?d = "unat d" and ?b = "2 ^ 32 :: nat"
  let ?hi = "ucast (drop_bit 32 n) :: u32" and ?lo = "ucast n :: u32" and ?dl = "ucast d :: u32"
  have "?d div ?b = 0" using d(2) unat_drop_bit [of 32 d] by simp
  then have dlt: "?d < ?b" by simp
  then have d0: "unat ?dl = ?d" by (simp add: unat_ucast_32)
  have dpos: "0 < ?d" using d(1) by (simp add: unat_gt_0)
  have nlt: "?n < 2 ^ 64" using unsigned_less [of n] by simp
  then have "?n div ?b < ?b" by simp
  then have n1: "unat ?hi = ?n div ?b" by (simp add: unat_ucast_32 unat_drop_bit)
  have n0: "unat ?lo = ?n mod ?b" by (simp add: unat_ucast_32)
  define r where "r = ?n div ?b mod ?d"
  have r: "r < ?d" unfolding r_def using dpos by simp
  let ?x = "push_bit 32 1 * ucast (?hi mod ?dl) + ucast ?lo :: u64"
  have m: "unat (?hi mod ?dl) = r" by (simp add: unat_mod_distrib n1 d0 r_def)
  have xlt: "?b * r + ?n mod ?b < ?b * ?d"
  proof -
    have "?b * r + ?n mod ?b < ?b * r + ?b" by simp
    also have "\<dots> = ?b * (r + 1)" by simp
    also have "\<dots> \<le> ?b * ?d" using r by (intro mult_left_mono) simp_all
    finally show ?thesis .
  qed
  also have "\<dots> < 2 ^ 64" using dlt by simp
  finally have x64: "?b * r + ?n mod ?b < 2 ^ 64" .
  have "(ucast (?hi mod ?dl) :: u64) = of_nat r" "(ucast ?lo :: u64) = of_nat (?n mod ?b)"
    by (simp_all only: word_eq_of_nat [OF trans [OF unat_ucast_64 m]] word_eq_of_nat [OF trans [OF unat_ucast_64 n0]])
  then have xeq: "?x = of_nat (?b * r + ?n mod ?b)" by (simp only: push_bit_eq_mult) simp
  have x: "unat ?x = ?b * r + ?n mod ?b" unfolding xeq by (rule unat_of_nat_below) (use x64 in simp)
  have q: "unat ?x div unat ?dl < ?b" unfolding x d0 using xlt by (simp add: less_mult_imp_div_less mult.commute)
  have "?dl \<noteq> 0" using d0 dpos by (metis less_irrefl unsigned_0)
  then have "udiv64 n d = Some (ucast (of_nat (unat ?x div unat ?dl) :: u32) + push_bit 32 1 * ucast (?hi div ?dl))"
    using d(2) q by (simp add: udiv64_def divl_def Let_def)
  moreover have "(ucast (of_nat (unat ?x div unat ?dl) :: u32) :: u64) = of_nat ((?b * r + ?n mod ?b) div ?d)"
    using q unat_of_nat_below [of "unat ?x div unat ?dl", where 'a = 32] unfolding x d0
    by (intro word_eq_of_nat) (simp add: unat_ucast_64)
  moreover have "(ucast (?hi div ?dl) :: u64) = of_nat (?n div ?b div ?d)"
    using n1 d0 by (intro word_eq_of_nat) (simp add: unat_ucast_64 unat_div_distrib)
  moreover have "(?b * r + ?n mod ?b) div ?d + ?b * (?n div ?b div ?d) = ?n div ?d"
  proof -
    have "?n = ?b * (?n div ?b) + ?n mod ?b" by simp
    also have "?n div ?b = ?d * (?n div ?b div ?d) + r" unfolding r_def by simp
    finally have "?n = (?b * r + ?n mod ?b) + ?d * (?b * (?n div ?b div ?d))" by (simp only: algebra_simps)
    then have "?n div ?d = ((?b * r + ?n mod ?b) + ?d * (?b * (?n div ?b div ?d))) div ?d" by (rule arg_cong)
    then show ?thesis using dpos by simp
  qed
  moreover have "of_nat i + push_bit 32 1 * of_nat j = (of_nat (i + ?b * j) :: u64)" for i j
    by (simp only: push_bit_eq_mult) simp
  ultimately show ?thesis
    using word_eq_of_nat [OF unat_div_distrib, of n d] by (simp only:)
qed

text \<open>Shifting by the number of leading zeros moves the divisor to the top of its 64 bits.\<close>

lemma nlz_normalises:
  fixes d :: u64
  assumes "drop_bit 32 d \<noteq> 0"
  defines "s \<equiv> nlz (ucast (drop_bit 32 d))"
  shows "2 ^ 63 \<le> unat d * 2 ^ s" "unat d * 2 ^ s < 2 ^ 64" "s \<le> 31"
proof -
  let ?d = "unat d" and ?top = "ucast (drop_bit 32 d) :: u32"
  define t where "t = ?d div 2 ^ 32"
  have d: "t * 2 ^ 32 \<le> ?d" "?d < (t + 1) * 2 ^ 32"
    unfolding t_def using div_times_less_eq_dividend [of ?d "2 ^ 32"] dividend_less_div_times [of "2 ^ 32" ?d] by simp_all
  have "?d < 2 ^ 64" using unsigned_less [of d] by simp
  then have "t < 2 ^ 32" by (simp add: t_def)
  then have top: "unat ?top = t" by (simp add: unat_ucast_32 unat_drop_bit t_def)
  have "t \<noteq> 0" using assms(1) unat_drop_bit [of 32 d] unfolding t_def by (metis unsigned_0 word_unat_eq_iff)
  then have "?top \<noteq> 0" using top by (metis unsigned_0)
  note z = nlz_spec [OF this, folded s_def, unfolded top]
  show "s \<le> 31" using z(3) .
  have "2 ^ 31 * 2 ^ 32 \<le> t * 2 ^ s * 2 ^ 32" using z(1) by (rule mult_right_mono) simp
  also have "\<dots> = t * 2 ^ 32 * 2 ^ s" by (simp only: ac_simps)
  also have "\<dots> \<le> ?d * 2 ^ s" using d(1) by (rule mult_right_mono) simp
  finally show "2 ^ 63 \<le> ?d * 2 ^ s" by simp
  have e: "(2::nat) ^ 32 = 2 ^ (32 - s) * 2 ^ s" using z(3) by (simp flip: power_add)
  have "t < 2 ^ (32 - s)" using z(2) unfolding e by simp
  then have "(t + 1) * 2 ^ s \<le> 2 ^ (32 - s) * 2 ^ s" by (intro mult_right_mono) simp_all
  then have le: "(t + 1) * 2 ^ s * 2 ^ 32 \<le> 2 ^ 32 * 2 ^ 32" unfolding e [symmetric] by (rule mult_right_mono) simp
  have "?d * 2 ^ s < (t + 1) * 2 ^ 32 * 2 ^ s" using d(2) by (rule mult_strict_right_mono) simp
  also have "\<dots> = (t + 1) * 2 ^ s * 2 ^ 32" by (simp only: ac_simps)
  finally show "?d * 2 ^ s < 2 ^ 64" using le by simp
qed

text \<open>The last line of \<^verbatim>\<open>udiv64\<close> corrects an estimate that is one too large.\<close>

lemma quotient_correction:
  fixes n d :: u64
  assumes q: "q = unat n div unat d \<or> q = unat n div unat d + 1" and nd: "unat d \<le> unat n" "0 < unat d"
  shows "(if n - (of_nat q - 1) * d < d then of_nat q - 1 else of_nat q) = n div d"
proof -
  let ?n = "unat n" and ?d = "unat d" and ?q = "of_nat q :: u64"
  have split: "?n = ?n div ?d * ?d + ?n mod ?d" "?n mod ?d < ?d" using nd(2) by simp_all
  have "1 \<le> ?n div ?d" using nd by (simp add: Suc_le_eq div_greater_zero_iff)
  then have "1 \<le> q" using q by linarith
  then have pred: "(q - 1) * ?d + ?d = q * ?d" and qm: "?q - 1 = of_nat (q - 1)"
    by (cases q; simp add: of_nat_diff)+
  have "(q - 1) * ?d \<le> ?n div ?d * ?d" using q by (intro mult_right_mono) auto
  then have le: "(q - 1) * ?d \<le> ?n" using split(1) by linarith
  have "n - (?q - 1) * d = of_nat (?n - (q - 1) * ?d)" using le unfolding qm by (simp add: of_nat_diff)
  moreover have "?n < 2 ^ LENGTH(64)" using unsigned_less [of n] by simp
  then have "?n - (q - 1) * ?d < 2 ^ LENGTH(64)" by simp
  ultimately have test: "n - (?q - 1) * d < d \<longleftrightarrow> ?n - (q - 1) * ?d < ?d"
    unfolding word_less_nat_alt by (simp only: unat_of_nat_below)
  have "(if ?n - (q - 1) * ?d < ?d then q - 1 else q) = ?n div ?d"
    using q
  proof
    assume q: "q = ?n div ?d + 1"
    then have "?n - (q - 1) * ?d = ?n mod ?d" by (simp add: minus_div_mult_eq_mod)
    then show ?thesis using q split(2) by simp
  next
    assume q: "q = ?n div ?d"
    then have "(q - 1) * ?d + ?d = ?n div ?d * ?d" using pred by (simp only:)
    then have "?d \<le> ?n - (q - 1) * ?d" using split(1) by linarith
    then show ?thesis using q by simp
  qed
  then have "(if n - (?q - 1) * d < d then ?q - 1 else ?q) = of_nat (?n div ?d)"
    using qm by (subst test) (auto split: if_splits)
  then show ?thesis using word_eq_of_nat [OF unat_div_distrib, of n d] by simp
qed

lemma udiv64_wide:
  assumes d: "drop_bit 32 d \<noteq> 0" and n: "d \<le> n"
  shows "udiv64 n d = Some (n div d)"
proof -
  let ?n = "unat n" and ?d = "unat d"
  define s where "s = nlz (ucast (drop_bit 32 d))"
  note z = nlz_normalises [OF d, folded s_def]
  have nlt: "?n < 2 ^ 64" using unsigned_less [of n] by simp
  define v where "v = ?d * 2 ^ s div 2 ^ 32"
  let ?v = "ucast (drop_bit 32 (push_bit s d)) :: u32"
  have "unat (push_bit s d) = ?d * 2 ^ s" using z(2) unat_push_bit_small [of d s] by simp
  then have v: "unat ?v = v" using z(2) by (simp add: unat_ucast_32 unat_drop_bit v_def)
  have v31: "2 ^ 31 \<le> v" unfolding v_def using z(1) by (simp add: less_eq_div_iff_mult_less_eq)
  then have vnz: "?v \<noteq> 0" using v by (metis unsigned_0 le_zero_eq power_not_zero zero_neq_numeral)
  have "?n div 2 < 2 ^ 32 * v" using nlt v31 by simp
  then have q32: "?n div 2 div v < 2 ^ 32" by (simp add: less_mult_imp_div_less)
  define q where "q = ?n div 2 div v div 2 ^ (31 - s)"
  have qq: "q = ?n div ?d \<or> q = ?n div ?d + 1"
    unfolding q_def using quotient_estimate [OF nlt z(3) z(1,2) v_def] .
  let ?q = "of_nat q :: u64"
  have "divl (drop_bit 1 n) ?v = Some (of_nat (?n div 2 div v))"
    using vnz q32 v unat_drop_bit [of 1 n] by (simp add: divl_def)
  moreover have "(ucast (drop_bit (31 - s) (of_nat (?n div 2 div v) :: u32)) :: u64) = ?q"
    using q32 unat_of_nat_below [of "?n div 2 div v", where 'a = 32]
    by (intro word_eq_of_nat) (simp add: unat_ucast_64 unat_drop_bit q_def)
  moreover have "\<not> n < d" using n by (simp add: not_less)
  ultimately have "udiv64 n d = Some (if n - (?q - 1) * d < d then ?q - 1 else ?q)"
    using d by (simp add: udiv64_def Let_def s_def [symmetric])
  moreover have "0 < ?d" using z(1) by (cases "?d = 0") simp_all
  ultimately show ?thesis
    using quotient_correction [OF qq] n by (simp only: word_le_nat_alt)
qed

lemma udiv64_eq:
  assumes "d \<noteq> 0"
  shows "udiv64 n d = Some (n div d)"
proof (cases "drop_bit 32 d = 0 \<or> d \<le> n")
  case True
  then show ?thesis using udiv64_narrow [OF assms] udiv64_wide by blast
next
  case False
  then have "unat n < unat d" by (simp add: not_le word_less_nat_alt)
  then have "n div d = 0" by (simp add: word_unat_eq_iff unat_div_distrib)
  then show ?thesis using False by (simp add: udiv64_def not_le)
qed

text \<open>Signed division truncates towards zero.\<close>

lemma uint_abs_word: "uint (if 0 \<le> sint x then x else - x) = \<bar>sint x\<bar>" for x :: s64
proof -
  have r: "- (2 ^ 63) \<le> sint x" "sint x < 2 ^ 63"
    using sint_greater_eq [of x] sint_less [of x] by simp_all
  have "x = word_of_int (sint x)" by simp
  then have "- x = word_of_int (- sint x)" by (metis wi_hom_neg)
  moreover have "uint (word_of_int k :: s64) = k mod 2 ^ 64" for k
    by (simp add: unsigned_of_int take_bit_eq_mod)
  ultimately have "uint (- x) = - sint x mod 2 ^ 64" "uint x = sint x mod 2 ^ 64"
    using \<open>x = word_of_int (sint x)\<close> by metis+
  then show ?thesis using r by (auto simp: abs_if mod_pos_pos_trivial)
qed

lemma sdiv_cases: "k sdiv l = (if (k < 0) = (l < 0) then \<bar>k\<bar> div \<bar>l\<bar> else - (\<bar>k\<bar> div \<bar>l\<bar>))" for k l :: int
  by (simp add: signed_divide_int_def sgn_if)

lemma sdiv64_eq:
  assumes "d \<noteq> 0"
  shows "sdiv64 n d = Some (word_of_int (sint n sdiv sint d))"
proof -
  let ?n = "if 0 \<le> sint n then n else - n" and ?d = "if 0 \<le> sint d then d else - d"
  have "?d \<noteq> 0" using assms by auto
  then have q: "udiv64 ?n ?d = Some (?n div ?d)" by (rule udiv64_eq)
  have "?n div ?d = word_of_int (\<bar>sint n\<bar> div \<bar>sint d\<bar>)"
    unfolding uint_abs_word [symmetric] by (simp only: word_div_def)
  with q have "udiv64 ?n ?d = Some (word_of_int (\<bar>sint n\<bar> div \<bar>sint d\<bar>))" by (simp only:)
  then have "sdiv64 n d = Some (if (sint n < 0) = (sint d < 0) then word_of_int (\<bar>sint n\<bar> div \<bar>sint d\<bar>)
      else - word_of_int (\<bar>sint n\<bar> div \<bar>sint d\<bar>))"
    unfolding sdiv64_def Let_def by (simp only: bind.bind_lunit)
  then show ?thesis unfolding sdiv_cases by (simp split: if_splits)
qed

section \<open>Properties\<close>

text \<open>
  C11: unsigned 64-bit division by a nonzero divisor returns the exact quotient; the 32-bit divide
  instruction it uses never traps.
\<close>

theorem udivdi3_correct:
  assumes "d \<noteq> 0"
  shows "udivdi3 n d = Some (n div d)"
  using udiv64_eq [OF assms] by (simp add: udivdi3_def)

theorem udivdi3_correct_witness:
  "udivdi3 18446744073709551615 4294967297 = Some (18446744073709551615 div 4294967297)"
  using udivdi3_correct [of 4294967297 18446744073709551615] by simp

text \<open>
  signed 64-bit division by a nonzero divisor truncates the quotient towards zero; the one
  quotient that is not representable wraps around.
\<close>

theorem divdi3_correct:
  assumes "d \<noteq> 0"
  shows "divdi3 n d = Some (word_of_int (sint n sdiv sint d))"
  using sdiv64_eq [OF assms] by (simp add: divdi3_def)

theorem divdi3_correct_witness: "divdi3 (- 7) 2 = Some (word_of_int (sint (- 7 :: s64) sdiv sint (2 :: s64)))"
  using divdi3_correct [of 2 "- 7"] by simp

text \<open>
  C26: the unsigned 64-bit remainder is correct exactly when it fits in 32 bits, because \<^verbatim>\<open>umod64\<close>
  returns a 32-bit value; larger remainders lose their upper half.
\<close>

theorem umoddi3_truncates:
  assumes "d \<noteq> 0"
  shows "umoddi3 n d = Some (n mod d) \<longleftrightarrow> unat (n mod d) < 2 ^ 32"
proof -
  have "n - d * (n div d) = n mod d" by (rule minus_mult_div_eq_mod)
  then have "umoddi3 n d = Some (ucast (ucast (n mod d) :: u32))"
    using udiv64_eq [OF assms] by (simp add: umoddi3_def umod64_def)
  moreover have "unat (ucast (ucast (n mod d) :: u32) :: u64) = unat (n mod d) mod 2 ^ 32"
    by (simp only: unat_ucast_64 unat_ucast_32)
  ultimately show ?thesis by (auto simp: word_unat_eq_iff mod_eq_nat1E)
qed

theorem umoddi3_truncates_witness: "umoddi3 4294967296 8589934592 \<noteq> Some (4294967296 mod 8589934592)"
  using umoddi3_truncates [of 8589934592 4294967296] by simp

end
