(* ===== verification/Stdlib.thy ===== *)
theory Stdlib
  imports Cstring
begin

text \<open>
  The general utilities of \<^verbatim>\<open>lib/stdlib.c\<close>: number parsing, heap sort and binary search. An array of
  \<^verbatim>\<open>cnt\<close> elements of \<^verbatim>\<open>size\<close> bytes is the list of its bytes, as the code treats it; elements are
  numbered from 1 in the heap, as in the code. A comparison function sees the bytes of two elements.
  Sorting is shown for every comparison function that satisfies the contract stated in the comments
  (locale \<open>comparator\<close>), binary search for every array sorted by one. An array lies in the 32-bit
  address space below \<^verbatim>\<open>PHYS_BASE\<close> or above it, so that the index \<open>2 * i + 1\<close> does not wrap.
\<close>

section \<open>Parsing\<close>

text \<open>\<^verbatim>\<open>lib/ctype.h\<close>\<close>

definition isspace :: "u8 \<Rightarrow> bool" where
  "isspace c \<longleftrightarrow> c = 32 \<or> c = 12 \<or> c = 10 \<or> c = 13 \<or> c = 9 \<or> c = 11"

definition isdigit :: "u8 \<Rightarrow> bool" where
  "isdigit c \<longleftrightarrow> 48 \<le> c \<and> c \<le> 57"

partial_function (option) skip_spaces :: "memory \<Rightarrow> addr \<Rightarrow> addr option" where
  "skip_spaces m s = (if isspace (m s) then skip_spaces m (s + 1) else Some s)"

text \<open>\<open>value = value * 10 - (*s - '0')\<close>; the value wraps around in 32 bits.\<close>

partial_function (option) atoi_digits :: "memory \<Rightarrow> addr \<Rightarrow> u32 \<Rightarrow> u32 option" where
  "atoi_digits m s val =
     (if isdigit (m s) then atoi_digits m (s + 1) (val * 10 - (ucast (m s) - 48)) else Some val)"

definition atoi :: "memory \<Rightarrow> addr \<Rightarrow> int option" where
  "atoi m s = do {
     ASSERT (s \<noteq> NULL);
     s \<leftarrow> skip_spaces m s;
     let negative = (m s = 45);
     let s = (if m s = 43 \<or> m s = 45 then s + 1 else s);
     val \<leftarrow> atoi_digits m s 0;
     Some (sint (if negative then val else - val)) }"

section \<open>Heap sort\<close>

type_synonym compare_func = "bytes \<Rightarrow> bytes \<Rightarrow> int"

text \<open>The element with 1-based index \<open>i\<close>.\<close>

definition elem_at :: "bytes \<Rightarrow> nat \<Rightarrow> nat \<Rightarrow> bytes" where
  "elem_at array sz i = take sz (drop ((i - 1) * sz) array)"

fun swap_bytes :: "bytes \<Rightarrow> nat \<Rightarrow> nat \<Rightarrow> nat \<Rightarrow> bytes" where
  "swap_bytes array a b 0 = array"
| "swap_bytes array a b (Suc k) = swap_bytes (array[a := array ! b, b := array ! a]) (a + 1) (b + 1) k"

definition do_swap :: "bytes \<Rightarrow> nat \<Rightarrow> nat \<Rightarrow> nat \<Rightarrow> bytes" where
  "do_swap array a_idx b_idx sz = swap_bytes array ((a_idx - 1) * sz) ((b_idx - 1) * sz) sz"

definition do_compare :: "compare_func \<Rightarrow> bytes \<Rightarrow> nat \<Rightarrow> nat \<Rightarrow> nat \<Rightarrow> int" where
  "do_compare compare array a_idx b_idx sz = compare (elem_at array sz a_idx) (elem_at array sz b_idx)"

text \<open>The index of the largest element among \<open>i\<close> and its children.\<close>

definition heap_max :: "compare_func \<Rightarrow> bytes \<Rightarrow> nat \<Rightarrow> nat \<Rightarrow> nat \<Rightarrow> nat" where
  "heap_max compare array i cnt sz =
     (let m = (if 2 * i \<le> cnt \<and> do_compare compare array (2 * i) i sz > 0 then 2 * i else i)
      in if 2 * i + 1 \<le> cnt \<and> do_compare compare array (2 * i + 1) m sz > 0 then 2 * i + 1 else m)"

lemma heap_max_cases:
  "heap_max compare array i cnt sz = i \<or>
   (heap_max compare array i cnt sz \<in> {2 * i, 2 * i + 1} \<and> heap_max compare array i cnt sz \<le> cnt)"
  by (auto simp: heap_max_def Let_def)

function heapify :: "compare_func \<Rightarrow> bytes \<Rightarrow> nat \<Rightarrow> nat \<Rightarrow> nat \<Rightarrow> bytes" where
  "heapify compare array i cnt sz =
     (let m = heap_max compare array i cnt sz
      in if m = i then array else heapify compare (do_swap array i m sz) m cnt sz)"
  by pat_completeness auto
termination
proof (relation "measure (\<lambda>(compare, array, i, cnt, sz). cnt + 1 - i)", goal_cases)
  case (2 compare array i cnt sz m)
  then show ?case using heap_max_cases [of compare array i cnt sz] by auto
qed simp

declare heapify.simps [simp del]

fun build_heap :: "compare_func \<Rightarrow> bytes \<Rightarrow> nat \<Rightarrow> nat \<Rightarrow> nat \<Rightarrow> bytes" where
  "build_heap compare array 0 cnt sz = array"
| "build_heap compare array (Suc i) cnt sz = build_heap compare (heapify compare array (Suc i) cnt sz) i cnt sz"

fun sort_heap :: "compare_func \<Rightarrow> bytes \<Rightarrow> nat \<Rightarrow> nat \<Rightarrow> bytes" where
  "sort_heap compare array i sz =
     (if i > 1 then sort_heap compare (heapify compare (do_swap array 1 i sz) 1 (i - 1) sz) (i - 1) sz
      else array)"

declare sort_heap.simps [simp del]

definition sort_array :: "bytes \<Rightarrow> nat \<Rightarrow> nat \<Rightarrow> compare_func \<Rightarrow> bytes option" where
  "sort_array array cnt sz compare = do {
     ASSERT (sz > 0);
     Some (sort_heap compare (build_heap compare array (cnt div 2) cnt sz) cnt sz) }"

definition qsort :: "bytes \<Rightarrow> nat \<Rightarrow> nat \<Rightarrow> compare_func \<Rightarrow> bytes option" where
  "qsort array cnt sz compare = sort_array array cnt sz compare"

section \<open>Binary search\<close>

text \<open>Positions are byte offsets into the array; the result is the offset of a match.\<close>

lemma middle_less: "lo < hi \<Longrightarrow> (hi - lo) div sz div 2 * sz < (hi - lo :: nat)"
proof -
  assume "lo < hi"
  have "(hi - lo) div sz div 2 * sz = (hi - lo) div 2 div sz * sz" by (metis div_mult2_eq mult.commute)
  also have "\<dots> \<le> (hi - lo) div 2" by simp
  also have "\<dots> < hi - lo" using \<open>lo < hi\<close> by simp
  finally show ?thesis .
qed

function binary_search_loop :: "compare_func \<Rightarrow> bytes \<Rightarrow> bytes \<Rightarrow> nat \<Rightarrow> nat \<Rightarrow> nat \<Rightarrow> nat option" where
  "binary_search_loop compare key array lo hi sz =
     (if lo < hi \<and> sz > 0 then
        let range = (hi - lo) div sz;
            middle = lo + range div 2 * sz;
            cmp = compare key (take sz (drop middle array))
        in if cmp < 0 then binary_search_loop compare key array lo middle sz
           else if cmp > 0 then binary_search_loop compare key array (middle + sz) hi sz
           else Some middle
      else None)"
  by pat_completeness auto

termination
proof (relation "measure (\<lambda>(compare, key, array, lo, hi, sz). hi - lo)", goal_cases)
  case 1
  show ?case by simp
next
  case (2 compare key array lo hi sz range middle cmp)
  then show ?case using middle_less [of lo hi sz] by (simp del: div_mult_self_is_m)
next
  case (3 compare key array lo hi sz range middle cmp)
  then have "lo < middle + sz" by simp
  then show ?case using 3(1) by (auto intro: diff_less_mono2)
qed

declare binary_search_loop.simps [simp del]

definition binary_search :: "bytes \<Rightarrow> bytes \<Rightarrow> nat \<Rightarrow> nat \<Rightarrow> compare_func \<Rightarrow> nat option" where
  "binary_search key array cnt sz compare = binary_search_loop compare key array 0 (sz * cnt) sz"

definition bsearch :: "bytes \<Rightarrow> bytes \<Rightarrow> nat \<Rightarrow> nat \<Rightarrow> compare_func \<Rightarrow> nat option" where
  "bsearch key array cnt sz compare = binary_search key array cnt sz compare"

section \<open>Arrays of elements\<close>

definition elems :: "bytes \<Rightarrow> nat \<Rightarrow> nat \<Rightarrow> bytes list" where
  "elems array cnt sz = map (elem_at array sz) [1..<Suc cnt]"

lemma length_swap_bytes [simp]: "length (swap_bytes array a b k) = length array"
  by (induction k arbitrary: array a b) simp_all

lemma length_do_swap [simp]: "length (do_swap array a b sz) = length array"
  by (simp add: do_swap_def)

lemma nth_swap_bytes_all:
  assumes "a + k \<le> length array" "b + k \<le> length array" "a + k \<le> b \<or> b + k \<le> a"
  shows "(\<forall>t < k. swap_bytes array a b k ! (a + t) = array ! (b + t)) \<and> (\<forall>t < k. swap_bytes array a b k ! (b + t) = array ! (a + t))
    \<and> (\<forall>i. (i < a \<or> a + k \<le> i) \<and> (i < b \<or> b + k \<le> i) \<longrightarrow> swap_bytes array a b k ! i = array ! i)"
  using assms
proof (induction k arbitrary: array a b)
  case (Suc k)
  let ?x = "array[a := array ! b, b := array ! a]"
  let ?y = "swap_bytes ?x (a + 1) (b + 1) k"
  have pre: "a + 1 + k \<le> length ?x" "b + 1 + k \<le> length ?x" "a + 1 + k \<le> b + 1 \<or> b + 1 + k \<le> a + 1"
    using Suc.prems by auto
  have ab: "a \<noteq> b" "a < length array" "b < length array" using Suc.prems by auto
  have x: "?x ! a = array ! b" "?x ! b = array ! a" "\<And>i. i \<noteq> a \<Longrightarrow> i \<noteq> b \<Longrightarrow> ?x ! i = array ! i" using ab by simp_all
  have y: "\<And>u. u < k \<Longrightarrow> ?y ! (a + 1 + u) = ?x ! (b + 1 + u)" "\<And>u. u < k \<Longrightarrow> ?y ! (b + 1 + u) = ?x ! (a + 1 + u)"
    "\<And>i. i < a + 1 \<or> a + 1 + k \<le> i \<Longrightarrow> i < b + 1 \<or> b + 1 + k \<le> i \<Longrightarrow> ?y ! i = ?x ! i"
    using Suc.IH [OF pre] by blast+
  have "?y ! a = array ! b" "?y ! b = array ! a" using y(3) [of a] y(3) [of b] x(1,2) Suc.prems by auto
  moreover have "?y ! (a + Suc u) = array ! (b + Suc u)" "?y ! (b + Suc u) = array ! (a + Suc u)" if "u < k" for u
    using y(1,2) [OF that] x(3) [of "b + 1 + u"] x(3) [of "a + 1 + u"] that Suc.prems by auto
  moreover have "?y ! i = array ! i" if "i < a \<or> a + Suc k \<le> i" "i < b \<or> b + Suc k \<le> i" for i
    using y(3) [of i] x(3) [of i] that by auto
  ultimately show ?case by (auto simp: All_less_Suc2)
qed simp

lemma nth_swap_bytes:
  assumes "a + k \<le> length array" "b + k \<le> length array" "a + k \<le> b \<or> b + k \<le> a"
  shows "t < k \<Longrightarrow> swap_bytes array a b k ! (a + t) = array ! (b + t)"
    and "t < k \<Longrightarrow> swap_bytes array a b k ! (b + t) = array ! (a + t)"
    and "i < a \<or> a + k \<le> i \<Longrightarrow> i < b \<or> b + k \<le> i \<Longrightarrow> swap_bytes array a b k ! i = array ! i"
  using nth_swap_bytes_all [OF assms] by blast+

lemma elem_bound: "j \<le> cnt \<Longrightarrow> 1 \<le> j \<Longrightarrow> (j - 1) * sz + sz \<le> cnt * sz" for j :: nat
proof -
  assume "j \<le> cnt" "1 \<le> j"
  then have "(j - 1) * sz + sz = j * sz" by (cases j) simp_all
  also have "\<dots> \<le> cnt * sz" using \<open>j \<le> cnt\<close> by simp
  finally show ?thesis .
qed

lemma elem_disjoint: "1 \<le> a \<Longrightarrow> a < b \<Longrightarrow> (a - 1) * sz + sz \<le> (b - 1) * sz" for a :: nat
  using elem_bound [of a "b - 1" sz] by simp

lemma length_elem_at: "length array = cnt * sz \<Longrightarrow> 1 \<le> j \<Longrightarrow> j \<le> cnt \<Longrightarrow> length (elem_at array sz j) = sz"
  using elem_bound [of j cnt sz] by (simp add: elem_at_def)

lemma nth_elem_at:
  "length array = cnt * sz \<Longrightarrow> 1 \<le> j \<Longrightarrow> j \<le> cnt \<Longrightarrow> i < sz \<Longrightarrow> elem_at array sz j ! i = array ! ((j - 1) * sz + i)"
  using elem_bound [of j cnt sz] by (simp add: elem_at_def)

lemma elem_at_do_swap:
  assumes len: "length array = cnt * sz" and a: "1 \<le> a" "a \<le> cnt" and b: "1 \<le> b" "b \<le> cnt" and j: "1 \<le> j" "j \<le> cnt"
    and "a \<noteq> b"
  shows "elem_at (do_swap array a b sz) sz j = elem_at array sz (if j = a then b else if j = b then a else j)"
proof -
  have len': "length (do_swap array a b sz) = cnt * sz" using len by simp
  have sep: "(a - 1) * sz + sz \<le> (b - 1) * sz \<or> (b - 1) * sz + sz \<le> (a - 1) * sz"
    using elem_disjoint [of a b sz] elem_disjoint [of b a sz] a(1) b(1) \<open>a \<noteq> b\<close> by linarith
  note swap = nth_swap_bytes [of "(a - 1) * sz" sz array "(b - 1) * sz", OF _ _ sep]
    elem_bound [OF a(2,1), of sz, folded len] elem_bound [OF b(2,1), of sz, folded len]
  have eqI: "elem_at (do_swap array a b sz) sz j = elem_at array sz k"
    if k: "1 \<le> k" "k \<le> cnt" "\<And>i. i < sz \<Longrightarrow> swap_bytes array ((a - 1) * sz) ((b - 1) * sz) sz ! ((j - 1) * sz + i) = array ! ((k - 1) * sz + i)" for k
    by (rule nth_equalityI)
      (use k len len' j length_elem_at [OF len' j] length_elem_at [OF len k(1,2)] nth_elem_at [OF len' j] nth_elem_at [OF len k(1,2)]
        in \<open>simp_all add: do_swap_def\<close>)
  consider "j = a" | "j = b" | "j \<noteq> a" "j \<noteq> b" by blast
  then show ?thesis
  proof cases
    case 3
    have out: "(j - 1) * sz + i < (c - 1) * sz \<or> (c - 1) * sz + sz \<le> (j - 1) * sz + i" if "i < sz" "c \<noteq> j" "1 \<le> c" for c i
      using elem_disjoint [of c j sz] elem_disjoint [of j c sz] that j(1) by linarith
    show ?thesis using 3 eqI [OF j] swap(3) [OF swap(4,5)] out a(1) b(1) by simp
  qed (use eqI a b swap \<open>a \<noteq> b\<close> in auto)
qed

lemma nth_elems [simp]: "i < cnt \<Longrightarrow> elems array cnt sz ! i = elem_at array sz (i + 1)"
  by (simp add: elems_def del: upt_Suc)

lemma length_elems [simp]: "length (elems array cnt sz) = cnt"
  by (simp add: elems_def)

lemma mset_do_swap:
  assumes len: "length array = cnt * sz" and a: "1 \<le> a" "a \<le> cnt" and b: "1 \<le> b" "b \<le> cnt" and ab: "a \<noteq> b"
  shows "mset (elems (do_swap array a b sz) cnt sz) = mset (elems array cnt sz)"
proof -
  let ?es = "elems array cnt sz"
  have ij: "a - 1 < length ?es" "b - 1 < length ?es" using a b by simp_all
  have "elems (do_swap array a b sz) cnt sz = ?es[b - 1 := ?es ! (a - 1), a - 1 := ?es ! (b - 1)]"
  proof (rule nth_equalityI)
    fix i
    assume i: "i < length (elems (do_swap array a b sz) cnt sz)"
    have "a - 1 = i \<longleftrightarrow> a = i + 1" "b - 1 = i \<longleftrightarrow> b = i + 1" using a b by auto
    then show "elems (do_swap array a b sz) cnt sz ! i = ?es[b - 1 := ?es ! (a - 1), a - 1 := ?es ! (b - 1)] ! i"
      using i elem_at_do_swap [OF len a b _ _ ab, of "i + 1"] a b ab by (auto simp: nth_list_update)
  qed simp
  then show ?thesis using mset_swap [OF ij] by simp
qed

lemma binary_search_step:
  assumes "0 < sz" and "lo < hi"
  defines "m \<equiv> lo + (hi - lo) div 2"
  shows "binary_search_loop compare key array (lo * sz) (hi * sz) sz =
    (if compare key (take sz (drop (m * sz) array)) < 0 then binary_search_loop compare key array (lo * sz) (m * sz) sz
     else if compare key (take sz (drop (m * sz) array)) > 0 then binary_search_loop compare key array ((m + 1) * sz) (hi * sz) sz
     else Some (m * sz))"
proof -
  have "(hi * sz - lo * sz) div sz = hi - lo" using assms(1) unfolding diff_mult_distrib [symmetric] by simp
  then have mid: "lo * sz + (hi * sz - lo * sz) div sz div 2 * sz = m * sz" by (simp only: m_def add_mult_distrib)
  have lt: "lo * sz < hi * sz" using assms(1,2) by simp
  show ?thesis
    using lt assms(1) by (subst binary_search_loop.simps) (simp only: Let_def mid if_True simp_thms add_mult_distrib mult_1)
qed

section \<open>Correctness of the heap\<close>

text \<open>The contract of a comparison function.\<close>

locale comparator =
  fixes compare :: compare_func
  assumes compare_sign: "compare a b > 0 \<longleftrightarrow> compare b a < 0"
    and compare_trans: "compare a b \<le> 0 \<Longrightarrow> compare b c \<le> 0 \<Longrightarrow> compare a c \<le> 0"
begin

lemma compare_refl: "compare a a \<le> 0"
  using compare_sign [of a a] by linarith

lemma compare_total: "\<not> compare a b \<le> 0 \<Longrightarrow> compare b a \<le> 0"
  using compare_sign [of a b] by linarith

text \<open>Every element of the first \<open>n\<close> is at most its parent, for parents from \<open>k\<close> on.\<close>

definition heap_ok :: "(nat \<Rightarrow> bytes) \<Rightarrow> nat \<Rightarrow> nat \<Rightarrow> bool" where
  "heap_ok e k n \<longleftrightarrow> (\<forall>c. 2 \<le> c \<and> c \<le> n \<and> k \<le> c div 2 \<longrightarrow> compare (e c) (e (c div 2)) \<le> 0)"

text \<open>The same except for the children of \<open>i\<close>, which are at most the parent of \<open>i\<close>.\<close>

definition heap_but :: "(nat \<Rightarrow> bytes) \<Rightarrow> nat \<Rightarrow> nat \<Rightarrow> nat \<Rightarrow> bool" where
  "heap_but e i k n \<longleftrightarrow>
     (\<forall>c. 2 \<le> c \<and> c \<le> n \<and> k \<le> c div 2 \<and> c div 2 \<noteq> i \<longrightarrow> compare (e c) (e (c div 2)) \<le> 0)
   \<and> (\<forall>c. 2 \<le> c \<and> c \<le> n \<and> c div 2 = i \<and> k \<le> i div 2 \<longrightarrow> compare (e c) (e (i div 2)) \<le> 0)"

lemma heap_max_spec:
  fixes array i n sz
  defines "m \<equiv> heap_max compare array i n sz" and "e \<equiv> elem_at array sz"
  shows "compare (e i) (e m) \<le> 0" "c \<le> n \<Longrightarrow> c div 2 = i \<Longrightarrow> compare (e c) (e m) \<le> 0"
proof -
  let ?l = "if 2 * i \<le> n \<and> compare (e (2 * i)) (e i) > 0 then 2 * i else i"
  have m: "m = (if 2 * i + 1 \<le> n \<and> compare (e (2 * i + 1)) (e ?l) > 0 then 2 * i + 1 else ?l)"
    unfolding m_def e_def heap_max_def do_compare_def Let_def by simp
  have l: "compare (e i) (e ?l) \<le> 0" "2 * i \<le> n \<Longrightarrow> compare (e (2 * i)) (e ?l) \<le> 0"
    using compare_refl compare_sign [of "e (2 * i)" "e i"] by (auto simp flip: not_less)
  have up: "compare (e ?l) (e m) \<le> 0" "2 * i + 1 \<le> n \<Longrightarrow> compare (e (2 * i + 1)) (e m) \<le> 0"
    unfolding m using compare_refl compare_sign [of "e (2 * i + 1)" "e ?l"] by (auto simp flip: not_less)
  show "compare (e i) (e m) \<le> 0" using compare_trans [OF l(1) up(1)] .
  assume c: "c \<le> n" "c div 2 = i"
  then consider "c = 2 * i" | "c = 2 * i + 1" by linarith
  then show "compare (e c) (e m) \<le> 0"
    using c(1) up(2) compare_trans [OF l(2) up(1)] by cases simp_all
qed

lemma heap_but_swap:
  assumes e': "e' = (\<lambda>j. e (if j = i then m else if j = m then i else j))"
    and but: "heap_but e i k n" and i: "1 \<le> i" "k \<le> i" and m: "m div 2 = i" "m \<le> n"
    and big: "compare (e i) (e m) \<le> 0" "\<And>c. c \<le> n \<Longrightarrow> c div 2 = i \<Longrightarrow> compare (e c) (e m) \<le> 0"
  shows "heap_but e' m k n"
proof -
  have mi: "m \<noteq> i" "2 \<le> m" "i < m" using m i by auto
  show ?thesis
    unfolding heap_but_def
  proof (intro conjI allI impI; elim conjE)
    fix c
    assume c: "2 \<le> c" "c \<le> n" "k \<le> c div 2" "c div 2 \<noteq> m"
    consider (child) "c div 2 = i" "c \<noteq> i" | (self) "c = i" "c div 2 \<noteq> i" | (other) "c div 2 \<noteq> i" "c \<noteq> i" "c \<noteq> m"
      using m(1) c(1) by fastforce
    then show "compare (e' c) (e' (c div 2)) \<le> 0"
    proof cases
      case child
      then show ?thesis using big c(2) by (simp add: e')
    next
      case self
      then have "compare (e m) (e (i div 2)) \<le> 0" using but m mi c unfolding heap_but_def by blast
      then show ?thesis using self c(4) by (simp add: e')
    next
      case other
      then have "compare (e c) (e (c div 2)) \<le> 0" using but c unfolding heap_but_def by blast
      then show ?thesis using other c(4) by (simp add: e')
    qed
  next
    fix c
    assume c: "2 \<le> c" "c \<le> n" "c div 2 = m" "k \<le> m div 2"
    then have "compare (e c) (e m) \<le> 0" using but mi i(2) unfolding heap_but_def by fastforce
    moreover have "c \<noteq> i" "c \<noteq> m" using c mi by auto
    ultimately show "compare (e' c) (e' (m div 2)) \<le> 0" using m mi by (simp add: e')
  qed
qed

lemma heap_but_cong:
  assumes "\<And>j. 1 \<le> j \<Longrightarrow> j \<le> n \<Longrightarrow> e' j = e j" and "1 \<le> k"
  shows "heap_but e' i k n = heap_but e i k n"
proof -
  have eq: "e' c = e c" "e' (c div 2) = e (c div 2)" "1 \<le> c div 2 div 2 \<Longrightarrow> e' (c div 2 div 2) = e (c div 2 div 2)"
    if "2 \<le> c" "c \<le> n" for c
  proof -
    have "1 \<le> c" "1 \<le> c div 2" "c div 2 \<le> n" "c div 2 div 2 \<le> n" using that by linarith+
    then show "e' c = e c" "e' (c div 2) = e (c div 2)" "1 \<le> c div 2 div 2 \<Longrightarrow> e' (c div 2 div 2) = e (c div 2 div 2)"
      using assms(1) that by blast+
  qed
  have "(2 \<le> c \<and> c \<le> n \<and> k \<le> c div 2 \<and> c div 2 \<noteq> i \<longrightarrow> compare (e' c) (e' (c div 2)) \<le> 0)
      = (2 \<le> c \<and> c \<le> n \<and> k \<le> c div 2 \<and> c div 2 \<noteq> i \<longrightarrow> compare (e c) (e (c div 2)) \<le> 0)" for c
    using eq [of c] by (cases "2 \<le> c \<and> c \<le> n") auto
  moreover have "(2 \<le> c \<and> c \<le> n \<and> c div 2 = i \<and> k \<le> i div 2 \<longrightarrow> compare (e' c) (e' (i div 2)) \<le> 0)
      = (2 \<le> c \<and> c \<le> n \<and> c div 2 = i \<and> k \<le> i div 2 \<longrightarrow> compare (e c) (e (i div 2)) \<le> 0)" for c
    using eq [of c] assms(2) by (cases "2 \<le> c \<and> c \<le> n \<and> c div 2 = i \<and> k \<le> i div 2") auto
  ultimately show ?thesis unfolding heap_but_def by (simp only:)
qed

lemma heapify_spec:
  assumes "length array = cnt * sz" and "1 \<le> k" "k \<le> i" "n \<le> cnt" and "heap_but (elem_at array sz) i k n"
  defines "array' \<equiv> heapify compare array i n sz"
  shows "length array' = length array \<and> heap_ok (elem_at array' sz) k n
    \<and> mset (elems array' cnt sz) = mset (elems array cnt sz)
    \<and> (\<forall>j. n < j \<and> j \<le> cnt \<longrightarrow> elem_at array' sz j = elem_at array sz j)
    \<and> (\<forall>j. 1 \<le> j \<and> j \<le> n \<longrightarrow> (\<exists>j'. 1 \<le> j' \<and> j' \<le> n \<and> elem_at array' sz j = elem_at array sz j'))"
  using assms(1-5) unfolding array'_def
proof (induction "n + 1 - i" arbitrary: array i rule: less_induct)
  case less
  let ?m = "heap_max compare array i n sz" and ?e = "elem_at array sz"
  note max = heap_max_spec [where array = array and i = i and n = n and sz = sz]
  show ?case
  proof (cases "?m = i")
    case True
    then have "heapify compare array i n sz = array" by (subst heapify.simps) simp
    moreover have "heap_ok ?e k n"
      using less.prems(5) max(2) True unfolding heap_ok_def heap_but_def by metis
    ultimately show ?thesis by auto
  next
    case False
    then have m: "?m div 2 = i" "?m \<le> n" "1 \<le> i" "i < ?m"
      using heap_max_cases [of compare array i n sz] less.prems(2,3) by auto
    let ?a = "do_swap array i ?m sz"
    have le: "i \<le> cnt" "1 \<le> ?m" "?m \<le> cnt" "i \<le> n" using m less.prems(4) by auto
    have at: "elem_at ?a sz j = ?e (if j = i then ?m else if j = ?m then i else j)" if "1 \<le> j" "j \<le> cnt" for j
      using elem_at_do_swap [OF less.prems(1) m(3) le(1,2,3) that] False by auto
    have "heap_but (\<lambda>j. ?e (if j = i then ?m else if j = ?m then i else j)) ?m k n"
      by (rule heap_but_swap [OF refl less.prems(5) m(3) less.prems(3) m(1,2) max(1)]) (rule max(2))
    then have but: "heap_but (elem_at ?a sz) ?m k n"
      using at less.prems(2,4) by (subst heap_but_cong [where e = "\<lambda>j. ?e (if j = i then ?m else if j = ?m then i else j)"]) auto
    have len: "length ?a = cnt * sz" using less.prems(1) by simp
    have "n + 1 - ?m < n + 1 - i" using m by linarith
    note IH = less.hyps [OF this len less.prems(2) _ less.prems(4) but]
    have "k \<le> ?m" using m less.prems(3) by linarith
    note IH = IH [OF this]
    have step: "heapify compare array i n sz = heapify compare ?a ?m n sz" using False by (subst heapify.simps) (simp add: Let_def)
    have ms: "mset (elems ?a cnt sz) = mset (elems array cnt sz)"
      using mset_do_swap [OF less.prems(1) m(3) le(1,2,3)] False by auto
    have up: "elem_at ?a sz j = ?e j" if "n < j" "j \<le> cnt" for j using at [of j] that m le by auto
    have down: "\<exists>j'. 1 \<le> j' \<and> j' \<le> n \<and> elem_at ?a sz j = ?e j'" if "1 \<le> j" "j \<le> n" for j
      using at [of j] that m le less.prems(4) by (intro exI [of _ "if j = i then ?m else if j = ?m then i else j"]) auto
    show ?thesis unfolding step using IH ms up down by (metis length_do_swap)
  qed
qed

lemma heap_ok_but: "heap_ok e (i + 1) n \<Longrightarrow> heap_but e i i n"
  unfolding heap_ok_def heap_but_def by fastforce

lemma build_heap_spec:
  assumes "length array = cnt * sz" and "heap_ok (elem_at array sz) (i + 1) cnt"
  defines "array' \<equiv> build_heap compare array i cnt sz"
  shows "length array' = length array \<and> heap_ok (elem_at array' sz) 1 cnt
    \<and> mset (elems array' cnt sz) = mset (elems array cnt sz)"
  using assms(1,2) unfolding array'_def
proof (induction i arbitrary: array)
  case (Suc i)
  let ?a = "heapify compare array (Suc i) cnt sz"
  have h: "length ?a = length array" "heap_ok (elem_at ?a sz) (i + 1) cnt" "mset (elems ?a cnt sz) = mset (elems array cnt sz)"
    using heapify_spec [OF Suc.prems(1) _ order.refl order.refl heap_ok_but [OF Suc.prems(2)]] by simp_all
  then show ?case using Suc.IH [of ?a] Suc.prems(1) by simp
qed simp

lemma heap_root_max: "heap_ok e 1 n \<Longrightarrow> 1 \<le> c \<Longrightarrow> c \<le> n \<Longrightarrow> compare (e c) (e 1) \<le> 0"
proof (induction c rule: less_induct)
  case (less c)
  show ?case
  proof (cases "c = 1")
    case False
    then have c: "2 \<le> c" "1 \<le> c div 2" "c div 2 < c" "c div 2 \<le> n" using less.prems by auto
    have "compare (e c) (e (c div 2)) \<le> 0" using less.prems c unfolding heap_ok_def by blast
    then show ?thesis using compare_trans less.IH [OF c(3) less.prems(1) c(2,4)] by blast
  qed (simp add: compare_refl)
qed

text \<open>The first \<open>i\<close> elements are a heap, the others are in order and not below the heap.\<close>

definition sort_inv :: "(nat \<Rightarrow> bytes) \<Rightarrow> nat \<Rightarrow> nat \<Rightarrow> bool" where
  "sort_inv e i cnt \<longleftrightarrow> heap_ok e 1 i \<and>
     (\<forall>a b. 1 \<le> a \<and> a < b \<and> i < b \<and> b \<le> cnt \<longrightarrow> compare (e a) (e b) \<le> 0)"

lemma sort_step:
  assumes len: "length array = cnt * sz" and inv: "sort_inv (elem_at array sz) i cnt" and i: "1 < i" "i \<le> cnt"
  defines "array' \<equiv> heapify compare (do_swap array 1 i sz) 1 (i - 1) sz"
  shows "length array' = length array" "sort_inv (elem_at array' sz) (i - 1) cnt"
    "mset (elems array' cnt sz) = mset (elems array cnt sz)"
proof -
  let ?e = "elem_at array sz" and ?a = "do_swap array 1 i sz" and ?e' = "elem_at array' sz"
  have at: "elem_at ?a sz j = ?e (if j = 1 then i else if j = i then 1 else j)" if "1 \<le> j" "j \<le> cnt" for j
    using elem_at_do_swap [OF len _ _ _ i(2) that, of 1] i by auto
  have heap: "heap_ok ?e 1 i" using inv by (simp add: sort_inv_def)
  have keep: "elem_at ?a sz c = ?e c" if "2 \<le> c" "c < i" for c using at [of c] that i by auto
  have "heap_but (elem_at ?a sz) 1 1 (i - 1)"
    unfolding heap_but_def
  proof (intro conjI allI impI)
    fix c assume c: "2 \<le> c \<and> c \<le> i - 1 \<and> 1 \<le> c div 2 \<and> c div 2 \<noteq> 1"
    then have "compare (?e c) (?e (c div 2)) \<le> 0" using heap i unfolding heap_ok_def by auto
    moreover have "2 \<le> c div 2" "c div 2 < i" "c < i" using c i by linarith+
    ultimately show "compare (elem_at ?a sz c) (elem_at ?a sz (c div 2)) \<le> 0" using keep c by simp
  qed auto
  then have h: "length array' = length ?a" "heap_ok ?e' 1 (i - 1)" "mset (elems array' cnt sz) = mset (elems ?a cnt sz)"
    "\<And>j. i - 1 < j \<Longrightarrow> j \<le> cnt \<Longrightarrow> ?e' j = elem_at ?a sz j"
    "\<And>j. 1 \<le> j \<Longrightarrow> j \<le> i - 1 \<Longrightarrow> \<exists>j'. 1 \<le> j' \<and> j' \<le> i - 1 \<and> ?e' j = elem_at ?a sz j'"
    using heapify_spec [of ?a cnt sz 1 1 "i - 1"] len i unfolding array'_def by auto
  show "length array' = length array" using h(1) by simp
  show "mset (elems array' cnt sz) = mset (elems array cnt sz)"
    using h(3) mset_do_swap [OF len _ _ _ i(2), of 1] i by auto
  have low: "\<exists>j'. 1 \<le> j' \<and> j' \<le> i \<and> ?e' j = ?e j'" if j: "1 \<le> j" "j < i" for j
  proof -
    have "j \<le> i - 1" using j by linarith
    then obtain j' where "1 \<le> j'" "j' \<le> i - 1" "?e' j = elem_at ?a sz j'" using h(5) [OF j(1)] by blast
    then show ?thesis using at [of j'] i by (intro exI [of _ "if j' = 1 then i else if j' = i then 1 else j'"]) auto
  qed
  have high: "?e' j = ?e (if j = i then 1 else j)" if "i \<le> j" "j \<le> cnt" for j using h(4) [of j] at [of j] that i by auto
  have old: "compare (?e a) (?e b) \<le> 0" if "1 \<le> a" "a < b" "i < b" "b \<le> cnt" for a b
    using inv that unfolding sort_inv_def by blast
  have "compare (?e' a) (?e' b) \<le> 0" if ab: "1 \<le> a" "a < b" "i - 1 < b" "b \<le> cnt" for a b
  proof (cases "a < i")
    case True
    then obtain a' where a': "1 \<le> a'" "a' \<le> i" "?e' a = ?e a'" using low [of a] ab by auto
    show ?thesis
      using a' old [of a' b] heap_root_max [OF heap, of a'] high [of b] ab i by (cases "b = i") auto
  next
    case False
    then show ?thesis using high [of a] high [of b] old [of 1 b] old [of a b] ab i by (cases "a = i") auto
  qed
  then show "sort_inv ?e' (i - 1) cnt" unfolding sort_inv_def using h(2) by blast
qed

lemma sort_heap_spec:
  assumes "length array = cnt * sz" and "sort_inv (elem_at array sz) i cnt" and "i \<le> cnt"
  defines "array' \<equiv> sort_heap compare array i sz"
  shows "length array' = length array \<and> sort_inv (elem_at array' sz) (min i 1) cnt
    \<and> mset (elems array' cnt sz) = mset (elems array cnt sz)"
  using assms(1-3) unfolding array'_def
proof (induction i arbitrary: array rule: less_induct)
  case (less i)
  show ?case
  proof (cases "1 < i")
    case True
    let ?a = "heapify compare (do_swap array 1 i sz) 1 (i - 1) sz"
    note step = sort_step [OF less.prems(1,2) True less.prems(3)]
    have "sort_heap compare array i sz = sort_heap compare ?a (i - 1) sz" using True by (simp add: sort_heap.simps [of _ array])
    moreover have "min (i - 1) 1 = min i 1" using True by simp
    ultimately show ?thesis using less.IH [of "i - 1" ?a] step True less.prems by simp
  next
    case False
    then have "min i 1 = i" "sort_heap compare array i sz = array" by (simp_all add: sort_heap.simps)
    then show ?thesis using less.prems(2) by simp
  qed
qed

lemma sort_array_sorts:
  assumes "length array = cnt * sz" and "0 < sz"
  shows "\<exists>array'. sort_array array cnt sz compare = Some array' \<and> length array' = length array
    \<and> mset (elems array' cnt sz) = mset (elems array cnt sz)
    \<and> sorted_wrt (\<lambda>a b. compare a b \<le> 0) (elems array' cnt sz)"
proof -
  let ?h = "build_heap compare array (cnt div 2) cnt sz"
  let ?a = "sort_heap compare ?h cnt sz"
  have "heap_ok (elem_at array sz) (cnt div 2 + 1) cnt" unfolding heap_ok_def by auto
  then have h: "length ?h = length array" "heap_ok (elem_at ?h sz) 1 cnt" "mset (elems ?h cnt sz) = mset (elems array cnt sz)"
    using build_heap_spec [OF assms(1)] by auto
  then have "sort_inv (elem_at ?h sz) cnt cnt" unfolding sort_inv_def by auto
  then have s: "length ?a = length ?h" "sort_inv (elem_at ?a sz) (min cnt 1) cnt" "mset (elems ?a cnt sz) = mset (elems ?h cnt sz)"
    using sort_heap_spec [of ?h cnt sz cnt] h(1) assms(1) by auto
  have "compare (elem_at ?a sz (i + 1)) (elem_at ?a sz (j + 1)) \<le> 0" if "i < j" "j < cnt" for i j
    using s(2) that unfolding sort_inv_def by auto
  then have "sorted_wrt (\<lambda>a b. compare a b \<le> 0) (elems ?a cnt sz)" by (auto simp: sorted_wrt_iff_nth_less)
  then show ?thesis using s(1,3) h(1,3) assms(2) by (simp add: sort_array_def)
qed

text \<open>Binary search between two element boundaries: the result is right for the elements of a range.\<close>

definition found_in :: "bytes \<Rightarrow> bytes \<Rightarrow> nat \<Rightarrow> nat \<Rightarrow> nat \<Rightarrow> nat option \<Rightarrow> bool" where
  "found_in key array sz lo hi r \<longleftrightarrow> (case r of
      Some p \<Rightarrow> \<exists>i. lo \<le> i \<and> i < hi \<and> p = i * sz \<and> compare key (take sz (drop p array)) = 0
    | None \<Rightarrow> \<forall>i. lo \<le> i \<and> i < hi \<longrightarrow> compare key (take sz (drop (i * sz) array)) \<noteq> 0)"

lemma found_in_extend:
  assumes "found_in key array sz lo' hi' r" and "lo \<le> lo'" "hi' \<le> hi"
    and "\<And>i. lo \<le> i \<Longrightarrow> i < hi \<Longrightarrow> i < lo' \<or> hi' \<le> i \<Longrightarrow> compare key (take sz (drop (i * sz) array)) \<noteq> 0"
  shows "found_in key array sz lo hi r"
proof (cases r)
  case None
  have "compare key (take sz (drop (i * sz) array)) \<noteq> 0" if "lo \<le> i" "i < hi" for i
    using assms(1) assms(4) [OF that] None by (cases "lo' \<le> i \<and> i < hi'") (simp_all add: found_in_def not_le not_less)
  then show ?thesis using None by (simp add: found_in_def)
next
  case (Some p)
  then obtain i where "lo' \<le> i" "i < hi'" "p = i * sz" "compare key (take sz (drop p array)) = 0"
    using assms(1) by (auto simp: found_in_def)
  then show ?thesis using Some assms(2,3) by (simp add: found_in_def) (metis le_trans less_le_trans)
qed

lemma no_match_above:
  assumes "compare key x < 0" "compare x y \<le> 0" shows "compare key y \<noteq> 0"
proof
  assume "compare key y = 0"
  then have "compare y key \<le> 0" using compare_sign [of y key] by linarith
  then have "compare x key \<le> 0" using compare_trans [OF assms(2)] by blast
  then show False using assms(1) compare_sign [of x key] by linarith
qed

lemma no_match_below:
  assumes "compare key x > 0" "compare y x \<le> 0" shows "compare key y \<noteq> 0"
proof
  assume "compare key y = 0"
  then have "compare key x \<le> 0" using compare_trans [OF _ assms(2), of key] by simp
  then show False using assms(1) by simp
qed

lemma binary_search_loop_spec:
  assumes "\<And>i j. i < j \<Longrightarrow> j < hi \<Longrightarrow> compare (take sz (drop (i * sz) array)) (take sz (drop (j * sz) array)) \<le> 0"
    and "0 < sz" and "lo \<le> hi"
  shows "found_in key array sz lo hi (binary_search_loop compare key array (lo * sz) (hi * sz) sz)"
  using assms
proof (induction "hi - lo" arbitrary: lo hi rule: less_induct)
  case less
  let ?e = "\<lambda>i. take sz (drop (i * sz) array)"
  have ord: "compare (?e i) (?e j) \<le> 0" if "i \<le> j" "j < hi" for i j
    using less.prems(1) [of i j] that compare_refl by (cases "i = j") auto
  show ?case
  proof (cases "lo < hi")
    case False
    then have "binary_search_loop compare key array (lo * sz) (hi * sz) sz = None"
      using less.prems(2) by (subst binary_search_loop.simps) simp
    then show ?thesis using False by (simp add: found_in_def)
  next
    case True
    define m where "m = lo + (hi - lo) div 2"
    have m: "lo \<le> m" "m < hi" using True by (auto simp: m_def)
    note unf = binary_search_step [OF less.prems(2) True, folded m_def]
    have range: "found_in key array sz l h (binary_search_loop compare key array (l * sz) (h * sz) sz)"
      if "h - l < hi - lo" "h \<le> hi" "l \<le> h" for l h
      using that less.prems(1,2) by (intro less.hyps) auto
    consider (left) "compare key (?e m) < 0" | (right) "compare key (?e m) > 0" | (hit) "compare key (?e m) = 0" by linarith
    then show ?thesis
    proof cases
      case left
      have no: "compare key (?e i) \<noteq> 0" if "i < lo \<or> m \<le> i" "lo \<le> i" "i < hi" for i
        using no_match_above [OF left ord [of m i]] that by linarith
      have lm: "m - lo < hi - lo" "m \<le> hi" using m by linarith+
      have "found_in key array sz lo hi (binary_search_loop compare key array (lo * sz) (m * sz) sz)"
        using no by (intro found_in_extend [OF range [OF lm m(1)] order.refl lm(2)])
      then show ?thesis unfolding unf if_P [OF left] .
    next
      case right
      have no: "compare key (?e i) \<noteq> 0" if "i < m + 1 \<or> hi \<le> i" "lo \<le> i" "i < hi" for i
        using no_match_below [OF right ord [of i m]] that m by linarith
      have rm: "hi - (m + 1) < hi - lo" "m + 1 \<le> hi" "lo \<le> m + 1" using m by linarith+
      have "found_in key array sz lo hi (binary_search_loop compare key array ((m + 1) * sz) (hi * sz) sz)"
        using no by (intro found_in_extend [OF range [OF rm(1) order.refl rm(2)] rm(3) order.refl])
      moreover have "\<not> compare key (?e m) < 0" using right by linarith
      ultimately show ?thesis unfolding unf if_P [OF right] by (simp only: if_False)
    next
      case hit
      then have "binary_search_loop compare key array (lo * sz) (hi * sz) sz = Some (m * sz)" unfolding unf by simp
      then show ?thesis using m hit by (auto simp: found_in_def)
    qed
  qed
qed

lemma binary_search_finds:
  assumes "sorted_wrt (\<lambda>a b. compare a b \<le> 0) (elems array cnt sz)" and "0 < sz"
  shows "case binary_search key array cnt sz compare of
      Some p \<Rightarrow> \<exists>i < cnt. p = i * sz \<and> compare key (elems array cnt sz ! i) = 0
    | None \<Rightarrow> \<forall>x \<in> set (elems array cnt sz). compare key x \<noteq> 0"
proof -
  have at: "take sz (drop (i * sz) array) = elem_at array sz (i + 1)" for i by (simp add: elem_at_def)
  have "found_in key array sz 0 cnt (binary_search_loop compare key array (0 * sz) (cnt * sz) sz)"
    using assms by (intro binary_search_loop_spec) (auto simp: at sorted_wrt_iff_nth_less)
  then show ?thesis
    unfolding binary_search_def found_in_def at
    by (auto simp: at mult.commute in_set_conv_nth split: option.splits)
qed

end

text \<open>The order of byte strings, the one of \<^verbatim>\<open>strcmp\<close> and \<^verbatim>\<open>memcmp\<close>, satisfies the contract.\<close>

lemma bytes_cmp_trans: "bytes_cmp a b \<le> 0 \<Longrightarrow> bytes_cmp b c \<le> 0 \<Longrightarrow> bytes_cmp a c \<le> 0"
proof (induction a b arbitrary: c rule: bytes_cmp.induct)
  case (4 x xs y ys)
  then show ?case by (cases c) (auto split: if_splits)
next
  case (2 y ys)
  then show ?case by (cases c) auto
next
  case 1
  then show ?case by (cases c) auto
qed auto

interpretation bytes_order: comparator bytes_cmp
proof
  show "0 < bytes_cmp a b \<longleftrightarrow> bytes_cmp b a < 0" for a b using bytes_cmp_sym [of b a] by linarith
  show "bytes_cmp a c \<le> 0" if "bytes_cmp a b \<le> 0" "bytes_cmp b c \<le> 0" for a b c using bytes_cmp_trans [OF that] .
qed

section \<open>Parsing numbers\<close>

definition digits_value :: "bytes \<Rightarrow> nat" where
  "digits_value ds = foldl (\<lambda>v c. v * 10 + (unat c - 48)) 0 ds"

lemma skip_spaces_cstr:
  "cstr m p (ws @ t) \<Longrightarrow> \<forall>c \<in> set ws. isspace c \<Longrightarrow> (t \<noteq> [] \<Longrightarrow> \<not> isspace (hd t)) \<Longrightarrow>
   skip_spaces m p = Some (p + length ws)"
proof (induction ws arbitrary: p)
  case Nil
  then show ?case by (cases t) (auto simp: skip_spaces.simps isspace_def)
next
  case (Cons c ws)
  then show ?case by (subst skip_spaces.simps) auto
qed

lemma digit_word:
  assumes "isdigit c"
  shows "- of_nat v * 10 - (ucast c - 48) = (- of_nat (v * 10 + (unat c - 48)) :: u32)"
proof -
  have "48 \<le> unat c" using assms by (simp add: isdigit_def word_le_nat_alt)
  then have "(of_nat (unat c - 48) :: u32) = of_nat (unat c) - 48" by (simp add: of_nat_diff)
  then show ?thesis by simp
qed

lemma atoi_digits_cstr:
  "cstr m p (ds @ t) \<Longrightarrow> \<forall>c \<in> set ds. isdigit c \<Longrightarrow> (t \<noteq> [] \<Longrightarrow> \<not> isdigit (hd t)) \<Longrightarrow>
   atoi_digits m p (- of_nat v) = Some (- of_nat (foldl (\<lambda>v c. v * 10 + (unat c - 48)) v ds))"
proof (induction ds arbitrary: p v)
  case Nil
  then have "\<not> isdigit (m p)" by (cases t) (auto simp: isdigit_def)
  then show ?case by (subst atoi_digits.simps) simp
next
  case (Cons c ds)
  have c: "isdigit c" "m p = c" using Cons.prems by simp_all
  have "atoi_digits m p (- of_nat v) = atoi_digits m (p + 1) (- of_nat v * 10 - (ucast c - 48))"
    using c by (subst atoi_digits.simps) (simp only: if_True)
  also have "\<dots> = atoi_digits m (p + 1) (- of_nat (v * 10 + (unat c - 48)))" by (simp only: digit_word [OF c(1)])
  also have "\<dots> = Some (- of_nat (foldl (\<lambda>v c. v * 10 + (unat c - 48)) (v * 10 + (unat c - 48)) ds))"
    using Cons.prems by (intro Cons.IH) simp_all
  finally show ?case by (simp only: foldl_Cons)
qed

lemma atoi_cstr:
  assumes str: "cstr m p (ws @ sg @ ds @ t)" and "p \<noteq> NULL" and ws: "\<forall>c \<in> set ws. isspace c"
    and sg: "sg \<in> {[], [43], [45]}" and ds: "\<forall>c \<in> set ds. isdigit c" "ds \<noteq> []" and t: "t \<noteq> [] \<Longrightarrow> \<not> isdigit (hd t)"
    and x: "x = (if sg = [45] then - int (digits_value ds) else int (digits_value ds))" and range: "- (2 ^ 31) \<le> x" "x < 2 ^ 31"
  shows "atoi m p = Some x"
proof -
  let ?q = "p + length ws"
  obtain d ds' where dd: "ds = d # ds'" "isdigit d" using ds by (cases ds) auto
  have nd: "\<not> isspace d" "d \<noteq> 43" "d \<noteq> 45" using dd(2) by (auto simp: isdigit_def isspace_def)
  have "sg @ ds @ t \<noteq> [] \<Longrightarrow> \<not> isspace (hd (sg @ ds @ t))" using sg nd dd by (auto simp: isspace_def)
  then have sp: "skip_spaces m p = Some ?q" by (rule skip_spaces_cstr [OF str ws])
  have q: "cstr m ?q (sg @ ds @ t)" using cstr_drop [OF str, of "length ws"] by simp
  then have ch: "m ?q = (if sg = [] then d else hd sg)" using sg dd by auto
  have dst: "cstr m (?q + length sg) (ds @ t)" using cstr_drop [OF q, of "length sg"] by simp
  have "(if m ?q = 43 \<or> m ?q = 45 then ?q + 1 else ?q) = ?q + length sg" using sg ch nd by auto
  moreover have "m ?q = 45 \<longleftrightarrow> sg = [45]" using sg ch nd by auto
  moreover have "atoi_digits m (?q + length sg) 0 = Some (- of_nat (digits_value ds))"
    using atoi_digits_cstr [OF dst ds(1) t, of 0] by (simp add: digits_value_def)
  ultimately have "atoi m p = Some (sint (if sg = [45] then - of_nat (digits_value ds) else - (- of_nat (digits_value ds)) :: u32))"
    using sp \<open>p \<noteq> NULL\<close> by (simp add: atoi_def Let_def)
  also have "(if sg = [45] then - of_nat (digits_value ds) else - (- of_nat (digits_value ds)) :: u32) = word_of_int x"
    by (simp add: x)
  also have "sint (word_of_int x :: u32) = x" using range by (simp add: signed_of_int signed_take_bit_int_eq_self)
  finally show ?thesis .
qed

section \<open>Properties\<close>

text \<open>
  C12: \<^verbatim>\<open>sort\<close> (and \<^verbatim>\<open>qsort\<close>) terminates and leaves a permutation of the elements in ascending order,
  for every comparison function that returns consistent signs and is transitive.
\<close>

theorem sort_correct:
  assumes "\<And>a b. compare a b > 0 \<longleftrightarrow> compare b a < 0"
    and "\<And>a b c. compare a b \<le> 0 \<Longrightarrow> compare b c \<le> 0 \<Longrightarrow> compare a c \<le> 0"
    and "length array = cnt * sz" and "0 < sz"
  shows "\<exists>array'. qsort array cnt sz compare = Some array' \<and> length array' = length array
    \<and> mset (elems array' cnt sz) = mset (elems array cnt sz)
    \<and> sorted_wrt (\<lambda>a b. compare a b \<le> 0) (elems array' cnt sz)"
proof -
  have "comparator compare" using assms(1,2) by unfold_locales
  then show ?thesis using comparator.sort_array_sorts [OF _ assms(3,4)] by (simp add: qsort_def)
qed

theorem sort_correct_witness:
  "\<exists>array'. qsort [3, 1, 2, 9, 1, 2, 3, 0] 4 2 bytes_cmp = Some array'
    \<and> mset (elems array' 4 2) = mset (elems [3, 1, 2, 9, 1, 2, 3, 0] 4 2)
    \<and> sorted_wrt (\<lambda>a b. bytes_cmp a b \<le> 0) (elems array' 4 2)"
proof -
  let ?a = "[3, 1, 2, 9, 1, 2, 3, 0] :: bytes"
  have "\<exists>array'. qsort ?a 4 2 bytes_cmp = Some array' \<and> length array' = length ?a
    \<and> mset (elems array' 4 2) = mset (elems ?a 4 2) \<and> sorted_wrt (\<lambda>a b. bytes_cmp a b \<le> 0) (elems array' 4 2)"
    by (rule sort_correct) (simp_all add: bytes_order.compare_sign bytes_cmp_trans)
  then show ?thesis by blast
qed

text \<open>
  \<^verbatim>\<open>binary_search\<close> (and \<^verbatim>\<open>bsearch\<close>) terminates; in an array sorted by a consistent comparison
  function it returns a matching element, and a null pointer only when no element matches.
\<close>

theorem bsearch_correct:
  assumes "\<And>a b. compare a b > 0 \<longleftrightarrow> compare b a < 0"
    and "\<And>a b c. compare a b \<le> 0 \<Longrightarrow> compare b c \<le> 0 \<Longrightarrow> compare a c \<le> 0"
    and "sorted_wrt (\<lambda>a b. compare a b \<le> 0) (elems array cnt sz)" and "0 < sz"
  shows "case bsearch key array cnt sz compare of
      Some p \<Rightarrow> \<exists>i < cnt. p = i * sz \<and> compare key (elems array cnt sz ! i) = 0
    | None \<Rightarrow> \<forall>x \<in> set (elems array cnt sz). compare key x \<noteq> 0"
proof -
  have "comparator compare" using assms(1,2) by unfold_locales
  then show ?thesis using comparator.binary_search_finds [OF _ assms(3,4)] by (simp add: bsearch_def)
qed

theorem bsearch_correct_witness:
  "sorted_wrt (\<lambda>a b. bytes_cmp a b \<le> 0) (elems [1, 3, 5] 3 1) \<and>
   (case bsearch [5] [1, 3, 5] 3 1 bytes_cmp of
      Some p \<Rightarrow> \<exists>i < 3. p = i * 1 \<and> bytes_cmp [5] (elems [1, 3, 5] 3 1 ! i) = 0
    | None \<Rightarrow> bytes_cmp [5] [3] \<noteq> 0)"
proof -
  have s: "elems [1, 3, 5] 3 1 = [[1], [3], [5]]" by (simp add: elems_def elem_at_def upt_rec)
  have "sorted_wrt (\<lambda>a b. bytes_cmp a b \<le> 0) (elems [1, 3, 5] 3 1)" unfolding s by simp
  moreover from this have "case bsearch [5] [1, 3, 5] 3 1 bytes_cmp of
      Some p \<Rightarrow> \<exists>i < 3. p = i * 1 \<and> bytes_cmp [5] (elems [1, 3, 5] 3 1 ! i) = 0
    | None \<Rightarrow> \<forall>x \<in> set (elems [1, 3, 5] 3 1). bytes_cmp [5] x \<noteq> 0"
    by (rule bsearch_correct [rotated 2]) (simp_all add: bytes_order.compare_sign bytes_cmp_trans)
  ultimately show ?thesis unfolding s by (cases "bsearch [5] [1, 3, 5] 3 1 bytes_cmp") simp_all
qed

text \<open>
  \<^verbatim>\<open>atoi\<close> returns the number a string denotes: white space, an optional sign and decimal digits up
  to the first other character, whenever that number is an \<^verbatim>\<open>int\<close>, the smallest one included.
\<close>

theorem atoi_correct:
  assumes str: "cstr m p (ws @ sg @ ds @ t)" and "p \<noteq> NULL" and ws: "\<forall>c \<in> set ws. isspace c"
    and sg: "sg \<in> {[], [43], [45]}" and ds: "\<forall>c \<in> set ds. isdigit c" "ds \<noteq> []" and t: "t \<noteq> [] \<Longrightarrow> \<not> isdigit (hd t)"
    and x: "x = (if sg = [45] then - int (digits_value ds) else int (digits_value ds))" and range: "- (2 ^ 31) \<le> x" "x < 2 ^ 31"
  shows "atoi m p = Some x"
  using assms by (rule atoi_cstr)

theorem atoi_correct_witness: "atoi (poke 10 [32, 45, 50, 49, 52, 55, 52, 56, 51, 54, 52, 56, 0] (\<lambda>_. 7)) 10 = Some (- 2147483648)"
proof -
  let ?s = "[32] @ [45] @ [50, 49, 52, 55, 52, 56, 51, 54, 52, 56] @ [] :: bytes"
  let ?m = "poke 10 [32, 45, 50, 49, 52, 55, 52, 56, 51, 54, 52, 56, 0] (\<lambda>_. 7)"
  have "cstr ?m 10 ?s" by (simp add: poke_def)
  then show ?thesis
    using atoi_correct [of ?m 10 "[32]" "[45]" "[50, 49, 52, 55, 52, 56, 51, 54, 52, 56]" "[]" "- 2147483648"]
    by (simp add: isspace_def isdigit_def digits_value_def)
qed

end
