(* ===== verification/Stdio.thy ===== *)
theory Stdio
  imports Stdlib
begin

text \<open>
  Formatted output (\<^verbatim>\<open>lib/stdio.c\<close>). The format and the strings that the arguments point to are read
  from a memory that the output does not change. An argument list is the list of the 32-bit words on
  the stack; reading more arguments than there are is a panic. The output function changes a state of
  its own, the auxiliary data. \<open>ch\<close> is the code of a character and \<open>lit\<close> a memory with a string
  constant at address 1.
\<close>

section \<open>Conversions\<close>

definition ch :: "char \<Rightarrow> u8" where
  "ch c = of_char c"

definition lit :: "string \<Rightarrow> memory" where
  "lit s = (\<lambda>a. if 1 \<le> a \<and> a \<le> length s then ch (s ! (a - 1)) else 0)"

text \<open>A value stored in a 32-bit \<^verbatim>\<open>int\<close>.\<close>

definition as_int :: "int \<Rightarrow> int" where
  "as_int x = (x + 2147483648) mod 4294967296 - 2147483648"

datatype arg_type = T_CHAR | T_SHORT | T_INT | T_INTMAX | T_LONG | T_LONGLONG | T_PTRDIFFT | T_SIZET

record printf_conversion =
  MINUS :: bool
  PLUS :: bool
  SPACE :: bool
  POUND :: bool
  ZERO :: bool
  GROUP :: bool
  width :: int
  precision :: int
  arg_type :: arg_type

text \<open>The four constants of type \<^verbatim>\<open>struct integer_base\<close> and its fields.\<close>

datatype integer_base = base_d | base_o | base_x | base_X

fun base :: "integer_base \<Rightarrow> u64" where
  "base base_d = 10"
| "base base_o = 8"
| "base base_x = 16"
| "base base_X = 16"

fun digits :: "integer_base \<Rightarrow> string" where
  "digits base_d = ''0123456789''"
| "digits base_o = ''01234567''"
| "digits base_x = ''0123456789abcdef''"
| "digits base_X = ''0123456789ABCDEF''"

fun base_prefix :: "integer_base \<Rightarrow> u8" where
  "base_prefix base_d = 0"
| "base_prefix base_o = 0"
| "base_prefix base_x = ch CHR ''x''"
| "base_prefix base_X = ch CHR ''X''"

fun base_group :: "integer_base \<Rightarrow> nat" where
  "base_group base_d = 3"
| "base_group base_o = 3"
| "base_group base_x = 4"
| "base_group base_X = 4"

section \<open>Arguments\<close>

type_synonym va_list = "u32 list"

fun va_arg32 :: "va_list \<Rightarrow> (u32 \<times> va_list) option" where
  "va_arg32 [] = PANIC"
| "va_arg32 (w # ws) = Some (w, ws)"

fun va_arg64 :: "va_list \<Rightarrow> (u64 \<times> va_list) option" where
  "va_arg64 (w # w' # ws) = Some (ucast w + push_bit 32 (ucast w'), ws)"
| "va_arg64 _ = PANIC"

fun signed_arg :: "arg_type \<Rightarrow> va_list \<Rightarrow> (u64 \<times> va_list) option" where
  "signed_arg T_CHAR args = do { (w, args) \<leftarrow> va_arg32 args; Some (scast (ucast w :: u8), args) }"
| "signed_arg T_SHORT args = do { (w, args) \<leftarrow> va_arg32 args; Some (scast (ucast w :: 16 word), args) }"
| "signed_arg T_INT args = do { (w, args) \<leftarrow> va_arg32 args; Some (scast w, args) }"
| "signed_arg T_INTMAX args = va_arg64 args"
| "signed_arg T_LONG args = do { (w, args) \<leftarrow> va_arg32 args; Some (scast w, args) }"
| "signed_arg T_LONGLONG args = va_arg64 args"
| "signed_arg T_PTRDIFFT args = do { (w, args) \<leftarrow> va_arg32 args; Some (scast w, args) }"
| "signed_arg T_SIZET args = do {
     (w, args) \<leftarrow> va_arg32 args;
     let val = ucast w;
     Some (if val > 4294967295 div 2 then val - 4294967295 - 1 else val, args) }"

fun unsigned_arg :: "arg_type \<Rightarrow> va_list \<Rightarrow> (u64 \<times> va_list) option" where
  "unsigned_arg T_CHAR args = do { (w, args) \<leftarrow> va_arg32 args; Some (ucast (ucast w :: u8), args) }"
| "unsigned_arg T_SHORT args = do { (w, args) \<leftarrow> va_arg32 args; Some (ucast (ucast w :: 16 word), args) }"
| "unsigned_arg T_INT args = do { (w, args) \<leftarrow> va_arg32 args; Some (ucast w, args) }"
| "unsigned_arg T_INTMAX args = va_arg64 args"
| "unsigned_arg T_LONG args = do { (w, args) \<leftarrow> va_arg32 args; Some (ucast w, args) }"
| "unsigned_arg T_LONGLONG args = va_arg64 args"
| "unsigned_arg T_PTRDIFFT args = do {
     (w, args) \<leftarrow> va_arg32 args;
     Some (scast w AND (push_bit 1 2147483647 OR 1), args) }"
| "unsigned_arg T_SIZET args = do { (w, args) \<leftarrow> va_arg32 args; Some (ucast w, args) }"

section \<open>Parsing a conversion\<close>

partial_function (option) parse_flags :: "memory \<Rightarrow> addr \<Rightarrow> printf_conversion \<Rightarrow> (addr \<times> printf_conversion) option" where
  "parse_flags m format c =
     (if m format = ch CHR ''-'' then parse_flags m (format + 1) (c\<lparr>MINUS := True\<rparr>)
      else if m format = ch CHR ''+'' then parse_flags m (format + 1) (c\<lparr>PLUS := True\<rparr>)
      else if m format = ch CHR '' '' then parse_flags m (format + 1) (c\<lparr>SPACE := True\<rparr>)
      else if m format = ch CHR ''#'' then parse_flags m (format + 1) (c\<lparr>POUND := True\<rparr>)
      else if m format = ch CHR ''0'' then parse_flags m (format + 1) (c\<lparr>ZERO := True\<rparr>)
      else if m format = ch (CHR 0x27) then parse_flags m (format + 1) (c\<lparr>GROUP := True\<rparr>)
      else Some (format, c))"

partial_function (option) parse_number :: "memory \<Rightarrow> addr \<Rightarrow> int \<Rightarrow> (addr \<times> int) option" where
  "parse_number m format n =
     (if isdigit (m format) then parse_number m (format + 1) (as_int (n * 10 + (uint (m format) - 48)))
      else Some (format, n))"

definition parse_width :: "memory \<Rightarrow> addr \<Rightarrow> printf_conversion \<Rightarrow> va_list \<Rightarrow> (addr \<times> printf_conversion \<times> va_list) option" where
  "parse_width m format c args = do {
     (format, w, args) \<leftarrow>
       (if m format = ch CHR ''*'' then do { (w, args) \<leftarrow> va_arg32 args; Some (format + 1, sint w, args) }
        else do { (format, w) \<leftarrow> parse_number m format 0; Some (format, w, args) });
     Some (format, if w < 0 then c\<lparr>width := as_int (- w), MINUS := True\<rparr> else c\<lparr>width := w\<rparr>, args) }"

definition parse_precision :: "memory \<Rightarrow> addr \<Rightarrow> printf_conversion \<Rightarrow> va_list \<Rightarrow> (addr \<times> printf_conversion \<times> va_list) option" where
  "parse_precision m format c args = do {
     (format, p, args) \<leftarrow>
       (if m format = ch CHR ''.'' then
          do {
            (format, p, args) \<leftarrow>
              (if m (format + 1) = ch CHR ''*'' then do { (w, args) \<leftarrow> va_arg32 args; Some (format + 2, sint w, args) }
               else do { (format, p) \<leftarrow> parse_number m (format + 1) 0; Some (format, p, args) });
            Some (format, if p < 0 then - 1 else p, args) }
        else Some (format, - 1, args));
     Some (format, if p \<ge> 0 then c\<lparr>precision := p, ZERO := False\<rparr> else c\<lparr>precision := p\<rparr>, args) }"

definition parse_type :: "memory \<Rightarrow> addr \<Rightarrow> addr \<times> arg_type" where
  "parse_type m format =
     (if m format = ch CHR ''h'' then if m (format + 1) = ch CHR ''h'' then (format + 2, T_CHAR) else (format + 1, T_SHORT)
      else if m format = ch CHR ''j'' then (format + 1, T_INTMAX)
      else if m format = ch CHR ''l'' then if m (format + 1) = ch CHR ''l'' then (format + 2, T_LONGLONG) else (format + 1, T_LONG)
      else if m format = ch CHR ''t'' then (format + 1, T_PTRDIFFT)
      else if m format = ch CHR ''z'' then (format + 1, T_SIZET)
      else (format, T_INT))"

definition parse_conversion :: "memory \<Rightarrow> addr \<Rightarrow> va_list \<Rightarrow> (addr \<times> printf_conversion \<times> va_list) option" where
  "parse_conversion m format args = do {
     (format, c) \<leftarrow> parse_flags m format \<lparr>MINUS = False, PLUS = False, SPACE = False, POUND = False, ZERO = False,
        GROUP = False, width = 0, precision = - 1, arg_type = T_INT\<rparr>;
     let c = (if MINUS c then c\<lparr>ZERO := False\<rparr> else c);
     let c = (if PLUS c then c\<lparr>SPACE := False\<rparr> else c);
     (format, c, args) \<leftarrow> parse_width m format c args;
     (format, c, args) \<leftarrow> parse_precision m format c args;
     let (format, t) = parse_type m format;
     Some (format, c\<lparr>arg_type := t\<rparr>, args) }"

section \<open>Output of a conversion\<close>

primrec output_dup :: "u8 \<Rightarrow> nat \<Rightarrow> (u8 \<Rightarrow> 's \<Rightarrow> 's) \<Rightarrow> 's \<Rightarrow> 's" where
  "output_dup c 0 output aux = aux"
| "output_dup c (Suc cnt) output aux = output_dup c cnt output (output c aux)"

definition sign_char :: "bool \<Rightarrow> bool \<Rightarrow> printf_conversion \<Rightarrow> u8" where
  "sign_char is_signed negative c =
     (if \<not> is_signed then 0
      else if PLUS c then if negative then ch CHR ''-'' else ch CHR ''+''
      else if SPACE c then if negative then ch CHR ''-'' else ch CHR '' ''
      else if negative then ch CHR ''-'' else 0)"

text \<open>The digits in \<^verbatim>\<open>buf\<close>, the lowest first.\<close>

lemma base_greater: "1 < unat (base b)"
  by (cases b) simp_all

function digits_loop :: "u64 \<Rightarrow> integer_base \<Rightarrow> bool \<Rightarrow> nat \<Rightarrow> bytes" where
  "digits_loop val b grp digit_cnt =
     (if val > 0 then
        (if grp \<and> digit_cnt > 0 \<and> digit_cnt mod base_group b = 0 then [ch CHR '','' ] else []) @
        ch (digits b ! unat (val mod base b)) # digits_loop (val div base b) b grp (digit_cnt + 1)
      else [])"
  by pat_completeness auto
termination
proof (relation "measure (\<lambda>(val, b, grp, digit_cnt). unat val)", goal_cases)
  case (2 val b grp digit_cnt)
  then have "0 < unat val" by (simp add: word_less_nat_alt)
  then show ?case using div_less_dividend [OF base_greater, of "unat val" b] by (simp add: unat_div_distrib)
qed simp

declare digits_loop.simps [simp del]

text \<open>The contents of \<^verbatim>\<open>buf\<close> with the zeros that the precision asks for.\<close>

definition integer_buf :: "u64 \<Rightarrow> integer_base \<Rightarrow> printf_conversion \<Rightarrow> bytes" where
  "integer_buf val b c =
     (let buf = digits_loop val b (GROUP c) 0;
          prec = (if precision c < 0 then 1 else precision c);
          buf = buf @ replicate (nat (min prec 63) - length buf) (ch CHR ''0'')
      in if POUND c \<and> base b = 8 \<and> (buf = [] \<or> last buf \<noteq> ch CHR ''0'') then buf @ [ch CHR ''0''] else buf)"

definition format_integer ::
  "u64 \<Rightarrow> bool \<Rightarrow> bool \<Rightarrow> integer_base \<Rightarrow> printf_conversion \<Rightarrow> (u8 \<Rightarrow> 's \<Rightarrow> 's) \<Rightarrow> 's \<Rightarrow> 's" where
  "format_integer val is_signed negative b c output aux =
     (let sign = sign_char is_signed negative c;
          x = (if POUND c \<and> val \<noteq> 0 then base_prefix b else 0);
          buf = integer_buf val b c;
          pad_cnt = width c - int (length buf) - (if x \<noteq> 0 then 2 else 0) - (if sign \<noteq> 0 then 1 else 0);
          pad_cnt = nat pad_cnt;
          aux = (if \<not> MINUS c \<and> \<not> ZERO c then output_dup (ch CHR '' '') pad_cnt output aux else aux);
          aux = (if sign \<noteq> 0 then output sign aux else aux);
          aux = (if x \<noteq> 0 then output x (output (ch CHR ''0'') aux) else aux);
          aux = (if ZERO c then output_dup (ch CHR ''0'') pad_cnt output aux else aux);
          aux = fold output (rev buf) aux
      in if MINUS c then output_dup (ch CHR '' '') pad_cnt output aux else aux)"

primrec output_string :: "nat \<Rightarrow> memory \<Rightarrow> addr \<Rightarrow> (u8 \<Rightarrow> 's \<Rightarrow> 's) \<Rightarrow> 's \<Rightarrow> 's" where
  "output_string 0 m s output aux = aux"
| "output_string (Suc n) m s output aux = output_string n m (s + 1) output (output (m s) aux)"

definition format_string :: "memory \<Rightarrow> addr \<Rightarrow> int \<Rightarrow> printf_conversion \<Rightarrow> (u8 \<Rightarrow> 's \<Rightarrow> 's) \<Rightarrow> 's \<Rightarrow> 's" where
  "format_string m s len c output aux =
     (let aux = (if width c > len \<and> \<not> MINUS c then output_dup (ch CHR '' '') (nat (width c - len)) output aux else aux);
          aux = output_string (nat len) m s output aux
      in if width c > len \<and> MINUS c then output_dup (ch CHR '' '') (nat (width c - len)) output aux else aux)"

section \<open>Formatting\<close>

text \<open>The base of an unsigned conversion.\<close>

definition conversion_base :: "u8 \<Rightarrow> integer_base option" where
  "conversion_base f =
     (if f = ch CHR ''o'' then Some base_o else if f = ch CHR ''u'' then Some base_d
      else if f = ch CHR ''x'' then Some base_x else if f = ch CHR ''X'' then Some base_X else None)"

text \<open>One conversion that the kernel supports, chosen by the character \<open>f\<close>.\<close>

definition supported :: "u8 \<Rightarrow> bool" where
  "supported f \<longleftrightarrow> f = ch CHR ''d'' \<or> f = ch CHR ''i'' \<or> conversion_base f \<noteq> None \<or> f = ch CHR ''c'' \<or> f = ch CHR ''s'' \<or> f = ch CHR ''p''"

definition convert ::
  "memory \<Rightarrow> u8 \<Rightarrow> printf_conversion \<Rightarrow> va_list \<Rightarrow> (u8 \<Rightarrow> 's \<Rightarrow> 's) \<Rightarrow> 's \<Rightarrow> (va_list \<times> 's) option" where
  "convert m f c args output aux =
     (if f = ch CHR ''d'' \<or> f = ch CHR ''i'' then do {
        (val, args) \<leftarrow> signed_arg (arg_type c) args;
        Some (args, format_integer (if sint val < 0 then - val else val) True (sint val < 0) base_d c output aux) }
      else case conversion_base f of
        Some b \<Rightarrow> do {
          (val, args) \<leftarrow> unsigned_arg (arg_type c) args;
          Some (args, format_integer val False False b c output aux) }
      | None \<Rightarrow>
        if f = ch CHR ''c'' then do {
          (w, args) \<leftarrow> va_arg32 args;
          Some (args, format_string (\<lambda>_. ucast w) 1 1 c output aux) }
        else if f = ch CHR ''s'' then do {
          (w, args) \<leftarrow> va_arg32 args;
          let (m, s) = (if w = 0 then (lit ''(null)'', 1) else (m, unat w));
          len \<leftarrow> strnlen m s (unat (word_of_int (precision c) :: u32));
          Some (args, format_string m s (int len) c output aux) }
        else do {
          (w, args) \<leftarrow> va_arg32 args;
          let c = c\<lparr>MINUS := False, PLUS := False, SPACE := False, POUND := True, ZERO := False, GROUP := False\<rparr>;
          Some (args, format_integer (ucast w) False False base_x c output aux) })"

definition no_conversion :: "u8 \<Rightarrow> string" where
  "no_conversion f =
     (if f \<in> ch ` {CHR ''f'', CHR ''e'', CHR ''E'', CHR ''g'', CHR ''G'', CHR ''n''}
      then ''<<no %%%c in kernel>>'' else ''<<no %%%c conversion>>'')"

text \<open>\<^verbatim>\<open>__vprintf\<close>; a conversion that is not supported formats a message, with \<^verbatim>\<open>__printf\<close>.\<close>

partial_function (option) vprintf_output ::
  "memory \<Rightarrow> addr \<Rightarrow> va_list \<Rightarrow> (u8 \<Rightarrow> 's \<Rightarrow> 's) \<Rightarrow> 's \<Rightarrow> 's option" where
  "vprintf_output m format args output aux =
     (if m format = 0 then Some aux
      else if m format \<noteq> ch CHR ''%'' then vprintf_output m (format + 1) args output (output (m format) aux)
      else if m (format + 1) = ch CHR ''%'' then vprintf_output m (format + 2) args output (output (ch CHR ''%'') aux)
      else do {
        r \<leftarrow> parse_conversion m (format + 1) args;
        let f = m (fst r);
        s \<leftarrow> (if supported f then convert m f (fst (snd r)) (snd (snd r)) output aux
              else do {
                aux \<leftarrow> vprintf_output (lit (no_conversion f)) 1 [ucast f] output aux;
                Some (snd (snd r), aux) });
        vprintf_output m (fst r + 1) (fst s) output (snd s) })"

text \<open>\<^verbatim>\<open>vsnprintf\<close>: the auxiliary data are the position, the length and its bound, and the memory written.\<close>

record vsnprintf_aux =
  aux_p :: addr
  aux_length :: int
  aux_max_length :: int
  aux_mem :: memory

definition vsnprintf_helper :: "u8 \<Rightarrow> vsnprintf_aux \<Rightarrow> vsnprintf_aux" where
  "vsnprintf_helper c aux =
     (let len = aux_length aux; aux = aux\<lparr>aux_length := aux_length aux + 1\<rparr>
      in if len < aux_max_length aux
         then aux\<lparr>aux_mem := (aux_mem aux)(aux_p aux := c), aux_p := aux_p aux + 1\<rparr> else aux)"

definition vsnprintf :: "memory \<Rightarrow> addr \<Rightarrow> nat \<Rightarrow> memory \<Rightarrow> addr \<Rightarrow> va_list \<Rightarrow> (int \<times> memory) option" where
  "vsnprintf dst buffer buf_size m format args = do {
     let aux = \<lparr>aux_p = buffer, aux_length = 0, aux_max_length = (if buf_size > 0 then as_int (int buf_size - 1) else 0), aux_mem = dst\<rparr>;
     aux \<leftarrow> vprintf_output m format args vsnprintf_helper aux;
     Some (aux_length aux, if buf_size > 0 then (aux_mem aux)(aux_p aux := 0) else aux_mem aux) }"

definition snprintf :: "memory \<Rightarrow> addr \<Rightarrow> nat \<Rightarrow> memory \<Rightarrow> addr \<Rightarrow> va_list \<Rightarrow> (int \<times> memory) option" where
  "snprintf dst buffer buf_size m format args = vsnprintf dst buffer buf_size m format args"

section \<open>Printing\<close>

text \<open>The console is the sequence of the characters printed on it.\<close>

definition printf_mem :: "memory \<Rightarrow> va_list \<Rightarrow> bytes \<Rightarrow> bytes option" where
  "printf_mem m args con = vprintf_output m 1 args (\<lambda>c con. con @ [c]) con"

definition printf :: "string \<Rightarrow> va_list \<Rightarrow> bytes \<Rightarrow> bytes option" where
  "printf format args con = printf_mem (lit format) args con"

definition isprint :: "u8 \<Rightarrow> bool" where
  "isprint c \<longleftrightarrow> c \<ge> 32 \<and> c < 127"

primrec print_times :: "nat \<Rightarrow> string \<Rightarrow> bytes \<Rightarrow> bytes option" where
  "print_times 0 s con = Some con"
| "print_times (Suc n) s con = do { con \<leftarrow> printf s [] con; print_times n s con }"

fun dump_hex :: "nat \<Rightarrow> bytes \<Rightarrow> bytes \<Rightarrow> bytes option" where
  "dump_hex i [] con = Some con"
| "dump_hex i (b # bs) con = do {
     con \<leftarrow> printf ''%02hhx%c'' [ucast b, ucast (if i = 16 div 2 - 1 then ch CHR ''-'' else ch CHR '' '')] con;
     dump_hex (i + 1) bs con }"

fun dump_ascii :: "bytes \<Rightarrow> bytes \<Rightarrow> bytes option" where
  "dump_ascii [] con = Some con"
| "dump_ascii (b # bs) con = do {
     con \<leftarrow> printf ''%c'' [ucast (if isprint b then b else ch CHR ''.'')] con;
     dump_ascii bs con }"

function hex_dump :: "nat \<Rightarrow> bytes \<Rightarrow> bool \<Rightarrow> bytes \<Rightarrow> bytes option" where
  "hex_dump ofs buf ascii con =
     (if buf \<noteq> [] then do {
        let start = ofs mod 16;
        let finish = (if 16 - start > length buf then start + length buf else 16);
        let n = finish - start;
        con \<leftarrow> printf ''%08jx  '' [of_nat (ROUND_DOWN ofs 16), 0] con;
        con \<leftarrow> print_times start ''   '' con;
        con \<leftarrow> dump_hex start (take n buf) con;
        con \<leftarrow> (if ascii then do {
            con \<leftarrow> print_times (16 - finish) ''   '' con;
            con \<leftarrow> printf ''|'' [] con;
            con \<leftarrow> print_times start '' '' con;
            con \<leftarrow> dump_ascii (take n buf) con;
            con \<leftarrow> print_times (16 - finish) '' '' con;
            printf ''|'' [] con }
          else Some con);
        con \<leftarrow> printf [CHR 0x0A] [] con;
        hex_dump (size_add ofs n) (drop n buf) ascii con }
      else Some con)"
  by pat_completeness auto
termination
  by (relation "measure (\<lambda>(ofs, buf, ascii, con). length buf)") auto

declare hex_dump.simps [simp del]

definition factors :: "string list" where
  "factors = [''bytes'', ''kB'', ''MB'', ''GB'', ''TB'']"

function scale_size :: "u64 \<Rightarrow> nat \<Rightarrow> u64 \<times> nat" where
  "scale_size sz fp = (if sz \<ge> 1024 \<and> fp + 1 < length factors then scale_size (sz div 1024) (fp + 1) else (sz, fp))"
  by pat_completeness auto
termination
  by (relation "measure (\<lambda>(sz, fp). length factors - fp)") auto

declare scale_size.simps [simp del]

definition print_human_readable_size :: "u64 \<Rightarrow> bytes \<Rightarrow> bytes option" where
  "print_human_readable_size sz con =
     (if sz = 1 then printf ''1 byte'' [] con
      else
        let (sz, fp) = scale_size sz 0
        in printf_mem (poke 1000 (map ch (factors ! fp) @ [0]) (lit ''%llu %s'')) [ucast sz, ucast (drop_bit 32 sz), 1000] con)"

section \<open>Output as a sequence of characters\<close>

named_theorems output_simps \<open>what the output functions send to the output\<close>

lemma output_dup_fold [output_simps]: "output_dup c n output aux = fold output (replicate n c) aux"
  by (induction n arbitrary: aux) auto

lemma output_string_fold [output_simps]: "output_string n m s output aux = fold output (map m [s..<s + n]) aux"
  by (induction n arbitrary: s aux) (simp_all add: upt_conv_Cons del: upt_Suc)

definition integer_chars :: "u64 \<Rightarrow> bool \<Rightarrow> bool \<Rightarrow> integer_base \<Rightarrow> printf_conversion \<Rightarrow> bytes" where
  "integer_chars val is_signed negative b c =
     (let sign = sign_char is_signed negative c;
          x = (if POUND c \<and> val \<noteq> 0 then base_prefix b else 0);
          buf = integer_buf val b c;
          pad = nat (width c - int (length buf) - (if x \<noteq> 0 then 2 else 0) - (if sign \<noteq> 0 then 1 else 0))
      in (if \<not> MINUS c \<and> \<not> ZERO c then replicate pad (ch CHR '' '') else [])
         @ (if sign \<noteq> 0 then [sign] else []) @ (if x \<noteq> 0 then [ch CHR ''0'', x] else [])
         @ (if ZERO c then replicate pad (ch CHR ''0'') else []) @ rev buf
         @ (if MINUS c then replicate pad (ch CHR '' '') else []))"

lemma format_integer_fold: "format_integer val sg neg b c output aux = fold output (integer_chars val sg neg b c) aux"
  unfolding format_integer_def integer_chars_def Let_def output_dup_fold
  by (simp del: fold_replicate)

definition string_chars :: "memory \<Rightarrow> addr \<Rightarrow> int \<Rightarrow> printf_conversion \<Rightarrow> bytes" where
  "string_chars m s len c =
     (let pad = replicate (nat (width c - len)) (ch CHR '' '')
      in (if MINUS c then [] else pad) @ map m [s..<s + nat len] @ (if MINUS c then pad else []))"

lemma format_string_fold: "format_string m s len c output aux = fold output (string_chars m s len c) aux"
  unfolding format_string_def string_chars_def Let_def output_simps
  by (cases "width c > len") (simp_all del: fold_replicate)

lemma convert_fold: "convert m f c args output aux = Some (args', aux') \<Longrightarrow> \<exists>cs. aux' = fold output cs aux"
  by (auto simp: convert_def format_integer_fold format_string_fold Let_def
      split: option.splits bind_splits prod.splits if_splits)

lemma vprintf_fold: "vprintf_output m format args put aux = Some aux' \<Longrightarrow> \<exists>cs. aux' = fold put cs aux"
proof (induction m format args put aux aux' rule: vprintf_output.raw_induct [rotated, consumes 1])
  case (1 vprintf m format args put aux aux')
  have cons: "\<exists>cs. x = fold put cs aux" if "\<exists>cs. x = fold put cs (fold put cs' aux)" for x cs'
    using that by (metis fold_append comp_apply)
  consider (ending) "m format = 0" | (plain) "m format \<noteq> 0" "m format \<noteq> ch CHR ''%''"
    | (percent) "m format = ch CHR ''%''" "m (format + 1) = ch CHR ''%''"
    | (conversion) "m format = ch CHR ''%''" "m (format + 1) \<noteq> ch CHR ''%''"
    by blast
  then show ?case
  proof cases
    case ending
    then have "aux' = fold put [] aux" using 1(2) by simp
    then show ?thesis ..
  next
    case plain
    then have "vprintf m (format + 1) args put (put (m format) aux) = Some aux'" using 1(2) by simp
    from 1(1) [OF this] show ?thesis using cons [of _ "[m format]"] by simp
  next
    case percent
    then have "vprintf m (format + 2) args put (put (ch CHR ''%'') aux) = Some aux'" using 1(2) by (simp add: ch_def)
    from 1(1) [OF this] show ?thesis using cons [of _ "[ch CHR ''%'']"] by simp
  next
    case conversion
    then obtain r s where s: "(if supported (m (fst r)) then convert m (m (fst r)) (fst (snd r)) (snd (snd r)) put aux
              else do {
                aux \<leftarrow> vprintf (lit (no_conversion (m (fst r)))) 1 [ucast (m (fst r))] put aux;
                Some (snd (snd r), aux) }) = Some s"
      and rest: "vprintf m (fst r + 1) (fst s) put (snd s) = Some aux'"
      using 1(2) by (auto simp: Let_def ch_def split: bind_splits)
    have "\<exists>cs. snd s = fold put cs aux"
    proof (cases "supported (m (fst r))")
      case True
      then show ?thesis using s convert_fold [of m "m (fst r)" "fst (snd r)" "snd (snd r)" put aux "fst s" "snd s"] by simp
    next
      case False
      then obtain aux1 where "vprintf (lit (no_conversion (m (fst r)))) 1 [ucast (m (fst r))] put aux = Some aux1" "snd s = aux1"
        using s by (auto split: bind_splits)
      then show ?thesis using 1(1) by blast
    qed
    then obtain cs where "snd s = fold put cs aux" by blast
    then show ?thesis using 1(1) [OF rest] cons by simp
  qed
qed

text \<open>\<^verbatim>\<open>vsnprintf_helper\<close> stores the characters that fit and counts all.\<close>

lemma poke_snoc: "(poke p bs m)(p + length bs := c) = poke p (bs @ [c]) m"
  by (auto simp: poke_def fun_eq_iff nth_append)

lemma poke_Nil [simp]: "poke p [] m = m"
proof (rule ext)
  show "poke p [] m a = m a" for a by (cases "p \<le> a \<and> a < p") (auto simp: poke_def)
qed

lemma vsnprintf_helper_fold:
  "fold vsnprintf_helper cs \<lparr>aux_p = p, aux_length = 0, aux_max_length = int n, aux_mem = d\<rparr>
   = \<lparr>aux_p = p + min (length cs) n, aux_length = int (length cs), aux_max_length = int n, aux_mem = poke p (take n cs) d\<rparr>"
proof (induction cs rule: rev_induct)
  case (snoc c cs)
  then show ?case using poke_snoc [of p cs d c] by (simp add: vsnprintf_helper_def Let_def min_def)
qed simp

section \<open>Digits\<close>

lemma length_digits_loop: "unat val < 8 ^ k \<Longrightarrow> length (digits_loop val b grp n) \<le> 2 * k"
proof (induction k arbitrary: val n)
  case 0
  then show ?case by (subst digits_loop.simps) (simp add: word_less_nat_alt)
next
  case (Suc k)
  have "8 \<le> unat (base b)" by (cases b) simp_all
  then have "unat val div unat (base b) \<le> unat val div 8" by (intro div_le_mono2) simp
  also have "\<dots> < 8 ^ k" using Suc.prems by (simp add: div_less_iff_less_mult mult.commute)
  finally have "unat (val div base b) < 8 ^ k" by (simp add: unat_div_distrib)
  from Suc.IH [OF this, of "n + 1"] show ?case by (cases grp) (simp_all add: digits_loop.simps [of val])
qed

lemma length_integer_buf: "length (integer_buf val b c) \<le> 64"
proof -
  have "unat val < 8 ^ 22" using unsigned_less [of val, where ?'a = nat] by simp
  from length_digits_loop [OF this] have d: "length (digits_loop val b (GROUP c) 0) \<le> 44" by simp
  define buf where "buf = digits_loop val b (GROUP c) 0
    @ replicate (nat (min (if precision c < 0 then 1 else precision c) 63) - length (digits_loop val b (GROUP c) 0)) (ch CHR ''0'')"
  have "length buf \<le> 63" using d by (simp add: buf_def)
  then show ?thesis by (simp add: integer_buf_def Let_def buf_def [symmetric])
qed

lemma digits_value_snoc: "digits_value (cs @ [c]) = digits_value cs * 10 + (unat c - 48)"
  by (simp add: digits_value_def)

lemma decimal_digit:
  assumes "d < 10"
  shows "isdigit (ch (digits base_d ! d)) \<and> unat (ch (digits base_d ! d)) - 48 = d"
proof -
  have "d \<in> {0, 1, 2, 3, 4, 5, 6, 7, 8, 9}" using assms by auto
  then show ?thesis by (elim insertE emptyE) (simp_all add: isdigit_def ch_def)
qed

lemma digits_loop_decimal:
  "digits_value (rev (digits_loop val base_d False n)) = unat val
    \<and> (\<forall>c \<in> set (digits_loop val base_d False n). isdigit c) \<and> (val \<noteq> 0 \<longrightarrow> digits_loop val base_d False n \<noteq> [])"
proof (induction val base_d False n rule: digits_loop.induct)
  case (1 val n)
  show ?case
  proof (cases "val > 0")
    case True
    have "unat (val mod 10) < 10" by (simp add: unat_mod_distrib)
    note d = decimal_digit [OF this]
    have "unat val = unat val div 10 * 10 + unat val mod 10" by simp
    then show ?thesis using 1(1) [OF True] d True
      by (subst (1 2 3) digits_loop.simps) (simp add: digits_value_snoc unat_div_distrib unat_mod_distrib)
  next
    case False
    then show ?thesis by (subst (1 2 3) digits_loop.simps) (simp add: digits_value_def word_not_simps(1) not_less)
  qed
qed

lemma length_decimal: "unat val < 10 ^ k \<Longrightarrow> length (digits_loop val base_d False n) \<le> k"
proof (induction k arbitrary: val n)
  case 0
  then show ?case by (subst digits_loop.simps) (simp add: word_less_nat_alt)
next
  case (Suc k)
  then have "unat (val div 10) < 10 ^ k" by (simp add: unat_div_distrib div_less_iff_less_mult mult.commute)
  from Suc.IH [OF this, of "n + 1"] show ?case by (simp add: digits_loop.simps [of val])
qed

text \<open>The characters of \<^verbatim>\<open>%d\<close> with no options.\<close>

definition decimal :: "u64 \<Rightarrow> bytes" where
  "decimal val = (if val = 0 then [ch CHR ''0''] else rev (digits_loop val base_d False 0))"

lemma decimal_value: "digits_value (decimal val) = unat val" "\<forall>c \<in> set (decimal val). isdigit c" "decimal val \<noteq> []"
  using digits_loop_decimal [of val 0] by (auto simp: decimal_def digits_value_def isdigit_def ch_def)

abbreviation plain_conversion :: printf_conversion where
  "plain_conversion \<equiv> \<lparr>MINUS = False, PLUS = False, SPACE = False, POUND = False, ZERO = False,
     GROUP = False, width = 0, precision = - 1, arg_type = T_INT\<rparr>"

lemma parse_plain:
  assumes "m p = ch CHR ''d''"
  shows "parse_conversion m p args = Some (p, plain_conversion, args)"
proof -
  have "parse_flags m p plain_conversion = Some (p, plain_conversion)" using assms by (subst parse_flags.simps) (simp add: ch_def)
  moreover have "parse_number m p 0 = Some (p, 0)" using assms by (subst parse_number.simps) (simp add: isdigit_def ch_def)
  ultimately show ?thesis using assms
    by (simp add: parse_conversion_def parse_width_def parse_precision_def parse_type_def ch_def)
qed

lemma convert_d:
  "convert m (ch CHR ''d'') plain_conversion (w # args) put aux
   = Some (args, fold put ((if sint w < 0 then [ch CHR ''-''] else []) @ decimal (if sint w < 0 then - scast w else scast w)) aux)"
proof -
  have buf: "rev (integer_buf v base_d plain_conversion) = decimal v" for v
    using digits_loop_decimal [of v 0] by (auto simp: integer_buf_def decimal_def Let_def digits_loop.simps [of 0] Suc_le_eq)
  have s: "sint (scast w :: u64) = sint w"
    using sint_ge [of w] sint_lt [of w] by (subst scast_eq, subst signed_of_int) (simp add: signed_take_bit_int_eq_self)
  have chars: "integer_chars v True neg base_d plain_conversion = (if neg then [ch CHR ''-''] else []) @ decimal v" for v neg
    using buf [of v] by (simp add: integer_chars_def sign_char_def Let_def ch_def)
  show ?thesis by (simp add: convert_def format_integer_fold chars s)
qed

lemma vprintf_percent_d:
  "vprintf_output (lit ''%d'') 1 [w] put aux
   = Some (fold put ((if sint w < 0 then [ch CHR ''-''] else []) @ decimal (if sint w < 0 then - scast w else scast w)) aux)"
proof -
  let ?m = "lit ''%d''"
  let ?r = "fold put ((if sint w < 0 then [ch CHR ''-''] else []) @ decimal (if sint w < 0 then - scast w else scast w)) aux"
  have m: "?m 1 = ch CHR ''%''" "?m (1 + 1) = ch CHR ''d''" "?m (1 + 1 + 1) = 0" by (simp_all add: lit_def)
  have ne: "ch CHR ''%'' \<noteq> 0" "ch CHR ''d'' \<noteq> ch CHR ''%''" "supported (ch CHR ''d'')" by (simp_all add: ch_def supported_def)
  have ends: "vprintf_output ?m (1 + 1 + 1) [] put ?r = Some ?r"
    by (subst vprintf_output.simps) (simp only: m if_True refl)
  show ?thesis
    by (subst vprintf_output.simps)
      (simp only: m ne if_False if_True parse_plain [where m = ?m and p = "1 + 1", OF m(2)] Option.bind.bind_lunit fst_conv snd_conv Let_def convert_d ends not_False_eq_True refl simp_thms)
qed

section \<open>Properties\<close>

text \<open>
  C29: printing a number and parsing it are inverse. For every \<^verbatim>\<open>int\<close>, \<^verbatim>\<open>snprintf\<close> with the format
  \<^verbatim>\<open>%d\<close> into a buffer of at least twelve bytes returns, and \<^verbatim>\<open>atoi\<close> of the buffer is the number.
\<close>

theorem snprintf_atoi:
  assumes "- (2 ^ 31) \<le> x" and "x < 2 ^ 31" and "12 \<le> size_buf" and "size_buf \<le> 2 ^ 31" and "buffer \<noteq> NULL"
  shows "\<exists>n mem. snprintf dst buffer size_buf (lit ''%d'') 1 [word_of_int x] = Some (n, mem) \<and> atoi mem buffer = Some x"
proof -
  let ?w = "word_of_int x :: u32"
  define v where "v = (if x < 0 then - scast ?w else scast ?w :: u64)"
  let ?sg = "if x < 0 then [ch CHR ''-''] else []"
  let ?cs = "?sg @ decimal v"
  have w: "sint ?w = x" using assms(1,2) by (simp add: signed_of_int signed_take_bit_int_eq_self)
  have val: "unat v = nat \<bar>x\<bar>"
  proof -
    have "v = word_of_int \<bar>x\<bar>" using w by (simp add: v_def scast_eq)
    then show ?thesis using assms(1,2) by (simp add: unsigned_of_int take_bit_int_eq_self)
  qed
  have "length (digits_loop v base_d False 0) \<le> 10" by (rule length_decimal) (use val assms(1,2) in simp)
  then have len: "length ?cs \<le> 11" by (simp add: decimal_def)
  define k where "k = size_buf - 1"
  have k: "as_int (int size_buf - 1) = int k" "length ?cs \<le> k" using assms(3,4) len by (auto simp: as_int_def k_def)
  let ?mem = "poke buffer (?cs @ [0]) dst"
  have "snprintf dst buffer size_buf (lit ''%d'') 1 [?w] = Some (int (length ?cs), ?mem)"
    using k assms(3) vsnprintf_helper_fold [of ?cs buffer k dst] poke_snoc [of buffer ?cs dst 0]
    by (simp add: snprintf_def vsnprintf_def vprintf_percent_d [simplified] w min_absorb1 Let_def v_def [symmetric])
  moreover have "atoi ?mem buffer = Some x"
  proof (rule atoi_cstr [of _ _ "[]" ?sg "decimal v" "[]"])
    have "0 \<notin> set ?cs" using decimal_value(2) [of v] by (auto simp: isdigit_def ch_def)
    then show "cstr ?mem buffer ([] @ ?sg @ decimal v @ [])" using poke_cstr [of ?cs buffer dst] by simp
    show "x = (if ?sg = [45] then - int (digits_value (decimal v)) else int (digits_value (decimal v)))"
      unfolding decimal_value(1) val by (simp add: ch_def)
  qed (use assms decimal_value in \<open>auto simp: ch_def\<close>)
  ultimately show ?thesis by blast
qed

theorem snprintf_atoi_witness:
  "\<exists>n mem. snprintf (\<lambda>_. 7) 100 16 (lit ''%d'') 1 [word_of_int (- 2147483648)] = Some (n, mem) \<and> atoi mem 100 = Some (- 2147483648)"
  by (rule snprintf_atoi) simp_all



text \<open>
  the digits, separators and leading zeros of a number never overrun the 64 bytes of \<^verbatim>\<open>buf\<close> in
  \<^verbatim>\<open>format_integer\<close>, for every value, base, precision and combination of flags.
\<close>

theorem format_integer_buffer: "length (integer_buf val b c) \<le> 64"
  by (rule length_integer_buf)

end
