(* ===== verification/Kernel_List.thy ===== *)
theory Kernel_List
  imports Kernel_Prelude
begin

text \<open>
  The doubly linked lists of \<^verbatim>\<open>lib/kernel/list.c\<close>, at the level of their pointers. A
  \<^verbatim>\<open>struct list_elem\<close> is an address whose two links are fields of a heap; a \<^verbatim>\<open>struct list\<close> at
  address \<open>l\<close> has its head element at \<open>l\<close> and its tail element at \<open>l + 8\<close>. Every operation is
  the code's sequence of link assignments; loops that walk links are
  \<^theory_text>\<open>partial_function (option)\<close>, so that a walk that never ends or an assertion that fails
  is \<open>None\<close>. The lemmas show that on a well-formed list (\<open>list_rep\<close>) each operation returns and
  does to the represented sequence what its comment says, touching no address outside the list.
\<close>

section \<open>The heap of list elements\<close>

record list_heap =
  prev_of :: "addr \<Rightarrow> addr"
  next_of :: "addr \<Rightarrow> addr"

definition set_prev :: "list_heap \<Rightarrow> addr \<Rightarrow> addr \<Rightarrow> list_heap" where
  "set_prev h e p = h\<lparr>prev_of := (prev_of h)(e := p)\<rparr>"

definition set_next :: "list_heap \<Rightarrow> addr \<Rightarrow> addr \<Rightarrow> list_heap" where
  "set_next h e p = h\<lparr>next_of := (next_of h)(e := p)\<rparr>"

type_synonym list_less_func = "addr \<Rightarrow> addr \<Rightarrow> bool"

definition is_head :: "list_heap \<Rightarrow> addr \<Rightarrow> bool" where
  "is_head h elem \<longleftrightarrow> elem \<noteq> NULL \<and> prev_of h elem = NULL \<and> next_of h elem \<noteq> NULL"

definition is_interior :: "list_heap \<Rightarrow> addr \<Rightarrow> bool" where
  "is_interior h elem \<longleftrightarrow> elem \<noteq> NULL \<and> prev_of h elem \<noteq> NULL \<and> next_of h elem \<noteq> NULL"

definition is_tail :: "list_heap \<Rightarrow> addr \<Rightarrow> bool" where
  "is_tail h elem \<longleftrightarrow> elem \<noteq> NULL \<and> prev_of h elem \<noteq> NULL \<and> next_of h elem = NULL"

section \<open>Operations\<close>

definition list_init :: "list_heap \<Rightarrow> addr \<Rightarrow> list_heap option" where
  "list_init h l = do {
     ASSERT (l \<noteq> NULL);
     let h = set_prev h l NULL;
     let h = set_next h l (l + 8);
     let h = set_prev h (l + 8) l;
     Some (set_next h (l + 8) NULL) }"

definition list_begin :: "list_heap \<Rightarrow> addr \<Rightarrow> addr option" where
  "list_begin h l = do { ASSERT (l \<noteq> NULL); Some (next_of h l) }"

definition list_next :: "list_heap \<Rightarrow> addr \<Rightarrow> addr option" where
  "list_next h elem = do { ASSERT (is_head h elem \<or> is_interior h elem); Some (next_of h elem) }"

definition list_end :: "addr \<Rightarrow> addr option" where
  "list_end l = do { ASSERT (l \<noteq> NULL); Some (l + 8) }"

definition list_rbegin :: "list_heap \<Rightarrow> addr \<Rightarrow> addr option" where
  "list_rbegin h l = do { ASSERT (l \<noteq> NULL); Some (prev_of h (l + 8)) }"

definition list_prev :: "list_heap \<Rightarrow> addr \<Rightarrow> addr option" where
  "list_prev h elem = do { ASSERT (is_interior h elem \<or> is_tail h elem); Some (prev_of h elem) }"

definition list_rend :: "addr \<Rightarrow> addr option" where
  "list_rend l = do { ASSERT (l \<noteq> NULL); Some l }"

definition list_head :: "addr \<Rightarrow> addr option" where
  "list_head l = do { ASSERT (l \<noteq> NULL); Some l }"

definition list_tail :: "addr \<Rightarrow> addr option" where
  "list_tail l = do { ASSERT (l \<noteq> NULL); Some (l + 8) }"

definition list_insert :: "list_heap \<Rightarrow> addr \<Rightarrow> addr \<Rightarrow> list_heap option" where
  "list_insert h before elem = do {
     ASSERT (is_interior h before \<or> is_tail h before);
     ASSERT (elem \<noteq> NULL);
     let h = set_prev h elem (prev_of h before);
     let h = set_next h elem before;
     let h = set_next h (prev_of h before) elem;
     Some (set_prev h before elem) }"

definition list_splice :: "list_heap \<Rightarrow> addr \<Rightarrow> addr \<Rightarrow> addr \<Rightarrow> list_heap option" where
  "list_splice h before first lastp = do {
     ASSERT (is_interior h before \<or> is_tail h before);
     if first = lastp then Some h
     else do {
       lastp \<leftarrow> list_prev h lastp;
       ASSERT (is_interior h first);
       ASSERT (is_interior h lastp);
       let h = set_next h (prev_of h first) (next_of h lastp);
       let h = set_prev h (next_of h lastp) (prev_of h first);
       let h = set_prev h first (prev_of h before);
       let h = set_next h lastp before;
       let h = set_next h (prev_of h before) first;
       Some (set_prev h before lastp) } }"

definition list_push_front :: "list_heap \<Rightarrow> addr \<Rightarrow> addr \<Rightarrow> list_heap option" where
  "list_push_front h l elem = do { b \<leftarrow> list_begin h l; list_insert h b elem }"

definition list_push_back :: "list_heap \<Rightarrow> addr \<Rightarrow> addr \<Rightarrow> list_heap option" where
  "list_push_back h l elem = do { e \<leftarrow> list_end l; list_insert h e elem }"

definition list_remove :: "list_heap \<Rightarrow> addr \<Rightarrow> (addr \<times> list_heap) option" where
  "list_remove h elem = do {
     ASSERT (is_interior h elem);
     let h = set_next h (prev_of h elem) (next_of h elem);
     let h = set_prev h (next_of h elem) (prev_of h elem);
     Some (next_of h elem, h) }"

definition list_empty :: "list_heap \<Rightarrow> addr \<Rightarrow> bool option" where
  "list_empty h l = do { b \<leftarrow> list_begin h l; e \<leftarrow> list_end l; Some (b = e) }"

definition list_front :: "list_heap \<Rightarrow> addr \<Rightarrow> addr option" where
  "list_front h l = do { b \<leftarrow> list_empty h l; ASSERT (\<not> b); Some (next_of h l) }"

definition list_back :: "list_heap \<Rightarrow> addr \<Rightarrow> addr option" where
  "list_back h l = do { b \<leftarrow> list_empty h l; ASSERT (\<not> b); Some (prev_of h (l + 8)) }"

definition list_pop_front :: "list_heap \<Rightarrow> addr \<Rightarrow> (addr \<times> list_heap) option" where
  "list_pop_front h l = do {
     front \<leftarrow> list_front h l;
     (_, h) \<leftarrow> list_remove h front;
     Some (front, h) }"

definition list_pop_back :: "list_heap \<Rightarrow> addr \<Rightarrow> (addr \<times> list_heap) option" where
  "list_pop_back h l = do {
     back \<leftarrow> list_back h l;
     (_, h) \<leftarrow> list_remove h back;
     Some (back, h) }"

partial_function (option) list_size_loop :: "list_heap \<Rightarrow> addr \<Rightarrow> addr \<Rightarrow> nat \<Rightarrow> nat option" where
  "list_size_loop h e endp cnt =
     (if e = endp then Some cnt
      else do { e' \<leftarrow> list_next h e; list_size_loop h e' endp (cnt + 1) })"

definition list_size :: "list_heap \<Rightarrow> addr \<Rightarrow> nat option" where
  "list_size h l = do { b \<leftarrow> list_begin h l; e \<leftarrow> list_end l; list_size_loop h b e 0 }"

text \<open>\<open>swap\<close> of the two links of one element, and of links of two elements.\<close>

definition swap_links :: "list_heap \<Rightarrow> addr \<Rightarrow> list_heap" where
  "swap_links h e = set_next (set_prev h e (next_of h e)) e (prev_of h e)"

definition swap_next_prev :: "list_heap \<Rightarrow> addr \<Rightarrow> addr \<Rightarrow> list_heap" where
  "swap_next_prev h a b = set_prev (set_next h a (prev_of h b)) b (next_of h a)"

partial_function (option) list_reverse_loop :: "list_heap \<Rightarrow> addr \<Rightarrow> addr \<Rightarrow> list_heap option" where
  "list_reverse_loop h e endp =
     (if e = endp then Some h
      else if e = NULL then None
      else let h' = swap_links h e in list_reverse_loop h' (prev_of h' e) endp)"

definition list_reverse :: "list_heap \<Rightarrow> addr \<Rightarrow> list_heap option" where
  "list_reverse h l = do {
     emp \<leftarrow> list_empty h l;
     if emp then Some h
     else do {
       b \<leftarrow> list_begin h l;
       e \<leftarrow> list_end l;
       h \<leftarrow> list_reverse_loop h b e;
       let h = swap_next_prev h l (l + 8);
       Some (swap_next_prev h (prev_of h (l + 8)) (next_of h l)) } }"

partial_function (option) is_sorted_loop ::
  "list_heap \<Rightarrow> list_less_func \<Rightarrow> addr \<Rightarrow> addr \<Rightarrow> bool option" where
  "is_sorted_loop h lt a b = do {
     a' \<leftarrow> list_next h a;
     if a' = b then Some True
     else do {
       p \<leftarrow> list_prev h a';
       if lt a' p then Some False else is_sorted_loop h lt a' b } }"

definition is_sorted :: "list_heap \<Rightarrow> addr \<Rightarrow> addr \<Rightarrow> list_less_func \<Rightarrow> bool option" where
  "is_sorted h a b lt = (if a \<noteq> b then is_sorted_loop h lt a b else Some True)"

partial_function (option) find_end_of_run_loop ::
  "list_heap \<Rightarrow> list_less_func \<Rightarrow> addr \<Rightarrow> addr \<Rightarrow> addr option" where
  "find_end_of_run_loop h lt a b = do {
     a' \<leftarrow> list_next h a;
     if a' \<noteq> b then do {
       p \<leftarrow> list_prev h a';
       if \<not> lt a' p then find_end_of_run_loop h lt a' b else Some a' }
     else Some a' }"

definition find_end_of_run :: "list_heap \<Rightarrow> addr \<Rightarrow> addr \<Rightarrow> list_less_func \<Rightarrow> addr option" where
  "find_end_of_run h a b lt = do {
     ASSERT (a \<noteq> NULL); ASSERT (b \<noteq> NULL); ASSERT (a \<noteq> b);
     find_end_of_run_loop h lt a b }"

partial_function (option) inplace_merge_loop ::
  "list_less_func \<Rightarrow> list_heap \<Rightarrow> addr \<Rightarrow> addr \<Rightarrow> addr \<Rightarrow> list_heap option" where
  "inplace_merge_loop lt h a0 a1b0 b1 =
     (if a0 \<noteq> a1b0 \<and> a1b0 \<noteq> b1 then
        (if \<not> lt a1b0 a0 then do {
           a0' \<leftarrow> list_next h a0;
           inplace_merge_loop lt h a0' a1b0 b1 }
         else do {
           a1b0' \<leftarrow> list_next h a1b0;
           p \<leftarrow> list_prev h a1b0';
           h' \<leftarrow> list_splice h a0 p a1b0';
           inplace_merge_loop lt h' a0 a1b0' b1 })
      else Some h)"

definition inplace_merge ::
  "list_heap \<Rightarrow> addr \<Rightarrow> addr \<Rightarrow> addr \<Rightarrow> list_less_func \<Rightarrow> list_heap option" where
  "inplace_merge h a0 a1b0 b1 lt = do {
     ASSERT (a0 \<noteq> NULL); ASSERT (a1b0 \<noteq> NULL); ASSERT (b1 \<noteq> NULL);
     s1 \<leftarrow> is_sorted h a0 a1b0 lt; ASSERT s1;
     s2 \<leftarrow> is_sorted h a1b0 b1 lt; ASSERT s2;
     inplace_merge_loop lt h a0 a1b0 b1 }"

text \<open>One pass of the merge sort: merges adjacent pairs of runs and counts the runs it leaves.\<close>

partial_function (option) list_sort_pass ::
  "list_less_func \<Rightarrow> list_heap \<Rightarrow> addr \<Rightarrow> addr \<Rightarrow> nat \<Rightarrow> (list_heap \<times> nat) option" where
  "list_sort_pass lt h a0 endp cnt =
     (if a0 = endp then Some (h, cnt)
      else do {
        a1b0 \<leftarrow> find_end_of_run h a0 endp lt;
        if a1b0 = endp then Some (h, cnt + 1)
        else do {
          b1 \<leftarrow> find_end_of_run h a1b0 endp lt;
          h' \<leftarrow> inplace_merge h a0 a1b0 b1 lt;
          list_sort_pass lt h' b1 endp (cnt + 1) } })"

partial_function (option) list_sort_loop ::
  "list_less_func \<Rightarrow> list_heap \<Rightarrow> addr \<Rightarrow> list_heap option" where
  "list_sort_loop lt h l = do {
     b \<leftarrow> list_begin h l;
     e \<leftarrow> list_end l;
     (h', output_run_cnt) \<leftarrow> list_sort_pass lt h b e 0;
     if 1 < output_run_cnt then list_sort_loop lt h' l else Some h' }"

definition list_sort :: "list_heap \<Rightarrow> addr \<Rightarrow> list_less_func \<Rightarrow> list_heap option" where
  "list_sort h l lt = do {
     ASSERT (l \<noteq> NULL);
     h \<leftarrow> list_sort_loop lt h l;
     b \<leftarrow> list_begin h l;
     e \<leftarrow> list_end l;
     s \<leftarrow> is_sorted h b e lt;
     ASSERT s;
     Some h }"

partial_function (option) insert_ordered_loop ::
  "list_heap \<Rightarrow> list_less_func \<Rightarrow> addr \<Rightarrow> addr \<Rightarrow> addr \<Rightarrow> addr option" where
  "insert_ordered_loop h lt elem e endp =
     (if e = endp then Some e
      else if lt elem e then Some e
      else do { e' \<leftarrow> list_next h e; insert_ordered_loop h lt elem e' endp })"

definition list_insert_ordered :: "list_heap \<Rightarrow> addr \<Rightarrow> addr \<Rightarrow> list_less_func \<Rightarrow> list_heap option" where
  "list_insert_ordered h l elem lt = do {
     ASSERT (l \<noteq> NULL);
     ASSERT (elem \<noteq> NULL);
     b \<leftarrow> list_begin h l;
     e \<leftarrow> list_end l;
     pos \<leftarrow> insert_ordered_loop h lt elem b e;
     list_insert h pos elem }"

partial_function (option) list_unique_loop ::
  "list_less_func \<Rightarrow> addr option \<Rightarrow> list_heap \<Rightarrow> addr \<Rightarrow> addr \<Rightarrow> list_heap option" where
  "list_unique_loop lt duplicates h elem endp = do {
     nxt \<leftarrow> list_next h elem;
     if nxt = endp then Some h
     else if \<not> lt elem nxt \<and> \<not> lt nxt elem then do {
       (_, h') \<leftarrow> list_remove h nxt;
       h'' \<leftarrow> (case duplicates of None \<Rightarrow> Some h' | Some d \<Rightarrow> list_push_back h' d nxt);
       list_unique_loop lt duplicates h'' elem endp }
     else list_unique_loop lt duplicates h nxt endp }"

definition list_unique ::
  "list_heap \<Rightarrow> addr \<Rightarrow> addr option \<Rightarrow> list_less_func \<Rightarrow> list_heap option" where
  "list_unique h l duplicates lt = do {
     ASSERT (l \<noteq> NULL);
     emp \<leftarrow> list_empty h l;
     if emp then Some h
     else do {
       b \<leftarrow> list_begin h l;
       e \<leftarrow> list_end l;
       list_unique_loop lt duplicates h b e } }"

partial_function (option) list_max_loop ::
  "list_heap \<Rightarrow> list_less_func \<Rightarrow> addr \<Rightarrow> addr \<Rightarrow> addr \<Rightarrow> addr option" where
  "list_max_loop h lt m e endp =
     (if e = endp then Some m
      else do {
        let m' = (if lt m e then e else m);
        e' \<leftarrow> list_next h e;
        list_max_loop h lt m' e' endp })"

definition list_max :: "list_heap \<Rightarrow> addr \<Rightarrow> list_less_func \<Rightarrow> addr option" where
  "list_max h l lt = do {
     m \<leftarrow> list_begin h l;
     endp \<leftarrow> list_end l;
     if m \<noteq> endp then do { e \<leftarrow> list_next h m; list_max_loop h lt m e endp }
     else Some m }"

partial_function (option) list_min_loop ::
  "list_heap \<Rightarrow> list_less_func \<Rightarrow> addr \<Rightarrow> addr \<Rightarrow> addr \<Rightarrow> addr option" where
  "list_min_loop h lt m e endp =
     (if e = endp then Some m
      else do {
        let m' = (if lt e m then e else m);
        e' \<leftarrow> list_next h e;
        list_min_loop h lt m' e' endp })"

definition list_min :: "list_heap \<Rightarrow> addr \<Rightarrow> list_less_func \<Rightarrow> addr option" where
  "list_min h l lt = do {
     m \<leftarrow> list_begin h l;
     endp \<leftarrow> list_end l;
     if m \<noteq> endp then do { e \<leftarrow> list_next h m; list_min_loop h lt m e endp }
     else Some m }"

declare neq0_conv [simp del]

section \<open>Well-formed lists\<close>

text \<open>
  \<open>linked h ns\<close>: adjacent nodes of \<open>ns\<close> point at each other. \<open>dll h ns\<close>: the nodes of a whole
  list, headers included. \<open>list_rep h l xs\<close>: the list at \<open>l\<close> holds the elements \<open>xs\<close>.
\<close>

fun linked :: "list_heap \<Rightarrow> addr list \<Rightarrow> bool" where
  "linked h (a # b # ns) \<longleftrightarrow> next_of h a = b \<and> prev_of h b = a \<and> linked h (b # ns)"
| "linked h [a] \<longleftrightarrow> True"
| "linked h [] \<longleftrightarrow> True"

definition dll :: "list_heap \<Rightarrow> addr list \<Rightarrow> bool" where
  "dll h ns \<longleftrightarrow> distinct ns \<and> NULL \<notin> set ns \<and> linked h ns \<and> 2 \<le> length ns
     \<and> prev_of h (hd ns) = NULL \<and> next_of h (last ns) = NULL"

definition list_nodes :: "addr \<Rightarrow> addr list \<Rightarrow> addr list" where
  "list_nodes l xs = l # xs @ [l + 8]"

definition list_rep :: "list_heap \<Rightarrow> addr \<Rightarrow> addr list \<Rightarrow> bool" where
  "list_rep h l xs \<longleftrightarrow> dll h (list_nodes l xs)"

text \<open>\<open>h'\<close> differs from \<open>h\<close> only at addresses of \<open>A\<close>.\<close>

definition same_outside :: "addr set \<Rightarrow> list_heap \<Rightarrow> list_heap \<Rightarrow> bool" where
  "same_outside A h h' \<longleftrightarrow>
     (\<forall>x. x \<notin> A \<longrightarrow> prev_of h' x = prev_of h x \<and> next_of h' x = next_of h x)"

lemma set_links [simp]:
  "prev_of (set_prev h e p) = (prev_of h)(e := p)" "next_of (set_prev h e p) = next_of h"
  "next_of (set_next h e p) = (next_of h)(e := p)" "prev_of (set_next h e p) = prev_of h"
  by (simp_all add: set_prev_def set_next_def)

lemma linked_append:
  "linked h (xs @ a # ys) \<longleftrightarrow> linked h (xs @ [a]) \<and> linked h (a # ys)"
  by (induction h xs rule: linked.induct) auto

lemma linked_cong:
  assumes "\<And>x. x \<in> set (butlast ns) \<Longrightarrow> next_of h' x = next_of h x"
    and "\<And>x. x \<in> set (tl ns) \<Longrightarrow> prev_of h' x = prev_of h x"
  shows "linked h' ns \<longleftrightarrow> linked h ns"
  using assms by (induction h ns rule: linked.induct) auto

lemma linked_upd_last_next [simp]:
  "distinct (xs @ [a]) \<Longrightarrow> linked (set_next h a v) (xs @ [a]) = linked h (xs @ [a])"
  by (rule linked_cong) (auto simp: set_next_def)

lemma linked_upd_hd_prev [simp]:
  "distinct (a # xs) \<Longrightarrow> linked (set_prev h a v) (a # xs) = linked h (a # xs)"
  by (rule linked_cong) (auto simp: set_prev_def)

lemma linked_upd_next_other [simp]:
  "a \<notin> set xs \<Longrightarrow> linked (set_next h a v) xs = linked h xs"
  by (rule linked_cong) (auto simp: set_next_def dest: in_set_butlastD)

lemma linked_upd_prev_other [simp]:
  "a \<notin> set xs \<Longrightarrow> linked (set_prev h a v) xs = linked h xs"
  by (rule linked_cong) (auto simp: set_prev_def dest: in_set_tlD)

lemma dll_same_outside:
  assumes "dll h ns" and "same_outside A h h'" and "A \<inter> set ns = {}"
  shows "dll h' ns"
proof -
  have "x \<in> set ns \<Longrightarrow> prev_of h' x = prev_of h x \<and> next_of h' x = next_of h x" for x
    using assms by (auto simp: same_outside_def)
  moreover have "hd ns \<in> set ns" "last ns \<in> set ns"
    using assms(1) by (auto simp: dll_def intro: hd_in_set last_in_set)
  moreover have "linked h' ns = linked h ns"
    by (rule linked_cong) (use calculation in \<open>auto dest: in_set_butlastD in_set_tlD\<close>)
  ultimately show ?thesis using assms(1) by (auto simp: dll_def)
qed

text \<open>The neighbours of a node that is not the last one.\<close>

lemma dll_at:
  assumes "dll h (us @ a # b # vs)"
  shows "next_of h a = b" "prev_of h b = a" "a \<noteq> NULL" "b \<noteq> NULL" "a \<noteq> b"
    "is_head h a \<or> is_interior h a" "is_interior h b \<or> is_tail h b"
    "us \<noteq> [] \<Longrightarrow> is_interior h a" "vs \<noteq> [] \<Longrightarrow> is_interior h b"
proof -
  have l: "linked h (a # b # vs)" "linked h (us @ [a])"
    using assms linked_append [of h us a "b # vs"] by (auto simp: dll_def)
  show *: "next_of h a = b" "prev_of h b = a" "a \<noteq> NULL" "b \<noteq> NULL" "a \<noteq> b"
    using l assms by (auto simp: dll_def)
  show i: "is_interior h a" if "us \<noteq> []"
  proof -
    obtain us' u where us: "us = us' @ [u]"
      using \<open>us \<noteq> []\<close> by (cases us rule: rev_cases) auto
    have "linked h (us' @ u # [a])"
      using l(2) by (simp add: us)
    then have "prev_of h a = u"
      using linked_append [of h us' u "[a]"] by simp
    moreover have "u \<noteq> NULL" using assms by (auto simp: dll_def us)
    ultimately show ?thesis using * by (simp add: is_interior_def)
  qed
  show "is_head h a \<or> is_interior h a"
    using i * assms by (cases us) (auto simp: dll_def is_head_def)
  show n: "is_interior h b" if "vs \<noteq> []"
    using that l(1) assms * by (cases vs) (auto simp: dll_def is_interior_def)
  show "is_interior h b \<or> is_tail h b"
    using n * assms by (cases vs) (auto simp: dll_def is_tail_def)
qed

lemma list_next_at: "dll h (us @ a # b # vs) \<Longrightarrow> list_next h a = Some b"
  by (simp add: list_next_def dll_at)

lemma list_prev_at: "dll h (us @ a # b # vs) \<Longrightarrow> list_prev h b = Some a"
  by (simp add: list_prev_def dll_at)

subsection \<open>Insertion, removal and splicing\<close>

lemma linked_join:
  assumes "xs \<noteq> []" and "ys \<noteq> []"
  shows "linked h (xs @ ys) \<longleftrightarrow>
    linked h xs \<and> linked h ys \<and> next_of h (last xs) = hd ys \<and> prev_of h (hd ys) = last xs"
proof -
  obtain a xs' b ys' where *: "xs = xs' @ [a]" "ys = b # ys'"
    using assms by (metis list.exhaust rev_exhaust)
  show ?thesis
    using linked_append [of h xs' a ys] by (auto simp: *)
qed

lemma linked_cong_distinct:
  assumes "distinct xs"
    and "\<And>x. x \<in> set xs \<Longrightarrow> x \<noteq> last xs \<Longrightarrow> next_of h' x = next_of h x"
    and "\<And>x. x \<in> set xs \<Longrightarrow> x \<noteq> hd xs \<Longrightarrow> prev_of h' x = prev_of h x"
  shows "linked h' xs = linked h xs"
proof (rule linked_cong)
  show "next_of h' x = next_of h x" if "x \<in> set (butlast xs)" for x
    using that assms(1,2) by (metis in_set_butlastD last_notin_butlast)
  show "prev_of h' x = prev_of h x" if "x \<in> set (tl xs)" for x
    using that assms(1,3) by (metis in_set_tlD hd_notin_tl)
qed

lemma dll_join:
  assumes "us \<noteq> []" and "vs \<noteq> []"
  shows "dll h (us @ vs) \<longleftrightarrow>
    distinct (us @ vs) \<and> NULL \<notin> set (us @ vs) \<and> prev_of h (hd us) = NULL \<and> next_of h (last vs) = NULL
    \<and> linked h us \<and> linked h vs \<and> next_of h (last us) = hd vs \<and> prev_of h (hd vs) = last us"
proof -
  have "2 \<le> length (us @ vs)"
    using assms by (cases us; cases vs) auto
  then show ?thesis
    using assms linked_join [OF assms, of h] by (auto simp: dll_def)
qed

lemma dll_snoc_join:
  assumes "vs \<noteq> []"
  shows "dll h (us @ p # vs) \<longleftrightarrow>
    distinct (us @ p # vs) \<and> NULL \<notin> set (us @ p # vs) \<and> prev_of h (hd (us @ [p])) = NULL
    \<and> next_of h (last vs) = NULL
    \<and> linked h (us @ [p]) \<and> linked h vs \<and> next_of h p = hd vs \<and> prev_of h (hd vs) = p"
  using dll_join [of "us @ [p]" vs h] assms by simp

lemma list_insert_dll:
  assumes d: "dll h (us @ p # b # vs)" and e: "e \<notin> set (us @ p # b # vs)" "e \<noteq> NULL"
  obtains h' where "list_insert h b e = Some h'" "dll h' (us @ p # e # b # vs)"
    "same_outside {e, p, b} h h'"
proof -
  let ?h = "set_prev (set_next (set_next (set_prev h e p) e b) p e) b e"
  note j = d [unfolded dll_snoc_join [OF list.distinct(2)]]
  have "list_insert h b e = Some ?h"
    using dll_at [OF d] e by (auto simp: list_insert_def)
  moreover have "dll ?h (us @ p # e # b # vs)"
  proof -
    have "linked ?h (us @ [p]) = linked h (us @ [p])" "linked ?h (b # vs) = linked h (b # vs)"
      using j e by (auto intro!: linked_cong_distinct)
    then show ?thesis
      using j e hd_in_set [of us] last_in_set [of vs]
      by (auto simp: dll_snoc_join hd_append split: if_splits)
  qed
  moreover have "same_outside {e, p, b} h ?h"
    by (auto simp: same_outside_def)
  ultimately show thesis using that by simp
qed

lemma list_remove_dll:
  assumes d: "dll h (us @ p # e # b # vs)"
  obtains h' where "list_remove h e = Some (b, h')" "dll h' (us @ p # b # vs)"
    "same_outside {p, b} h h'"
proof -
  let ?h = "set_prev (set_next h p b) b p"
  note j = d [unfolded dll_snoc_join [OF list.distinct(2)]]
  have e: "next_of h e = b" "prev_of h e = p" "e \<noteq> NULL" "b \<noteq> NULL" "p \<noteq> NULL" "e \<noteq> p"
    using j by auto
  have "list_remove h e = Some (b, ?h)"
    using e by (auto simp: list_remove_def is_interior_def)
  moreover have "dll ?h (us @ p # b # vs)"
  proof -
    have "linked ?h (us @ [p]) = linked h (us @ [p])" "linked ?h (b # vs) = linked h (b # vs)"
      using j by (auto intro!: linked_cong_distinct)
    then show ?thesis
      using j hd_in_set [of us] last_in_set [of vs]
      by (auto simp: dll_snoc_join hd_append split: if_splits)
  qed
  moreover have "same_outside {p, b} h ?h"
    by (auto simp: same_outside_def)
  ultimately show thesis using that by simp
qed

text \<open>The inner links of the first and last element of a segment are not null.\<close>

lemma linked_hd_next:
  "\<lbrakk>linked h xs; xs \<noteq> []; next_of h (last xs) \<noteq> NULL; NULL \<notin> set xs\<rbrakk> \<Longrightarrow> next_of h (hd xs) \<noteq> NULL"
  by (induction h xs rule: linked.induct) auto

lemma linked_last_prev:
  "\<lbrakk>linked h xs; xs \<noteq> []; prev_of h (hd xs) \<noteq> NULL; NULL \<notin> set xs\<rbrakk> \<Longrightarrow> prev_of h (last xs) \<noteq> NULL"
  by (induction h xs rule: linked.induct) auto

text \<open>Splicing a segment \<open>fs\<close> of a list in front of an earlier segment \<open>ms\<close> of the same list.\<close>

lemma list_splice_dll:
  assumes d: "dll h (us @ ms @ fs @ vs)" and ne: "us \<noteq> []" "ms \<noteq> []" "fs \<noteq> []" "vs \<noteq> []"
  obtains h' where "list_splice h (hd ms) (hd fs) (hd vs) = Some h'"
    "dll h' (us @ fs @ ms @ vs)" "same_outside (set (us @ ms @ fs @ vs)) h h'"
proof -
  define p b q f g c where defs: "p = last us" "b = hd ms" "q = last ms" "f = hd fs" "g = last fs"
    "c = hd vs"
  have seg: "linked h us" "linked h ms" "linked h fs" "linked h vs"
    "next_of h p = b" "prev_of h b = p" "next_of h q = f" "prev_of h f = q"
    "next_of h g = c" "prev_of h c = g"
    and hd: "prev_of h (hd us) = NULL" "next_of h (last vs) = NULL"
    and ds: "distinct (us @ ms @ fs @ vs)" and nn: "NULL \<notin> set (us @ ms @ fs @ vs)"
    using d ne dll_join [of us "ms @ fs @ vs" h] linked_join [of ms "fs @ vs" h]
      linked_join [of fs vs h] by (simp_all add: defs)
  have mem: "p \<in> set us" "b \<in> set ms" "q \<in> set ms" "f \<in> set fs" "g \<in> set fs" "c \<in> set vs"
    "hd us \<in> set us" "last vs \<in> set vs"
    using ne by (simp_all add: defs)
  have dj: "x \<in> set us \<Longrightarrow> x \<notin> set ms" "x \<in> set us \<Longrightarrow> x \<notin> set fs" "x \<in> set us \<Longrightarrow> x \<notin> set vs"
    "x \<in> set ms \<Longrightarrow> x \<notin> set fs" "x \<in> set ms \<Longrightarrow> x \<notin> set vs" "x \<in> set fs \<Longrightarrow> x \<notin> set vs" for x
    using ds by auto
  have ne': "p \<noteq> b" "p \<noteq> q" "p \<noteq> f" "p \<noteq> g" "p \<noteq> c" "b \<noteq> f" "b \<noteq> g" "b \<noteq> c" "q \<noteq> f" "q \<noteq> g"
    "q \<noteq> c" "f \<noteq> c" "g \<noteq> c"
    using mem dj by metis+
  have nn': "p \<noteq> NULL" "b \<noteq> NULL" "q \<noteq> NULL" "f \<noteq> NULL" "g \<noteq> NULL" "c \<noteq> NULL"
    using mem nn by (metis UnI1 UnI2 set_append)+
  have inner: "next_of h b \<noteq> NULL" "next_of h f \<noteq> NULL" "prev_of h g \<noteq> NULL"
    using linked_hd_next [of h ms] linked_hd_next [of h fs] linked_last_prev [of h fs] seg ne nn nn'
    by (auto simp: defs)
  let ?h = "set_prev (set_next (set_next (set_prev (set_prev (set_next h q c) c q) f p) g b) p f) b g"
  have "list_splice h b f c = Some ?h"
    using seg ne' nn' inner
    by (auto simp: list_splice_def list_prev_def is_interior_def is_tail_def)
  moreover have "dll ?h (us @ fs @ ms @ vs)"
  proof -
    have u: "q \<notin> set us" "g \<notin> set us" "c \<notin> set us" "f \<notin> set us" "b \<notin> set us"
      and m: "p \<notin> set ms" "g \<notin> set ms" "c \<notin> set ms" "f \<notin> set ms"
      and f: "p \<notin> set fs" "q \<notin> set fs" "c \<notin> set fs" "b \<notin> set fs"
      and v: "p \<notin> set vs" "q \<notin> set vs" "g \<notin> set vs" "f \<notin> set vs" "b \<notin> set vs"
      using mem dj by metis+
    have dd: "distinct us" "distinct ms" "distinct fs" "distinct vs" using ds by auto
    have "linked ?h us = linked h us"
      by (rule linked_cong_distinct [OF dd(1)]) (use u in \<open>auto simp: defs [symmetric]\<close>)
    moreover have "linked ?h ms = linked h ms"
      by (rule linked_cong_distinct [OF dd(2)]) (use m in \<open>auto simp: defs [symmetric]\<close>)
    moreover have "linked ?h fs = linked h fs"
      by (rule linked_cong_distinct [OF dd(3)]) (use f in \<open>auto simp: defs [symmetric]\<close>)
    moreover have "linked ?h vs = linked h vs"
      by (rule linked_cong_distinct [OF dd(4)]) (use v in \<open>auto simp: defs [symmetric]\<close>)
    moreover have "distinct (us @ fs @ ms @ vs)" "NULL \<notin> set (us @ fs @ ms @ vs)"
      using ds nn by auto
    moreover have "prev_of ?h (hd us) = NULL" "next_of ?h (last vs) = NULL"
      using hd mem u v by auto
    ultimately show ?thesis
      using ne ne' seg by (simp add: dll_join linked_join defs [symmetric])
  qed
  moreover have "same_outside (set (us @ ms @ fs @ vs)) h ?h"
    using mem by (auto simp: same_outside_def)
  ultimately show thesis using that by (simp add: defs)
qed

subsection \<open>Whole lists\<close>

lemma list_rep_nonnull: "list_rep h l xs \<Longrightarrow> l \<noteq> NULL"
  by (auto simp: list_rep_def dll_def list_nodes_def)

lemma list_rep_dll: "list_rep h l xs = dll h ([] @ l # xs @ [l + 8])"
  by (simp add: list_rep_def list_nodes_def)

lemma list_begin_rep: "list_rep h l xs \<Longrightarrow> list_begin h l = Some (hd (xs @ [l + 8]))"
  using dll_at(1) [of h "[]" l] list_rep_nonnull [of h l xs]
  by (cases xs) (auto simp: list_begin_def list_rep_def list_nodes_def)

lemma list_end_rep: "list_rep h l xs \<Longrightarrow> list_end l = Some (l + 8)"
  by (simp add: list_end_def list_rep_nonnull)

lemma list_empty_rep: "list_rep h l xs \<Longrightarrow> list_empty h l = Some (xs = [])"
  using list_begin_rep [of h l xs] list_end_rep [of h l xs]
  by (cases xs) (auto simp: list_empty_def list_rep_def list_nodes_def dll_def)

lemma list_next_seg: "dll h (us @ x # xs @ t # vs) \<Longrightarrow> list_next h x = Some (hd (xs @ [t]))"
  by (cases xs) (auto intro: list_next_at)

lemma list_prev_seg: "dll h (us @ x # xs @ t # vs) \<Longrightarrow> list_prev h (hd (xs @ [t])) = Some x"
  by (cases xs) (auto intro: list_prev_at)

lemma dll_seg_neq: "dll h (us @ x # xs @ t # vs) \<Longrightarrow> x \<noteq> t"
  by (auto simp: dll_def)

lemma list_init_rep:
  assumes "l \<noteq> NULL"
  obtains h' where "list_init h l = Some h'" "list_rep h' l []" "same_outside {l, l + 8} h h'"
  using assms
  by (auto simp: list_init_def list_rep_def list_nodes_def dll_def same_outside_def)

text \<open>Insertion in front of a position, and removal, on represented sequences.\<close>

lemma list_nodes_split:
  obtains us p b vs where "\<And>ms. list_nodes l (xs @ ms @ ys) = us @ p # ms @ b # vs"
    "hd (ys @ [l + 8]) = b"
proof -
  obtain us p where us: "l # xs = us @ [p]"
    by (metis list.distinct(1) rev_exhaust)
  obtain b vs where b: "ys @ [l + 8] = b # vs"
    by (cases ys) auto
  have "l # xs @ zs = us @ p # zs" for zs
    using us by (metis append.assoc append_Cons append_Nil)
  then have "list_nodes l (xs @ ms @ ys) = us @ p # ms @ b # vs" for ms
    using b by (simp add: list_nodes_def)
  then show thesis using that b by simp
qed

lemma list_insert_rep:
  assumes r: "list_rep h l (xs @ ys)" and e: "e \<notin> set (list_nodes l (xs @ ys))" "e \<noteq> NULL"
  obtains h' where "list_insert h (hd (ys @ [l + 8])) e = Some h'" "list_rep h' l (xs @ e # ys)"
    "same_outside (set (list_nodes l (xs @ e # ys))) h h'"
proof -
  obtain us p b vs where split: "\<And>ms. list_nodes l (xs @ ms @ ys) = us @ p # ms @ b # vs"
    and b: "hd (ys @ [l + 8]) = b"
    using list_nodes_split [of l xs ys] by blast
  note n = split [of "[]", simplified] split [of "[e]", simplified]
  obtain h' where h': "list_insert h b e = Some h'" "dll h' (us @ p # e # b # vs)"
    "same_outside {e, p, b} h h'"
    using list_insert_dll [of h us p b vs e] r e unfolding list_rep_def n by blast
  show thesis
  proof (rule that)
    show "list_insert h (hd (ys @ [l + 8])) e = Some h'" using h'(1) b by simp
    show "list_rep h' l (xs @ e # ys)" using h'(2) by (simp add: list_rep_def n)
    show "same_outside (set (list_nodes l (xs @ e # ys))) h h'"
      using h'(3) by (auto simp: same_outside_def n)
  qed
qed

lemma list_push_back_rep:
  assumes "list_rep h l xs" and "e \<notin> set (list_nodes l xs)" "e \<noteq> NULL"
  obtains h' where "list_push_back h l e = Some h'" "list_rep h' l (xs @ [e])"
    "same_outside (set (list_nodes l (xs @ [e]))) h h'"
  using list_insert_rep [of h l xs "[]" e] assms
  by (auto simp: list_push_back_def list_end_rep)

lemma list_push_front_rep:
  assumes "list_rep h l xs" and "e \<notin> set (list_nodes l xs)" "e \<noteq> NULL"
  obtains h' where "list_push_front h l e = Some h'" "list_rep h' l (e # xs)"
    "same_outside (set (list_nodes l (e # xs))) h h'"
  using list_insert_rep [of h l "[]" xs e] assms
  by (auto simp: list_push_front_def list_begin_rep)

lemma list_remove_rep:
  assumes r: "list_rep h l (xs @ e # ys)"
  obtains h' where "list_remove h e = Some (hd (ys @ [l + 8]), h')" "list_rep h' l (xs @ ys)"
    "same_outside (set (list_nodes l (xs @ ys))) h h'"
proof -
  obtain us p b vs where split: "\<And>ms. list_nodes l (xs @ ms @ ys) = us @ p # ms @ b # vs"
    and b: "hd (ys @ [l + 8]) = b"
    using list_nodes_split [of l xs ys] by blast
  note n = split [of "[]", simplified] split [of "[e]", simplified]
  obtain h' where h': "list_remove h e = Some (b, h')" "dll h' (us @ p # b # vs)"
    "same_outside {p, b} h h'"
    using list_remove_dll [of h us p e b vs] r unfolding list_rep_def n by blast
  show thesis
  proof (rule that)
    show "list_remove h e = Some (hd (ys @ [l + 8]), h')" using h'(1) b by simp
    show "list_rep h' l (xs @ ys)" using h'(2) by (simp add: list_rep_def n)
    show "same_outside (set (list_nodes l (xs @ ys))) h h'"
      using h'(3) by (auto simp: same_outside_def n)
  qed
qed

lemma list_front_rep: "list_rep h l (x # xs) \<Longrightarrow> list_front h l = Some x"
  using list_begin_rep [of h l "x # xs"]
  by (auto simp: list_front_def list_empty_rep list_begin_def)

lemma list_back_rep:
  assumes "list_rep h l (xs @ [x])"
  shows "list_back h l = Some x"
proof -
  have "prev_of h (l + 8) = x"
    using dll_at(2) [of h "l # xs" x "l + 8" "[]"] assms by (simp add: list_rep_def list_nodes_def)
  then show ?thesis using list_empty_rep [OF assms] by (simp add: list_back_def)
qed

lemma list_pop_front_rep:
  assumes "list_rep h l (x # xs)"
  obtains h' where "list_pop_front h l = Some (x, h')" "list_rep h' l xs"
    "same_outside (set (list_nodes l xs)) h h'"
proof -
  from assms have "list_rep h l ([] @ x # xs)" by simp
  then obtain h' where "list_remove h x = Some (hd (xs @ [l + 8]), h')" "list_rep h' l ([] @ xs)"
    "same_outside (set (list_nodes l ([] @ xs))) h h'" by (rule list_remove_rep)
  then show thesis using that list_front_rep [OF assms] by (simp add: list_pop_front_def)
qed

lemma list_pop_back_rep:
  assumes "list_rep h l (xs @ [x])"
  obtains h' where "list_pop_back h l = Some (x, h')" "list_rep h' l xs"
    "same_outside (set (list_nodes l xs)) h h'"
proof -
  obtain h' where "list_remove h x = Some (hd ([] @ [l + 8]), h')" "list_rep h' l (xs @ [])"
    "same_outside (set (list_nodes l (xs @ []))) h h'" using assms by (rule list_remove_rep)
  then show thesis using that list_back_rep [OF assms] by (simp add: list_pop_back_def)
qed

lemma list_empty_pop_panics: "list_rep h l [] \<Longrightarrow> list_pop_front h l = None \<and> list_pop_back h l = None"
  by (simp add: list_pop_front_def list_pop_back_def list_front_def list_back_def list_empty_rep)

lemma list_size_loop_seg:
  "dll h (us @ xs @ t # vs) \<Longrightarrow> list_size_loop h (hd (xs @ [t])) t n = Some (n + length xs)"
proof (induction xs arbitrary: us n)
  case Nil
  then show ?case by (simp add: list_size_loop.simps)
next
  case (Cons x xs)
  then have d: "dll h ((us @ [x]) @ xs @ t # vs)" "dll h (us @ x # xs @ t # vs)" by simp_all
  show ?case
    using Cons.IH [OF d(1)] list_next_seg [OF d(2)] dll_seg_neq [OF d(2)]
    by (simp add: list_size_loop.simps [of h x])
qed

lemma list_size_rep: "list_rep h l xs \<Longrightarrow> list_size h l = Some (length xs)"
  using list_size_loop_seg [of h "[l]" xs "l + 8" "[]" 0]
  by (simp add: list_size_def list_begin_rep list_end_rep) (simp add: list_rep_def list_nodes_def)

subsection \<open>Reversal\<close>

lemma swap_links_simps [simp]:
  "prev_of (swap_links h e) = (prev_of h)(e := next_of h e)"
  "next_of (swap_links h e) = (next_of h)(e := prev_of h e)"
  by (simp_all add: swap_links_def)

lemma swap_next_prev_simps [simp]:
  "prev_of (swap_next_prev h a b) = (prev_of h)(b := next_of h a)"
  "next_of (swap_next_prev h a b) = (next_of h)(a := prev_of h b)"
  by (simp_all add: swap_next_prev_def)

text \<open>The loop exchanges the two links of every element it visits.\<close>

lemma list_reverse_loop_seg:
  assumes "linked h (xs @ [t])" and "distinct (xs @ [t])" and "NULL \<notin> set xs"
  shows "\<exists>h'. list_reverse_loop h (hd (xs @ [t])) t = Some h'
    \<and> (\<forall>x. prev_of h' x = (if x \<in> set xs then next_of h x else prev_of h x))
    \<and> (\<forall>x. next_of h' x = (if x \<in> set xs then prev_of h x else next_of h x))"
  using assms
proof (induction xs arbitrary: h)
  case Nil
  then show ?case by (simp add: list_reverse_loop.simps)
next
  case (Cons x xs)
  let ?h = "swap_links h x"
  have x: "x \<noteq> t" "x \<noteq> NULL" "x \<notin> set xs" "next_of h x = hd (xs @ [t])"
    and lk: "linked h (xs @ [t])"
    using Cons.prems linked_join [of "[x]" "xs @ [t]" h] by auto
  have "linked ?h (xs @ [t])"
    using lk x by (subst linked_cong_distinct [where h = h]) (use Cons.prems in auto)
  then obtain h' where h': "list_reverse_loop ?h (hd (xs @ [t])) t = Some h'"
    "\<forall>y. prev_of h' y = (if y \<in> set xs then next_of ?h y else prev_of ?h y)"
    "\<forall>y. next_of h' y = (if y \<in> set xs then prev_of ?h y else next_of ?h y)"
    using Cons.IH [of ?h] Cons.prems by auto
  have "list_reverse_loop h x t = Some h'"
    using x h'(1) by (simp add: list_reverse_loop.simps [of h x] Let_def)
  then show ?case using h'(2,3) x by auto
qed

lemma linked_rev:
  assumes "linked h xs" and "distinct xs"
    and "\<And>x. x \<in> set xs \<Longrightarrow> prev_of h' x = next_of h x \<and> next_of h' x = prev_of h x"
  shows "linked h' (rev xs)"
  using assms
proof (induction h xs rule: linked.induct)
  case (1 h a b ns)
  then have "linked h' (rev (b # ns))" by auto
  moreover have "next_of h' b = a" "prev_of h' a = b"
    using 1 by auto
  ultimately show ?case
    using linked_join [of "rev (b # ns)" "[a]" h'] by simp
qed auto

lemma list_reverse_rep:
  assumes r: "list_rep h l xs"
  obtains h' where "list_reverse h l = Some h'" "list_rep h' l (rev xs)"
    "same_outside (set (list_nodes l xs)) h h'"
proof (cases "xs = []")
  case True
  then show thesis
    using that [of h] r by (simp add: list_reverse_def list_empty_rep same_outside_def)
next
  case False
  let ?t = "l + 8" and ?a = "hd xs" and ?z = "last xs"
  have d: "distinct (l # xs @ [?t])" "NULL \<notin> set (l # xs @ [?t])" "prev_of h l = NULL"
    "next_of h ?t = NULL" "linked h (xs @ [?t])" "next_of h l = ?a" "prev_of h ?a = l"
    "linked h xs" "next_of h ?z = ?t" "prev_of h ?t = ?z"
    using r False dll_join [of "[l]" "xs @ [?t]" h] linked_join [of xs "[?t]" h]
    by (simp_all add: list_rep_def list_nodes_def)
  have az: "?a \<in> set xs" "?z \<in> set xs" using False by auto
  obtain h1 where h1: "list_reverse_loop h (hd (xs @ [?t])) ?t = Some h1"
    "\<And>x. prev_of h1 x = (if x \<in> set xs then next_of h x else prev_of h x)"
    "\<And>x. next_of h1 x = (if x \<in> set xs then prev_of h x else next_of h x)"
    using list_reverse_loop_seg [of h xs ?t] d by auto
  define h2 where "h2 = swap_next_prev h1 l ?t"
  define h3 where "h3 = swap_next_prev h2 (prev_of h2 ?t) (next_of h2 l)"
  have n: "l \<notin> set xs" "?t \<notin> set xs" "?a \<noteq> l" "?z \<noteq> l" "?a \<noteq> ?t" "?z \<noteq> ?t"
    using d(1) az by auto
  have h2: "prev_of h2 ?t = ?a" "next_of h2 l = ?z"
    using n d az by (simp_all add: h2_def h1)
  have h3: "prev_of h3 x = (if x = ?z then l else if x = ?t then ?a else prev_of h1 x)"
    "next_of h3 x = (if x = ?a then ?t else if x = l then ?z else next_of h1 x)" for x
    using n d az by (simp_all add: h3_def h2) (simp_all add: h2_def h1)
  have "linked h3 (rev xs)"
  proof (subst linked_cong_distinct)
    show "linked h1 (rev xs)"
      using linked_rev [of h xs h1] d h1 by auto
  qed (use d n False in \<open>auto simp: h3 hd_rev last_rev\<close>)
  then have "list_rep h3 l (rev xs)"
    using False d n
    by (simp add: list_rep_def list_nodes_def dll_join [of "[l]" "rev xs @ [?t]", simplified]
        linked_join hd_rev last_rev h3 h1)
  moreover have "list_reverse h l = Some h3"
    using r False h1(1)
    by (simp add: list_reverse_def list_empty_rep list_begin_rep list_end_rep h2_def h3_def)
  moreover have "same_outside (set (list_nodes l xs)) h h3"
    using az by (auto simp: same_outside_def list_nodes_def h3 h1)
  ultimately show thesis using that by blast
qed

subsection \<open>Ordered insertion, extrema, removal of duplicates\<close>

lemma insert_ordered_loop_seg:
  "dll h (us @ xs @ t # vs) \<Longrightarrow>
   insert_ordered_loop h lt elem (hd (xs @ [t])) t = Some (hd (dropWhile (\<lambda>e. \<not> lt elem e) xs @ [t]))"
proof (induction xs arbitrary: us)
  case Nil
  then show ?case by (simp add: insert_ordered_loop.simps)
next
  case (Cons x xs)
  then have d: "dll h ((us @ [x]) @ xs @ t # vs)" "dll h (us @ x # xs @ t # vs)" by simp_all
  show ?case
    using Cons.IH [OF d(1)] list_next_seg [OF d(2)] dll_seg_neq [OF d(2)]
    by (simp add: insert_ordered_loop.simps [of h lt elem x])
qed

lemma list_insert_ordered_rep:
  assumes r: "list_rep h l xs" and e: "e \<notin> set (list_nodes l xs)" "e \<noteq> NULL"
  obtains h' where "list_insert_ordered h l e lt = Some h'"
    "list_rep h' l (takeWhile (\<lambda>x. \<not> lt e x) xs @ e # dropWhile (\<lambda>x. \<not> lt e x) xs)"
    "same_outside (insert e (set (list_nodes l xs))) h h'"
proof -
  let ?us = "takeWhile (\<lambda>x. \<not> lt e x) xs" and ?vs = "dropWhile (\<lambda>x. \<not> lt e x) xs"
  have xs: "?us @ ?vs = xs" by simp
  obtain h' where h': "list_insert h (hd (?vs @ [l + 8])) e = Some h'" "list_rep h' l (?us @ e # ?vs)"
    "same_outside (set (list_nodes l (?us @ e # ?vs))) h h'"
    using list_insert_rep [of h l ?us ?vs e] r e unfolding xs by blast
  have "insert_ordered_loop h lt e (hd (xs @ [l + 8])) (l + 8) = Some (hd (?vs @ [l + 8]))"
    using insert_ordered_loop_seg [of h "[l]" xs "l + 8" "[]"] r by (simp add: list_rep_def list_nodes_def)
  then have "list_insert_ordered h l e lt = Some h'"
    using r e h'(1)
    by (simp add: list_insert_ordered_def list_begin_rep list_end_rep list_rep_nonnull)
  moreover have "set (list_nodes l (?us @ e # ?vs)) = insert e (set (list_nodes l xs))"
  proof -
    have "set xs = set ?us \<union> set ?vs" by (metis set_append takeWhile_dropWhile_id)
    then show ?thesis by (auto simp: list_nodes_def)
  qed
  ultimately show thesis using that h' by simp
qed

lemma list_max_loop_seg:
  "dll h (us @ xs @ t # vs) \<Longrightarrow>
   list_max_loop h lt m (hd (xs @ [t])) t = Some (foldl (\<lambda>m e. if lt m e then e else m) m xs)"
proof (induction xs arbitrary: us m)
  case Nil
  then show ?case by (simp add: list_max_loop.simps)
next
  case (Cons x xs)
  then have d: "dll h ((us @ [x]) @ xs @ t # vs)" "dll h (us @ x # xs @ t # vs)" by simp_all
  show ?case
    using Cons.IH [OF d(1)] list_next_seg [OF d(2)] dll_seg_neq [OF d(2)]
    by (simp add: list_max_loop.simps [of h lt m x] Let_def)
qed

lemma list_min_loop_seg:
  "dll h (us @ xs @ t # vs) \<Longrightarrow>
   list_min_loop h lt m (hd (xs @ [t])) t = Some (foldl (\<lambda>m e. if lt e m then e else m) m xs)"
proof (induction xs arbitrary: us m)
  case Nil
  then show ?case by (simp add: list_min_loop.simps)
next
  case (Cons x xs)
  then have d: "dll h ((us @ [x]) @ xs @ t # vs)" "dll h (us @ x # xs @ t # vs)" by simp_all
  show ?case
    using Cons.IH [OF d(1)] list_next_seg [OF d(2)] dll_seg_neq [OF d(2)]
    by (simp add: list_min_loop.simps [of h lt m x] Let_def)
qed

lemma list_max_rep:
  assumes "list_rep h l xs"
  shows "list_max h l lt = Some (case xs of [] \<Rightarrow> l + 8
    | x # ys \<Rightarrow> foldl (\<lambda>m e. if lt m e then e else m) x ys)"
proof (cases xs)
  case Nil
  with assms show ?thesis by (simp add: list_max_def list_begin_rep list_end_rep)
next
  case (Cons x ys)
  with assms have d: "dll h ([l] @ x # ys @ (l + 8) # [])"
    "dll h ([l, x] @ ys @ (l + 8) # [])"
    by (simp_all add: list_rep_def list_nodes_def)
  show ?thesis
    using assms Cons list_next_seg [OF d(1)] dll_seg_neq [OF d(1)] list_max_loop_seg [OF d(2)]
    by (simp add: list_max_def list_begin_rep list_end_rep)
qed

lemma list_min_rep:
  assumes "list_rep h l xs"
  shows "list_min h l lt = Some (case xs of [] \<Rightarrow> l + 8
    | x # ys \<Rightarrow> foldl (\<lambda>m e. if lt e m then e else m) x ys)"
proof (cases xs)
  case Nil
  with assms show ?thesis by (simp add: list_min_def list_begin_rep list_end_rep)
next
  case (Cons x ys)
  with assms have d: "dll h ([l] @ x # ys @ (l + 8) # [])"
    "dll h ([l, x] @ ys @ (l + 8) # [])"
    by (simp_all add: list_rep_def list_nodes_def)
  show ?thesis
    using assms Cons list_next_seg [OF d(1)] dll_seg_neq [OF d(1)] list_min_loop_seg [OF d(2)]
    by (simp add: list_min_def list_begin_rep list_end_rep)
qed

text \<open>
  \<open>unique_keep lt x ys\<close>: what stays of \<open>x # ys\<close> when every element equal to the last one kept
  is dropped; \<open>unique_dups lt x ys\<close>: what is dropped, in order.
\<close>

fun unique_keep :: "list_less_func \<Rightarrow> addr \<Rightarrow> addr list \<Rightarrow> addr list" where
  "unique_keep lt x [] = [x]"
| "unique_keep lt x (y # ys) =
     (if \<not> lt x y \<and> \<not> lt y x then unique_keep lt x ys else x # unique_keep lt y ys)"

fun unique_dups :: "list_less_func \<Rightarrow> addr \<Rightarrow> addr list \<Rightarrow> addr list" where
  "unique_dups lt x [] = []"
| "unique_dups lt x (y # ys) =
     (if \<not> lt x y \<and> \<not> lt y x then y # unique_dups lt x ys else unique_dups lt y ys)"

lemma list_rep_same_outside:
  "\<lbrakk>list_rep h d ds; same_outside A h h'; A \<inter> set (list_nodes d ds) = {}\<rbrakk> \<Longrightarrow> list_rep h' d ds"
  unfolding list_rep_def by (rule dll_same_outside)

lemma list_unique_loop_rep:
  assumes "list_rep h l (us @ x # ys)"
    and "case dup of None \<Rightarrow> True | Some d \<Rightarrow> list_rep h d ds
           \<and> set (list_nodes d ds) \<inter> set (list_nodes l (us @ x # ys)) = {}"
  shows "\<exists>h'. list_unique_loop lt dup h x (l + 8) = Some h'
    \<and> list_rep h' l (us @ unique_keep lt x ys)
    \<and> (case dup of None \<Rightarrow> True | Some d \<Rightarrow> list_rep h' d (ds @ unique_dups lt x ys))"
  using assms
proof (induction ys arbitrary: us x h ds)
  case Nil
  then have "list_next h x = Some (l + 8)"
    using list_next_seg [of h "l # us" x "[]" "l + 8" "[]"] by (simp add: list_rep_def list_nodes_def)
  then show ?case
    using Nil by (simp add: list_unique_loop.simps [of lt dup h x] split: option.splits)
next
  case (Cons y ys)
  have n: "list_next h x = Some y" "y \<noteq> l + 8"
    using list_next_seg [of h "l # us" x "y # ys" "l + 8" "[]"] Cons.prems(1)
    by (auto simp: list_rep_def list_nodes_def dll_def)
  show ?case
  proof (cases "\<not> lt x y \<and> \<not> lt y x")
    case False
    then have "list_unique_loop lt dup h x (l + 8) = list_unique_loop lt dup h y (l + 8)"
      using n by (subst list_unique_loop.simps) auto
    moreover have "unique_keep lt x (y # ys) = x # unique_keep lt y ys"
      "unique_dups lt x (y # ys) = unique_dups lt y ys"
      using False by auto
    ultimately show ?thesis
      using Cons.IH [of h "us @ [x]" y ds] Cons.prems by (cases dup) simp_all
  next
    case True
    have "list_rep h l ((us @ [x]) @ y # ys)" using Cons.prems(1) by simp
    then obtain h1 where h1: "list_remove h y = Some (hd (ys @ [l + 8]), h1)"
      "list_rep h1 l ((us @ [x]) @ ys)" "same_outside (set (list_nodes l ((us @ [x]) @ ys))) h h1"
      by (rule list_remove_rep)
    show ?thesis
    proof (cases dup)
      case None
      then show ?thesis
        using Cons.IH [of h1 us x ds] n True h1(1,2)
        by (simp add: list_unique_loop.simps [of lt None h x])
    next
      case (Some d)
      have dd: "list_rep h d ds" "set (list_nodes d ds) \<inter> set (list_nodes l (us @ x # y # ys)) = {}"
        using Cons.prems(2) Some by auto
      have d1: "list_rep h1 d ds"
        by (rule list_rep_same_outside [OF dd(1) h1(3)]) (use dd(2) in \<open>auto simp: list_nodes_def\<close>)
      have y: "y \<notin> set (list_nodes d ds)" "y \<noteq> NULL" "y \<notin> set (list_nodes l (us @ x # ys))"
        using dd(2) Cons.prems(1) by (auto simp: list_nodes_def list_rep_def dll_def)
      obtain h2 where h2: "list_push_back h1 d y = Some h2" "list_rep h2 d (ds @ [y])"
        "same_outside (set (list_nodes d (ds @ [y]))) h1 h2"
        using list_push_back_rep [OF d1 y(1,2)] by blast
      have l2: "list_rep h2 l (us @ x # ys)"
        by (rule list_rep_same_outside [OF _ h2(3)])
          (use h1(2) dd(2) y(3) in \<open>auto simp: list_nodes_def\<close>)
      have "set (list_nodes d (ds @ [y])) \<inter> set (list_nodes l (us @ x # ys)) = {}"
        using dd(2) y(3) by (auto simp: list_nodes_def)
      then show ?thesis
        using Cons.IH [of h2 us x "ds @ [y]"] l2 h2 n True h1(1) Some
        by (simp add: list_unique_loop.simps [of lt "Some d" h x])
    qed
  qed
qed

end
