(* ===== verification/List_Sorting.thy ===== *)
theory List_Sorting
  imports Kernel_List
begin

text \<open>
  Correctness of \<^verbatim>\<open>list_sort\<close> of \<^verbatim>\<open>lib/kernel/list.c\<close>, a natural merge sort that works in place
  on the links. The pointer-level passes are shown to compute the passes of a merge sort on
  sequences (\<open>merge_pass\<close>), which halve the number of runs; under a comparison that is a strict
  weak order (locale \<open>list_less\<close>) the result is the stable sort of the input.
\<close>

section \<open>Runs, merging and passes on sequences\<close>

text \<open>\<open>run_tail lt x ys\<close> splits \<open>ys\<close> after the nondecreasing run that starts with \<open>x\<close>.\<close>

fun run_tail :: "list_less_func \<Rightarrow> addr \<Rightarrow> addr list \<Rightarrow> addr list \<times> addr list" where
  "run_tail lt x [] = ([], [])"
| "run_tail lt x (y # ys) =
     (if lt y x then ([], y # ys) else let (r, rest) = run_tail lt y ys in (y # r, rest))"

fun merge :: "list_less_func \<Rightarrow> addr list \<Rightarrow> addr list \<Rightarrow> addr list" where
  "merge lt [] ys = ys"
| "merge lt (x # xs) [] = x # xs"
| "merge lt (x # xs) (y # ys) =
     (if \<not> lt y x then x # merge lt xs (y # ys) else y # merge lt (x # xs) ys)"

lemma run_tail_append: "run_tail lt x ys = (r, rest) \<Longrightarrow> ys = r @ rest"
  by (induction lt x ys arbitrary: r rule: run_tail.induct) (auto split: if_splits prod.splits)

lemma run_tail_length: "run_tail lt x ys = (r, rest) \<Longrightarrow> length rest \<le> length ys"
  using run_tail_append by fastforce

function merge_pass :: "list_less_func \<Rightarrow> addr list \<Rightarrow> addr list \<times> nat" where
  "merge_pass lt [] = ([], 0)"
| "merge_pass lt (x # xs) =
     (case run_tail lt x xs of
        (r, []) \<Rightarrow> (x # r, 1)
      | (r, y # ys) \<Rightarrow>
          (case run_tail lt y ys of (r2, rest) \<Rightarrow>
             (case merge_pass lt rest of (zs, k) \<Rightarrow> (merge lt (x # r) (y # r2) @ zs, k + 1))))"
  by pat_completeness auto
termination
  by (relation "measure (\<lambda>(lt, xs). length xs)") (auto dest!: run_tail_length [OF sym])

fun num_runs :: "list_less_func \<Rightarrow> addr list \<Rightarrow> nat" where
  "num_runs lt (x # y # ys) = (if lt y x then 1 else 0) + num_runs lt (y # ys)"
| "num_runs lt [x] = 1"
| "num_runs lt [] = 0"

abbreviation nondec :: "list_less_func \<Rightarrow> addr list \<Rightarrow> bool" where
  "nondec lt \<equiv> successively (\<lambda>a b. \<not> lt b a)"

lemma mset_merge: "mset (merge lt xs ys) = mset xs + mset ys"
  by (induction lt xs ys rule: merge.induct) auto

lemma merge_Nil2 [simp]: "merge lt xs [] = xs"
  by (cases xs) auto

lemma nondec_num_runs: "nondec lt xs \<Longrightarrow> num_runs lt xs \<le> 1"
  by (induction lt xs rule: num_runs.induct) auto

lemma num_runs_le_1: "num_runs lt xs \<le> 1 \<Longrightarrow> nondec lt xs"
proof (induction lt xs rule: num_runs.induct)
  case (1 lt x y ys)
  have "1 \<le> num_runs lt (y # ys)" by (induction lt ys arbitrary: y rule: num_runs.induct) auto
  with 1 show ?case by (auto split: if_splits)
qed auto

lemma num_runs_append: "num_runs lt (xs @ ys) \<le> num_runs lt xs + num_runs lt ys"
proof (induction lt xs rule: num_runs.induct)
  case (2 lt x)
  then show ?case by (cases ys) auto
qed auto

lemma run_tail_nondec: "run_tail lt x ys = (r, rest) \<Longrightarrow> nondec lt (x # r)"
  by (induction lt x ys arbitrary: r rule: run_tail.induct) (auto split: if_splits prod.splits)

lemma run_tail_num_runs:
  "run_tail lt x ys = (r, rest) \<Longrightarrow> num_runs lt (x # ys) = 1 + num_runs lt rest"
  by (induction lt x ys arbitrary: r rule: run_tail.induct) (auto split: if_splits prod.splits)

lemma merge_pass_count: "snd (merge_pass lt xs) = (num_runs lt xs + 1) div 2"
proof (induction lt xs rule: merge_pass.induct)
  case (2 lt x xs)
  obtain r v where rv: "run_tail lt x xs = (r, v)" by fastforce
  show ?case
  proof (cases v)
    case Nil
    then show ?thesis using rv run_tail_num_runs [OF rv] by simp
  next
    case (Cons y ys)
    obtain r2 rest where r2: "run_tail lt y ys = (r2, rest)" by fastforce
    show ?thesis
      using 2 [OF rv [symmetric] Cons r2 [symmetric]] rv r2 Cons run_tail_num_runs [OF rv]
        run_tail_num_runs [OF r2]
      by (auto split: prod.splits)
  qed
qed auto

lemma merge_pass_mset: "mset (fst (merge_pass lt xs)) = mset xs"
proof (induction lt xs rule: merge_pass.induct)
  case (2 lt x xs)
  obtain r v where rv: "run_tail lt x xs = (r, v)" by fastforce
  show ?case
  proof (cases v)
    case Nil
    then show ?thesis using rv run_tail_append [OF rv] by simp
  next
    case (Cons y ys)
    obtain r2 rest where r2: "run_tail lt y ys = (r2, rest)" by fastforce
    show ?thesis
      using 2 [OF rv [symmetric] Cons r2 [symmetric]] rv r2 Cons run_tail_append [OF rv]
        run_tail_append [OF r2]
      by (auto simp: mset_merge split: prod.splits)
  qed
qed auto

section \<open>The pointer level computes the passes\<close>

lemma is_sorted_loop_seg:
  "dll h (us @ a # xs @ b # vs) \<Longrightarrow> is_sorted_loop h lt a b = Some (nondec lt (a # xs))"
proof (induction xs arbitrary: us a)
  case Nil
  then show ?case
    using list_next_seg [of h us a "[]" b vs] by (simp add: is_sorted_loop.simps [of h lt a])
next
  case (Cons x xs)
  then have d: "dll h ((us @ [a]) @ x # xs @ b # vs)" by simp
  show ?case
    using Cons.IH [OF d] list_next_seg [OF Cons.prems] list_prev_seg [OF Cons.prems] dll_seg_neq [OF d]
    by (simp add: is_sorted_loop.simps [of h lt a])
qed

lemma is_sorted_seg:
  "dll h (us @ xs @ b # vs) \<Longrightarrow> is_sorted h (hd (xs @ [b])) b lt = Some (nondec lt xs)"
  by (cases xs) (auto simp: is_sorted_def is_sorted_loop_seg dest: dll_seg_neq)

lemma find_end_of_run_loop_seg:
  "dll h (us @ a # xs @ b # vs) \<Longrightarrow>
   find_end_of_run_loop h lt a b = Some (hd (snd (run_tail lt a xs) @ [b]))"
proof (induction xs arbitrary: us a)
  case Nil
  then show ?case
    using list_next_seg [of h us a "[]" b vs] by (simp add: find_end_of_run_loop.simps [of h lt a])
next
  case (Cons x xs)
  then have d: "dll h ((us @ [a]) @ x # xs @ b # vs)" by simp
  show ?case
    using Cons.IH [OF d] list_next_seg [OF Cons.prems] list_prev_seg [OF Cons.prems] dll_seg_neq [OF d]
    by (simp add: find_end_of_run_loop.simps [of h lt a] split: prod.splits)
qed

lemma find_end_of_run_seg:
  assumes "dll h (us @ a # xs @ b # vs)"
  shows "find_end_of_run h a b lt = Some (hd (snd (run_tail lt a xs) @ [b]))"
proof -
  have "a \<noteq> NULL" "b \<noteq> NULL" using assms by (auto simp: dll_def)
  then show ?thesis
    using find_end_of_run_loop_seg [OF assms] dll_seg_neq [OF assms] by (simp add: find_end_of_run_def)
qed

lemma same_outside_refl [simp]: "same_outside A h h"
  by (simp add: same_outside_def)

lemma same_outside_trans:
  "same_outside A h h1 \<Longrightarrow> same_outside A h1 h2 \<Longrightarrow> same_outside A h h2"
  by (simp add: same_outside_def)

lemma inplace_merge_loop_seg:
  assumes "dll h (us @ xs @ ys @ b # vs)" and "us \<noteq> []"
  shows "\<exists>h'. inplace_merge_loop lt h (hd (xs @ ys @ [b])) (hd (ys @ [b])) b = Some h'
    \<and> dll h' (us @ merge lt xs ys @ b # vs) \<and> same_outside (set (us @ xs @ ys @ b # vs)) h h'"
  using assms
proof (induction lt xs ys arbitrary: us h rule: merge.induct)
  case (1 lt ys)
  then show ?case by (auto simp: inplace_merge_loop.simps)
next
  case (2 lt x xs)
  then show ?case by (auto simp: inplace_merge_loop.simps)
next
  case (3 lt x xs y ys)
  have d: "dll h (us @ x # (xs @ y # ys) @ b # vs)"
    "dll h ((us @ x # xs) @ y # ys @ b # vs)" using "3.prems" by simp_all
  have ne: "x \<noteq> y" "y \<noteq> b" using d by (auto simp: dll_def)
  show ?case
  proof (cases "lt y x")
    case False
    have "inplace_merge_loop lt h x y b = inplace_merge_loop lt h (hd (xs @ y # ys @ [b])) y b"
      using ne False list_next_seg [OF d(1)] by (simp add: inplace_merge_loop.simps [of lt h x])
    moreover have "\<exists>h'. inplace_merge_loop lt h (hd (xs @ (y # ys) @ [b])) (hd ((y # ys) @ [b])) b = Some h'
      \<and> dll h' ((us @ [x]) @ merge lt xs (y # ys) @ b # vs)
      \<and> same_outside (set ((us @ [x]) @ xs @ (y # ys) @ b # vs)) h h'"
      using "3.IH"(1) [of h "us @ [x]"] False "3.prems" by simp
    ultimately show ?thesis using False by (simp add: insert_commute)
  next
    case True
    let ?c = "hd (ys @ [b])"
    have "dll h (us @ (x # xs) @ [y] @ (ys @ b # vs))" using d(2) by simp
    then obtain h1 where h1: "list_splice h x y ?c = Some h1"
      "dll h1 (us @ [y] @ (x # xs) @ ys @ b # vs)"
      "same_outside (set (us @ (x # xs) @ [y] @ ys @ b # vs)) h h1"
      using list_splice_dll [of h us "x # xs" "[y]" "ys @ b # vs"] "3.prems"
      by (cases ys) auto
    have "inplace_merge_loop lt h x y b = inplace_merge_loop lt h1 x ?c b"
      using ne True list_next_seg [OF d(2)] list_prev_seg [OF d(2)] h1(1)
      by (simp add: inplace_merge_loop.simps [of lt h x])
    moreover have "\<exists>h'. inplace_merge_loop lt h1 (hd ((x # xs) @ ys @ [b])) (hd (ys @ [b])) b = Some h'
      \<and> dll h' ((us @ [y]) @ merge lt (x # xs) ys @ b # vs)
      \<and> same_outside (set ((us @ [y]) @ (x # xs) @ ys @ b # vs)) h1 h'"
      using "3.IH"(2) [of h1 "us @ [y]"] True h1(2) by simp
    moreover have "set ((us @ [y]) @ (x # xs) @ ys @ b # vs) = set (us @ (x # xs) @ (y # ys) @ b # vs)"
      "set (us @ (x # xs) @ [y] @ ys @ b # vs) = set (us @ (x # xs) @ (y # ys) @ b # vs)"
      by auto
    ultimately show ?thesis
      using True h1(3) by (auto intro: same_outside_trans)
  qed
qed

lemma inplace_merge_seg:
  assumes d: "dll h (us @ xs @ ys @ b # vs)" and ne: "us \<noteq> []" "xs \<noteq> []" "ys \<noteq> []"
    and s: "nondec lt xs" "nondec lt ys"
  shows "\<exists>h'. inplace_merge h (hd xs) (hd ys) b lt = Some h'
    \<and> dll h' (us @ merge lt xs ys @ b # vs) \<and> same_outside (set (us @ xs @ ys @ b # vs)) h h'"
proof -
  obtain y ys' where y: "ys = y # ys'" using ne by (cases ys) auto
  have "is_sorted h (hd xs) y lt = Some True"
    using is_sorted_seg [of h us xs y "ys' @ b # vs" lt] d s ne by (simp add: y)
  moreover have "is_sorted h y b lt = Some True"
    using is_sorted_seg [of h "us @ xs" ys b vs lt] d s by (simp add: y)
  moreover have "hd xs \<noteq> NULL" "y \<noteq> NULL" "b \<noteq> NULL"
  proof -
    have "NULL \<notin> set xs" "y \<noteq> NULL" "b \<noteq> NULL" using d by (auto simp: dll_def y)
    then show "hd xs \<noteq> NULL" "y \<noteq> NULL" "b \<noteq> NULL" using hd_in_set [OF ne(2)] by metis+
  qed
  ultimately show ?thesis
    using inplace_merge_loop_seg [OF d ne(1), of lt] ne by (simp add: inplace_merge_def y)
qed

lemma list_sort_pass_seg:
  assumes "dll h (us @ xs @ [t])" and "us \<noteq> []"
  shows "\<exists>h'. list_sort_pass lt h (hd (xs @ [t])) t n = Some (h', n + snd (merge_pass lt xs))
    \<and> dll h' (us @ fst (merge_pass lt xs) @ [t]) \<and> same_outside (set (us @ xs @ [t])) h h'"
  using assms
proof (induction lt xs arbitrary: us h n rule: merge_pass.induct)
  case (1 lt)
  then show ?case by (auto simp: list_sort_pass.simps)
next
  case (2 lt x xs)
  obtain r v where rv: "run_tail lt x xs = (r, v)" by fastforce
  have d: "dll h (us @ x # xs @ t # [])" using "2.prems" by simp
  note xt = dll_seg_neq [OF d] find_end_of_run_seg [OF d, of lt, unfolded rv, simplified]
  show ?case
  proof (cases v)
    case Nil
    then show ?thesis
      using xt rv "2.prems" run_tail_append [OF rv] by (auto simp: list_sort_pass.simps [of lt h x])
  next
    case (Cons y ys)
    obtain r2 rest where r2: "run_tail lt y ys = (r2, rest)" by fastforce
    have xs: "xs = r @ y # ys" "ys = r2 @ rest"
      using run_tail_append [OF rv] run_tail_append [OF r2] Cons by simp_all
    let ?b = "hd (rest @ [t])"
    have d2: "dll h ((us @ x # r) @ y # ys @ t # [])" using d xs by simp
    note yt = dll_seg_neq [OF d2] find_end_of_run_seg [OF d2, of lt, unfolded r2, simplified]
    obtain vs where vs: "rest @ [t] = ?b # vs" by (cases rest) auto
    have "dll h (us @ (x # r) @ (y # r2) @ ?b # vs)"
      using d2 xs vs by simp
    then obtain h1 where h1: "inplace_merge h x y ?b lt = Some h1"
      "dll h1 (us @ merge lt (x # r) (y # r2) @ ?b # vs)"
      "same_outside (set (us @ (x # r) @ (y # r2) @ ?b # vs)) h h1"
      using inplace_merge_seg [of h us "x # r" "y # r2" ?b vs lt] "2.prems"
        run_tail_nondec [OF rv] run_tail_nondec [OF r2] by auto
    let ?m = "merge lt (x # r) (y # r2)"
    obtain h2 where h2: "list_sort_pass lt h1 ?b t (n + 1)
        = Some (h2, n + 1 + snd (merge_pass lt rest))"
      "dll h2 ((us @ ?m) @ fst (merge_pass lt rest) @ [t])"
      "same_outside (set ((us @ ?m) @ rest @ [t])) h1 h2"
      using "2.IH" [OF rv [symmetric] Cons r2 [symmetric], of h1 "us @ ?m" "n + 1"] h1(2) "2.prems" vs
      by auto
    have "list_sort_pass lt h x t n = Some (h2, n + 1 + snd (merge_pass lt rest))"
      using xt yt Cons h1(1) h2(1) by (simp add: list_sort_pass.simps [of lt h x])
    moreover have "merge_pass lt (x # xs) = (?m @ fst (merge_pass lt rest), 1 + snd (merge_pass lt rest))"
      using rv r2 Cons by (simp split: prod.splits)
    moreover have "same_outside (set (us @ (x # xs) @ [t])) h h2"
    proof -
      have "set ?m = set (x # r) \<union> set (y # r2)"
        using mset_merge [of lt "x # r" "y # r2"] by (metis set_mset_mset set_mset_union)
      then have e: "set ((us @ ?m) @ rest @ [t]) = set (us @ (x # xs) @ [t])"
        using xs by auto
      have "set (?b # vs) = set (rest @ [t])" using vs by simp
      then have "set (us @ (x # r) @ (y # r2) @ ?b # vs) = set (us @ (x # xs) @ [t])"
        using xs by auto
      then show ?thesis using h1(3) h2(3) e by (auto intro: same_outside_trans)
    qed
    ultimately show ?thesis using h2(2) by simp
  qed
qed

section \<open>Comparison functions\<close>

lemma merge_lists_induct [case_names Nil1 Nil2 Cons]:
  assumes "\<And>ys. P [] ys" and "\<And>x xs. P (x # xs) []"
    and "\<And>x xs y ys. P xs (y # ys) \<Longrightarrow> P (x # xs) ys \<Longrightarrow> P (x # xs) (y # ys)"
  shows "P xs ys"
  using assms by induction_schema (pat_completeness, lexicographic_order)

text \<open>What \<^verbatim>\<open>list.c\<close> expects of a \<^verbatim>\<open>list_less_func\<close>: a strict weak order.\<close>

locale list_less =
  fixes lt :: list_less_func
  assumes asym: "lt a b \<Longrightarrow> \<not> lt b a"
    and neg_trans: "\<not> lt a b \<Longrightarrow> \<not> lt b c \<Longrightarrow> \<not> lt a c"
begin

definition equiv :: "addr \<Rightarrow> addr \<Rightarrow> bool" where
  "equiv a b \<longleftrightarrow> \<not> lt a b \<and> \<not> lt b a"

lemma nondec_iff_sorted: "nondec lt xs \<longleftrightarrow> sorted_wrt (\<lambda>a b. \<not> lt b a) xs"
  by (rule successively_conv_sorted_wrt) (auto intro!: transpI dest: neg_trans)

lemma set_merge: "set (merge lt xs ys) = set xs \<union> set ys"
  by (metis mset_merge set_mset_mset set_mset_union)

lemma merge_sorted:
  assumes "sorted_wrt (\<lambda>a b. \<not> lt b a) xs" and "sorted_wrt (\<lambda>a b. \<not> lt b a) ys"
  shows "sorted_wrt (\<lambda>a b. \<not> lt b a) (merge lt xs ys)"
  using assms
proof (induction xs ys rule: merge_lists_induct)
  case (Cons x xs y ys)
  then show ?case
    by (cases "lt y x") (auto simp: set_merge dest: asym neg_trans)
qed auto

lemma merge_stable:
  assumes "sorted_wrt (\<lambda>a b. \<not> lt b a) xs" and "sorted_wrt (\<lambda>a b. \<not> lt b a) ys"
  shows "filter (equiv z) (merge lt xs ys) = filter (equiv z) xs @ filter (equiv z) ys"
  using assms
proof (induction xs ys rule: merge_lists_induct)
  case (Cons x xs y ys)
  show ?case
  proof (cases "lt y x")
    case False
    then show ?thesis using Cons by simp
  next
    case True
    have "\<not> equiv z w" if "equiv z y" "w \<in> set (x # xs)" for w
    proof -
      have "\<not> lt w x" using that(2) Cons.prems(1) asym by auto
      then show ?thesis
        using True that(1) neg_trans asym unfolding equiv_def by meson
    qed
    then have "equiv z y \<Longrightarrow> filter (equiv z) (x # xs) = []"
      by (auto simp: filter_empty_conv)
    then show ?thesis
      using Cons True by (cases "equiv z y") (auto split: if_splits)
  qed
qed auto

lemma merge_pass_props:
  "num_runs lt (fst (merge_pass lt xs)) \<le> snd (merge_pass lt xs)
   \<and> filter (equiv z) (fst (merge_pass lt xs)) = filter (equiv z) xs"
proof (induction "length xs" arbitrary: xs rule: less_induct)
  case less
  {
    fix x xs'
    assume xs: "xs = x # xs'"
    obtain r v where rv: "run_tail lt x xs' = (r, v)" by fastforce
    have "num_runs lt (fst (merge_pass lt xs)) \<le> snd (merge_pass lt xs)
      \<and> filter (equiv z) (fst (merge_pass lt xs)) = filter (equiv z) xs"
    proof (cases v)
      case Nil
      then show ?thesis
        using rv run_tail_append [OF rv] nondec_num_runs [OF run_tail_nondec [OF rv]] xs by auto
    next
      case (Cons y ys)
      obtain r2 rest where r2: "run_tail lt y ys = (r2, rest)" by fastforce
      let ?m = "merge lt (x # r) (y # r2)"
      have s: "sorted_wrt (\<lambda>a b. \<not> lt b a) (x # r)" "sorted_wrt (\<lambda>a b. \<not> lt b a) (y # r2)"
        using run_tail_nondec [OF rv] run_tail_nondec [OF r2] by (auto simp: nondec_iff_sorted)
      have e: "xs = (x # r) @ (y # r2) @ rest"
        using xs run_tail_append [OF rv] run_tail_append [OF r2] Cons by simp
      have p: "merge_pass lt xs = (?m @ fst (merge_pass lt rest), 1 + snd (merge_pass lt rest))"
        using rv r2 Cons xs by (simp split: prod.splits)
      have "num_runs lt ?m \<le> 1"
        by (rule nondec_num_runs) (rule merge_sorted [OF s, folded nondec_iff_sorted])
      moreover have IH: "num_runs lt (fst (merge_pass lt rest)) \<le> snd (merge_pass lt rest)"
        "filter (equiv z) (fst (merge_pass lt rest)) = filter (equiv z) rest"
        using less [of rest] e by simp_all
      ultimately have "num_runs lt (fst (merge_pass lt xs)) \<le> snd (merge_pass lt xs)"
        unfolding p fst_conv snd_conv
        using num_runs_append [of lt ?m "fst (merge_pass lt rest)"] by linarith
      moreover have "filter (equiv z) (fst (merge_pass lt xs))
        = filter (equiv z) (x # r) @ filter (equiv z) (y # r2) @ filter (equiv z) rest"
        unfolding p fst_conv filter_append merge_stable [OF s] IH(2) append_assoc ..
      then have "filter (equiv z) (fst (merge_pass lt xs)) = filter (equiv z) xs"
        by (simp only: e filter_append)
      ultimately show ?thesis by blast
    qed
  }
  then show ?case by (cases xs) auto
qed

lemmas merge_pass_runs = merge_pass_props [THEN conjunct1]
lemmas merge_pass_stable = merge_pass_props [THEN conjunct2]

end

text \<open>
  The outer loop: every pass at least halves the number of runs, so the loop ends, with a
  nondecreasing rearrangement of the elements.
\<close>

context list_less
begin

lemma list_sort_loop_rep:
  assumes "list_rep h l xs"
  shows "\<exists>h' ys. list_sort_loop lt h l = Some h' \<and> list_rep h' l ys \<and> nondec lt ys \<and> mset ys = mset xs
    \<and> (\<forall>z. filter (equiv z) ys = filter (equiv z) xs) \<and> same_outside (set (list_nodes l xs)) h h'"
  using assms
proof (induction "num_runs lt xs" arbitrary: xs h rule: less_induct)
  case less
  let ?ys = "fst (merge_pass lt xs)" and ?k = "snd (merge_pass lt xs)"
  have "dll h ([l] @ xs @ [l + 8])" using less.prems by (simp add: list_rep_def list_nodes_def)
  then obtain h1 where h1: "list_sort_pass lt h (hd (xs @ [l + 8])) (l + 8) 0 = Some (h1, ?k)"
    "dll h1 ([l] @ ?ys @ [l + 8])" "same_outside (set ([l] @ xs @ [l + 8])) h h1"
    using list_sort_pass_seg [of h "[l]" xs "l + 8" lt 0] by auto
  have r1: "list_rep h1 l ?ys" using h1(2) by (simp add: list_rep_def list_nodes_def)
  have step: "list_sort_loop lt h l = (if 1 < ?k then list_sort_loop lt h1 l else Some h1)"
    using list_begin_rep [OF less.prems] list_end_rep [OF less.prems] h1(1)
    by (subst list_sort_loop.simps) simp
  have set_eq: "set (list_nodes l ?ys) = set (list_nodes l xs)"
    using merge_pass_mset [of lt xs] by (auto simp: list_nodes_def dest: mset_eq_setD)
  have out: "same_outside (set (list_nodes l xs)) h h1"
    using h1(3) by (simp add: list_nodes_def)
  show ?case
  proof (cases "1 < ?k")
    case False
    then have "nondec lt ?ys"
      using merge_pass_runs [of xs] by (intro num_runs_le_1) linarith
    then show ?thesis
      using False step r1 merge_pass_mset merge_pass_stable out by auto
  next
    case True
    then have "num_runs lt ?ys < num_runs lt xs"
      using merge_pass_runs [of xs] merge_pass_count [of lt xs] by linarith
    then obtain h2 ys where h2: "list_sort_loop lt h1 l = Some h2" "list_rep h2 l ys" "nondec lt ys"
      "mset ys = mset ?ys" "\<forall>z. filter (equiv z) ys = filter (equiv z) ?ys"
      "same_outside (set (list_nodes l ?ys)) h1 h2"
      using less.hyps [OF _ r1] by blast
    have "same_outside (set (list_nodes l xs)) h h2"
      using same_outside_trans [OF out] h2(6) set_eq by simp
    then show ?thesis
      using h2 True step merge_pass_mset [of lt xs] merge_pass_stable [of _ xs] by auto
  qed
qed

lemma list_sort_rep:
  assumes "list_rep h l xs"
  shows "\<exists>h' ys. list_sort h l lt = Some h' \<and> list_rep h' l ys
    \<and> sorted_wrt (\<lambda>a b. \<not> lt b a) ys \<and> mset ys = mset xs
    \<and> (\<forall>z. filter (equiv z) ys = filter (equiv z) xs) \<and> same_outside (set (list_nodes l xs)) h h'"
proof -
  obtain h' ys where h': "list_sort_loop lt h l = Some h'" "list_rep h' l ys" "nondec lt ys"
    "mset ys = mset xs" "\<forall>z. filter (equiv z) ys = filter (equiv z) xs"
    "same_outside (set (list_nodes l xs)) h h'"
    using list_sort_loop_rep [OF assms] by blast
  have "is_sorted h' (hd (ys @ [l + 8])) (l + 8) lt = Some True"
    using is_sorted_seg [of h' "[l]" ys "l + 8" "[]" lt] h'(2,3) by (simp add: list_rep_def list_nodes_def)
  then have "list_sort h l lt = Some h'"
    using h'(1,2) list_begin_rep [OF h'(2)] list_end_rep [OF h'(2)]
    by (simp add: list_sort_def list_rep_nonnull)
  then show ?thesis using h' nondec_iff_sorted by auto
qed

text \<open>The earliest maximum, and the position ordered insertion chooses.\<close>

lemma foldl_max_ge:
  "\<not> lt (foldl (\<lambda>m e. if lt m e then e else m) x ys) x
   \<and> (\<forall>y \<in> set ys. \<not> lt (foldl (\<lambda>m e. if lt m e then e else m) x ys) y)"
proof (induction ys arbitrary: x)
  case Nil
  then show ?case using asym by auto
next
  case (Cons y ys)
  let ?x = "if lt x y then y else x"
  let ?m = "foldl (\<lambda>m e. if lt m e then e else m) ?x ys"
  have "\<not> lt ?m ?x" "\<not> lt ?x x" "\<not> lt ?x y" using Cons.IH [of ?x] asym by auto
  then have "\<not> lt ?m x" "\<not> lt ?m y" using neg_trans by blast+
  then show ?case using Cons.IH [of ?x] by simp
qed

lemma foldl_max_mem: "foldl (\<lambda>m e. if lt m e then e else m) x ys \<in> set (x # ys)"
  by (induction ys arbitrary: x) auto

lemma insert_sorted:
  assumes "sorted_wrt (\<lambda>a b. \<not> lt b a) xs"
  shows "sorted_wrt (\<lambda>a b. \<not> lt b a)
    (takeWhile (\<lambda>x. \<not> lt e x) xs @ e # dropWhile (\<lambda>x. \<not> lt e x) xs)"
  using assms
proof (induction xs)
  case (Cons x xs)
  then show ?case
    by (auto dest: asym neg_trans set_takeWhileD set_dropWhileD)
qed simp

text \<open>On a sorted sequence the elements \<^verbatim>\<open>list_unique\<close> keeps are strictly increasing.\<close>

lemma unique_keep_strict:
  assumes "sorted_wrt (\<lambda>a b. \<not> lt b a) (x # ys)"
  shows "sorted_wrt lt (unique_keep lt x ys) \<and> (\<forall>z \<in> set (unique_keep lt x ys). \<not> lt z x)"
  using assms
proof (induction ys arbitrary: x)
  case Nil
  then show ?case using asym by auto
next
  case (Cons y ys)
  show ?case
  proof (cases "lt x y")
    case True
    have keep: "sorted_wrt lt (unique_keep lt y ys)" "\<forall>z \<in> set (unique_keep lt y ys). \<not> lt z y"
      using Cons.IH [of y] Cons.prems by auto
    then have "\<forall>z \<in> set (unique_keep lt y ys). lt x z"
      using True neg_trans by blast
    then show ?thesis using True keep asym by auto
  next
    case False
    then show ?thesis using Cons.IH [of x] Cons.prems by auto
  qed
qed

end

lemma unique_keep_mset: "mset (unique_keep lt x ys) + mset (unique_dups lt x ys) = add_mset x (mset ys)"
  by (induction lt x ys rule: unique_keep.induct) auto

lemma list_unique_rep:
  assumes r: "list_rep h l (x # ys)" and d: "list_rep h d ds"
    and disj: "set (list_nodes d ds) \<inter> set (list_nodes l (x # ys)) = {}"
  shows "\<exists>h'. list_unique h l (Some d) lt = Some h' \<and> list_rep h' l (unique_keep lt x ys)
    \<and> list_rep h' d (ds @ unique_dups lt x ys)"
  using list_unique_loop_rep [where us = "[]" and dup = "Some d" and ds = ds and lt = lt, of h l x ys] assms
    list_begin_rep [OF r] list_end_rep [OF r] list_empty_rep [OF r] list_rep_nonnull [OF r]
  by (simp add: list_unique_def)

section \<open>The list as a queue\<close>

text \<open>
  What the ready list, the waiters of a semaphore and the sleepers rely on: elements come out of
  the list in the order in which they were appended.
\<close>

primrec enq_all :: "('h \<Rightarrow> addr \<Rightarrow> 'h option) \<Rightarrow> 'h \<Rightarrow> addr list \<Rightarrow> 'h option" where
  "enq_all enq h [] = Some h"
| "enq_all enq h (e # es) = do { h' \<leftarrow> enq h e; enq_all enq h' es }"

primrec deq_n :: "('h \<Rightarrow> (addr \<times> 'h) option) \<Rightarrow> 'h \<Rightarrow> nat \<Rightarrow> (addr list \<times> 'h) option" where
  "deq_n deq h 0 = Some ([], h)"
| "deq_n deq h (Suc n) = do { (x, h') \<leftarrow> deq h; (xs, h'') \<leftarrow> deq_n deq h' n; Some (x # xs, h'') }"

locale list_queue =
  fixes enq :: "'h \<Rightarrow> addr \<Rightarrow> 'h option"
    and deq :: "'h \<Rightarrow> (addr \<times> 'h) option"
    and rep :: "'h \<Rightarrow> addr list \<Rightarrow> bool"
    and okay :: "addr list \<Rightarrow> bool"
  assumes enq: "rep h xs \<Longrightarrow> okay (xs @ [e]) \<Longrightarrow> \<exists>h'. enq h e = Some h' \<and> rep h' (xs @ [e])"
    and deq: "rep h (x # xs) \<Longrightarrow> \<exists>h'. deq h = Some (x, h') \<and> rep h' xs"
    and deq_empty: "rep h [] \<Longrightarrow> deq h = None"
    and okay_prefix: "okay (xs @ ys) \<Longrightarrow> okay xs"
begin

lemma enq_all_rep:
  "rep h xs \<Longrightarrow> okay (xs @ es) \<Longrightarrow> \<exists>h'. enq_all enq h es = Some h' \<and> rep h' (xs @ es)"
proof (induction es arbitrary: h xs)
  case (Cons e es)
  then have "okay ((xs @ [e]) @ es)" by simp
  then obtain h' where "enq h e = Some h'" "rep h' (xs @ [e])" "okay ((xs @ [e]) @ es)"
    using enq [OF Cons.prems(1)] okay_prefix by blast
  then show ?case using Cons.IH [of h' "xs @ [e]"] by simp
qed simp

lemma deq_n_rep: "rep h (xs @ ys) \<Longrightarrow> \<exists>h'. deq_n deq h (length xs) = Some (xs, h') \<and> rep h' ys"
proof (induction xs arbitrary: h)
  case (Cons x xs)
  then obtain h' where "deq h = Some (x, h')" "rep h' (xs @ ys)"
    using deq [of h x "xs @ ys"] by auto
  then show ?case using Cons.IH [of h'] by fastforce
qed simp

lemma fifo:
  assumes "rep h xs" and "okay (xs @ es)"
  shows "\<exists>h' h''. enq_all enq h es = Some h' \<and> deq_n deq h' (length (xs @ es)) = Some (xs @ es, h'')
    \<and> deq h'' = None"
proof -
  obtain h' where h': "enq_all enq h es = Some h'" "rep h' (xs @ es)"
    using enq_all_rep [OF assms] by blast
  then obtain h'' where "deq_n deq h' (length (xs @ es)) = Some (xs @ es, h'')" "rep h'' []"
    using deq_n_rep [of h' "xs @ es" "[]"] by auto
  then show ?thesis using h'(1) deq_empty by blast
qed

end

interpretation lq: list_queue "\<lambda>h e. list_push_back h l e" "\<lambda>h. list_pop_front h l"
  "\<lambda>h xs. list_rep h l xs" "\<lambda>xs. distinct (list_nodes l xs) \<and> NULL \<notin> set xs"
  for l :: addr
proof
  fix h xs e
  assume "list_rep h l xs" "distinct (list_nodes l (xs @ [e])) \<and> NULL \<notin> set (xs @ [e])"
  then show "\<exists>h'. list_push_back h l e = Some h' \<and> list_rep h' l (xs @ [e])"
    by (auto simp: list_nodes_def intro: list_push_back_rep [of h l xs e])
next
  fix h x xs
  assume "list_rep h l (x # xs)"
  then show "\<exists>h'. list_pop_front h l = Some (x, h') \<and> list_rep h' l xs"
    by (auto intro: list_pop_front_rep [of h l x xs])
qed (auto simp: list_empty_pop_panics list_nodes_def)

section \<open>Properties\<close>

text \<open>A heap that holds the list at 100 with the elements 200, 216 and 232, for the witnesses.\<close>

definition demo_heap :: list_heap where
  "demo_heap = \<lparr>prev_of = (\<lambda>_. NULL)(200 := 100, 216 := 200, 232 := 216, 108 := 232, 308 := 300),
     next_of = (\<lambda>_. NULL)(100 := 200, 200 := 216, 216 := 232, 232 := 108, 300 := 308)\<rparr>"

lemma demo_heap_rep: "list_rep demo_heap 100 [200, 216, 232]" "list_rep demo_heap 300 []"
  by (simp_all add: demo_heap_def list_rep_def list_nodes_def dll_def)

lemma list_less_key: "list_less (\<lambda>a b. (k a :: nat) < k b)"
  by standard auto

text \<open>
  C10: \<^verbatim>\<open>list_sort\<close> terminates on every well-formed list without a failed assertion and sorts it: with
  a comparison that is a strict weak order, the list at \<open>l\<close> holds afterwards the same elements,
  in nondecreasing order, equivalent elements in their original order (stability), and no
  element outside the list is touched.
\<close>

theorem list_sort_correct:
  assumes "list_less lt" and "list_rep h l xs"
  shows "\<exists>h' ys. list_sort h l lt = Some h' \<and> list_rep h' l ys
    \<and> sorted_wrt (\<lambda>a b. \<not> lt b a) ys \<and> mset ys = mset xs
    \<and> (\<forall>z. filter (\<lambda>a. \<not> lt z a \<and> \<not> lt a z) ys = filter (\<lambda>a. \<not> lt z a \<and> \<not> lt a z) xs)
    \<and> same_outside (set (list_nodes l xs)) h h'"
  using list_less.list_sort_rep [OF assms] unfolding list_less.equiv_def [OF assms(1), abs_def] .

theorem list_sort_correct_witness:
  "\<exists>h' ys. list_sort demo_heap 100 (\<lambda>a b. 500 - a < 500 - b) = Some h' \<and> list_rep h' 100 ys
    \<and> sorted_wrt (\<lambda>a b. \<not> 500 - b < 500 - a) ys \<and> mset ys = mset [200, 216, 232]"
  using list_sort_correct [OF list_less_key demo_heap_rep(1), of "\<lambda>a. 500 - a"] by auto

text \<open>
  \<^verbatim>\<open>list_insert_ordered\<close> into a sorted list keeps it sorted, puts the new element after every
  element it is not less than (so equal elements stay in insertion order) and keeps the others
  in their order.
\<close>

theorem list_insert_ordered_correct:
  assumes "list_less lt" and "list_rep h l xs" and "sorted_wrt (\<lambda>a b. \<not> lt b a) xs"
    and "e \<notin> set (list_nodes l xs)" and "e \<noteq> NULL"
  shows "\<exists>h' ys zs. list_insert_ordered h l e lt = Some h' \<and> list_rep h' l (ys @ e # zs) \<and> xs = ys @ zs
    \<and> (\<forall>y \<in> set ys. \<not> lt e y) \<and> (\<forall>z \<in> set (take 1 zs). lt e z)
    \<and> sorted_wrt (\<lambda>a b. \<not> lt b a) (ys @ e # zs)"
proof -
  let ?ys = "takeWhile (\<lambda>x. \<not> lt e x) xs" and ?zs = "dropWhile (\<lambda>x. \<not> lt e x) xs"
  obtain h' where h': "list_insert_ordered h l e lt = Some h'" "list_rep h' l (?ys @ e # ?zs)"
    using list_insert_ordered_rep [OF assms(2,4,5)] by blast
  have "\<forall>z \<in> set (take 1 ?zs). lt e z"
    using hd_dropWhile [of "\<lambda>x. \<not> lt e x" xs] by (cases "dropWhile (\<lambda>x. \<not> lt e x) xs") (simp_all del: dropWhile_eq_Nil_conv)
  moreover have "\<forall>y \<in> set ?ys. \<not> lt e y" by (auto dest: set_takeWhileD)
  moreover have "xs = ?ys @ ?zs" by simp
  ultimately show ?thesis using h' list_less.insert_sorted [OF assms(1,3), of e] by blast
qed

theorem list_insert_ordered_correct_witness:
  "\<exists>h' ys zs. list_insert_ordered demo_heap 100 220 (\<lambda>a b. a < b) = Some h'
    \<and> list_rep h' 100 (ys @ 220 # zs) \<and> [200, 216, 232] = ys @ zs"
proof -
  have "sorted_wrt (\<lambda>a b. \<not> b < a) [200, 216, 232 :: addr]"
    "220 \<notin> set (list_nodes 100 [200, 216, 232])" "220 \<noteq> NULL"
    by (simp_all add: list_nodes_def)
  then show ?thesis
    using list_insert_ordered_correct [OF list_less_key demo_heap_rep(1), of "\<lambda>a. a"] by blast
qed

text \<open>
  \<^verbatim>\<open>list_unique\<close> on a sorted list leaves a strictly increasing list and appends every removed
  duplicate to the second list, losing no element.
\<close>

theorem list_unique_correct:
  assumes "list_less lt" and "list_rep h l (x # ys)" and "sorted_wrt (\<lambda>a b. \<not> lt b a) (x # ys)"
    and "list_rep h d ds" and "set (list_nodes d ds) \<inter> set (list_nodes l (x # ys)) = {}"
  shows "\<exists>h' ks es. list_unique h l (Some d) lt = Some h' \<and> list_rep h' l ks \<and> list_rep h' d (ds @ es)
    \<and> sorted_wrt lt ks \<and> mset ks + mset es = mset (x # ys)"
  using list_unique_rep [OF assms(2,4,5), of lt] list_less.unique_keep_strict [OF assms(1,3)]
    unique_keep_mset [of lt x ys]
  by auto

theorem list_unique_correct_witness:
  "\<exists>h' ks es. list_unique demo_heap 100 (Some 300) (\<lambda>a b. a div 100 < b div 100) = Some h'
    \<and> list_rep h' 100 ks \<and> list_rep h' 300 es \<and> sorted_wrt (\<lambda>a b. a div 100 < b div 100) ks
    \<and> mset ks + mset es = mset [200, 216, 232]"
proof -
  have "sorted_wrt (\<lambda>a b. \<not> b div 100 < a div 100) [200, 216, 232 :: addr]"
    "set (list_nodes 300 []) \<inter> set (list_nodes 100 [200, 216, 232]) = {}"
    by (simp_all add: list_nodes_def)
  then show ?thesis
    using list_unique_correct [OF list_less_key demo_heap_rep(1) _ demo_heap_rep(2), of "\<lambda>a. a div 100"]
    by auto
qed

text \<open>
  \<^verbatim>\<open>list_reverse\<close> terminates on every well-formed list, leaves it well-formed with its elements
  in the opposite order and touches nothing else.
\<close>

theorem list_reverse_correct:
  assumes "list_rep h l xs"
  shows "\<exists>h'. list_reverse h l = Some h' \<and> list_rep h' l (rev xs)
    \<and> same_outside (set (list_nodes l xs)) h h'"
  using list_reverse_rep [OF assms] by blast

theorem list_reverse_correct_witness:
  "\<exists>h'. list_reverse demo_heap 100 = Some h' \<and> list_rep h' 100 (rev [200, 216, 232])"
  using list_reverse_correct [OF demo_heap_rep(1)] by blast

text \<open>
  C21: a list used through \<^verbatim>\<open>list_push_back\<close> and \<^verbatim>\<open>list_pop_front\<close> is a first-in first-out queue: an
  element appended to a list with the elements \<open>xs\<close> is the one returned after the \<open>xs\<close> have been
  popped in their order, and popping the empty list fails the assertion of \<^verbatim>\<open>list_front\<close>.
\<close>

theorem list_fifo:
  assumes "list_rep h l xs" and "distinct (list_nodes l (xs @ es)) \<and> NULL \<notin> set (xs @ es)"
  shows "\<exists>h' h''. enq_all (\<lambda>h. list_push_back h l) h es = Some h'
    \<and> deq_n (\<lambda>h. list_pop_front h l) h' (length (xs @ es)) = Some (xs @ es, h'') \<and> list_pop_front h'' l = None"
  using lq.fifo [OF assms] .

theorem list_fifo_witness:
  "\<exists>h' h''. enq_all (\<lambda>h. list_push_back h 100) demo_heap [248] = Some h'
    \<and> deq_n (\<lambda>h. list_pop_front h 100) h' (length ([200, 216, 232] @ [248])) = Some ([200, 216, 232, 248], h'') \<and> list_pop_front h'' 100 = None"
  using list_fifo [OF demo_heap_rep(1), of "[248]"] by (simp only: append.simps) (simp add: list_nodes_def)

end
