(* ===== verification/Kernel_Hash.thy ===== *)
theory Kernel_Hash
  imports List_Sorting Cstring
begin

text \<open>
  Hash tables (\<^verbatim>\<open>lib/kernel/hash.c\<close>): an array of lists whose size is a power of two that follows the
  number of elements. An element is the address of its \<^verbatim>\<open>struct hash_elem\<close>; a bucket is the sequence of
  elements on its list, which the operations of \<^verbatim>\<open>list.c\<close> change as \<open>Kernel_List\<close> shows. The auxiliary
  data are part of the hash and comparison functions. The result of \<^verbatim>\<open>malloc\<close> is an argument: whether
  there is memory. A bucket index outside the array is a panic.
\<close>

section \<open>Data\<close>

record hash =
  elem_cnt :: u32
  bucket_cnt :: u32
  buckets :: "addr list list"
  hash_func :: "addr \<Rightarrow> u32"
  less_func :: list_less_func

section \<open>Hash functions\<close>

definition FNV_32_PRIME :: u32 where
  "FNV_32_PRIME = 16777619"

definition FNV_32_BASIS :: u32 where
  "FNV_32_BASIS = 2166136261"

primrec hash_bytes_loop :: "nat \<Rightarrow> memory \<Rightarrow> addr \<Rightarrow> u32 \<Rightarrow> u32" where
  "hash_bytes_loop 0 m buf h = h"
| "hash_bytes_loop (Suc n) m buf h = hash_bytes_loop n m (buf + 1) ((h * FNV_32_PRIME) XOR ucast (m buf))"

definition hash_bytes :: "memory \<Rightarrow> addr \<Rightarrow> nat \<Rightarrow> u32 option" where
  "hash_bytes m buf sz = do { ASSERT (buf \<noteq> NULL); Some (hash_bytes_loop sz m buf FNV_32_BASIS) }"

partial_function (option) hash_string_loop :: "memory \<Rightarrow> addr \<Rightarrow> u32 \<Rightarrow> u32 option" where
  "hash_string_loop m s h =
     (if m s \<noteq> 0 then hash_string_loop m (s + 1) ((h * FNV_32_PRIME) XOR ucast (m s)) else Some h)"

definition hash_string :: "memory \<Rightarrow> addr \<Rightarrow> u32 option" where
  "hash_string m s = do { ASSERT (s \<noteq> NULL); hash_string_loop m s FNV_32_BASIS }"

text \<open>The argument of \<^verbatim>\<open>hash_int\<close> is a local variable: its four bytes, in memory.\<close>

definition hash_int :: "u32 \<Rightarrow> u32" where
  "hash_int i = the (hash_bytes (\<lambda>a. bytes_of_u32 i ! (a - 1)) 1 4)"

section \<open>Buckets\<close>

definition find_bucket :: "hash \<Rightarrow> addr \<Rightarrow> nat" where
  "find_bucket h e = unat (hash_func h e AND (bucket_cnt h - 1))"

definition bucket_at :: "hash \<Rightarrow> nat \<Rightarrow> addr list option" where
  "bucket_at h i = (if i < length (buckets h) then Some (buckets h ! i) else PANIC)"

fun find_elem :: "hash \<Rightarrow> addr list \<Rightarrow> addr \<Rightarrow> addr option" where
  "find_elem h [] e = None"
| "find_elem h (hi # rest) e =
     (if \<not> less_func h hi e \<and> \<not> less_func h e hi then Some hi else find_elem h rest e)"

definition insert_elem :: "hash \<Rightarrow> nat \<Rightarrow> addr \<Rightarrow> hash" where
  "insert_elem h i e =
     h\<lparr>elem_cnt := elem_cnt h + 1, buckets := (buckets h)[i := e # buckets h ! i]\<rparr>"

definition remove_elem :: "hash \<Rightarrow> addr \<Rightarrow> hash" where
  "remove_elem h e = h\<lparr>elem_cnt := elem_cnt h - 1, buckets := map (remove1 e) (buckets h)\<rparr>"

section \<open>Changing the number of buckets\<close>

definition BEST_ELEMS_PER_BUCKET :: u32 where
  "BEST_ELEMS_PER_BUCKET = 2"

definition turn_off_least_1bit :: "u32 \<Rightarrow> u32" where
  "turn_off_least_1bit x = x AND (x - 1)"

definition is_power_of_2 :: "u32 \<Rightarrow> bool" where
  "is_power_of_2 x \<longleftrightarrow> x \<noteq> 0 \<and> turn_off_least_1bit x = 0"

partial_function (option) power_of_2_loop :: "u32 \<Rightarrow> u32 option" where
  "power_of_2_loop x = (if \<not> is_power_of_2 x then power_of_2_loop (turn_off_least_1bit x) else Some x)"

fun move_elems :: "addr list \<Rightarrow> hash \<Rightarrow> hash option" where
  "move_elems [] h = Some h"
| "move_elems (e # es) h = do {
     let i = find_bucket h e;
     b \<leftarrow> bucket_at h i;
     move_elems es (h\<lparr>buckets := (buckets h)[i := e # b]\<rparr>) }"

fun move_buckets :: "addr list list \<Rightarrow> hash \<Rightarrow> hash option" where
  "move_buckets [] h = Some h"
| "move_buckets (b # bs) h = do { h \<leftarrow> move_elems b h; move_buckets bs h }"

definition rehash :: "bool \<Rightarrow> hash \<Rightarrow> hash option" where
  "rehash mem h = do {
     let new_bucket_cnt = elem_cnt h div BEST_ELEMS_PER_BUCKET;
     let new_bucket_cnt = (if new_bucket_cnt < 4 then 4 else new_bucket_cnt);
     new_bucket_cnt \<leftarrow> power_of_2_loop new_bucket_cnt;
     if new_bucket_cnt = bucket_cnt h then Some h
     else if \<not> mem then Some h
     else move_buckets (buckets h)
            (h\<lparr>buckets := replicate (unat new_bucket_cnt) [], bucket_cnt := new_bucket_cnt\<rparr>) }"

section \<open>Operations\<close>

text \<open>A destructor or an action changes a state of its own; \<open>None\<close> is a null pointer.\<close>

fun clear_bucket :: "(addr \<Rightarrow> 's \<Rightarrow> 's) \<Rightarrow> addr list \<Rightarrow> 's \<Rightarrow> 's" where
  "clear_bucket destructor [] s = s"
| "clear_bucket destructor (e # es) s = clear_bucket destructor es (destructor e s)"

definition hash_clear :: "hash \<Rightarrow> (addr \<Rightarrow> 's \<Rightarrow> 's) option \<Rightarrow> 's \<Rightarrow> hash \<times> 's" where
  "hash_clear h destructor s =
     (h\<lparr>buckets := map (\<lambda>bucket. []) (buckets h), elem_cnt := 0\<rparr>,
      (case destructor of None \<Rightarrow> s | Some f \<Rightarrow> fold (clear_bucket f) (buckets h) s))"

definition hash_init :: "bool \<Rightarrow> (addr \<Rightarrow> u32) \<Rightarrow> list_less_func \<Rightarrow> bool \<times> hash" where
  "hash_init mem hf lt =
     (let h = \<lparr>elem_cnt = 0, bucket_cnt = 4, buckets = (if mem then replicate 4 [] else []),
               hash_func = hf, less_func = lt\<rparr>
      in if mem then (True, fst (hash_clear h None ())) else (False, h))"

definition hash_destroy :: "hash \<Rightarrow> (addr \<Rightarrow> 's \<Rightarrow> 's) option \<Rightarrow> 's \<Rightarrow> 's" where
  "hash_destroy h destructor s = (if destructor \<noteq> None then snd (hash_clear h destructor s) else s)"

definition hash_insert :: "bool \<Rightarrow> hash \<Rightarrow> addr \<Rightarrow> (addr option \<times> hash) option" where
  "hash_insert mem h new = do {
     let i = find_bucket h new;
     bucket \<leftarrow> bucket_at h i;
     let old = find_elem h bucket new;
     let h = (if old = None then insert_elem h i new else h);
     h \<leftarrow> rehash mem h;
     Some (old, h) }"

definition hash_replace :: "bool \<Rightarrow> hash \<Rightarrow> addr \<Rightarrow> (addr option \<times> hash) option" where
  "hash_replace mem h new = do {
     let i = find_bucket h new;
     bucket \<leftarrow> bucket_at h i;
     let old = find_elem h bucket new;
     let h = (case old of None \<Rightarrow> h | Some x \<Rightarrow> remove_elem h x);
     h \<leftarrow> rehash mem (insert_elem h i new);
     Some (old, h) }"

definition hash_find :: "hash \<Rightarrow> addr \<Rightarrow> addr option option" where
  "hash_find h e = do {
     bucket \<leftarrow> bucket_at h (find_bucket h e);
     Some (find_elem h bucket e) }"

definition hash_delete :: "bool \<Rightarrow> hash \<Rightarrow> addr \<Rightarrow> (addr option \<times> hash) option" where
  "hash_delete mem h e = do {
     bucket \<leftarrow> bucket_at h (find_bucket h e);
     case find_elem h bucket e of
       None \<Rightarrow> Some (None, h)
     | Some x \<Rightarrow> do { h \<leftarrow> rehash mem (remove_elem h x); Some (Some x, h) } }"

fun apply_bucket :: "(addr \<Rightarrow> 's \<Rightarrow> 's) \<Rightarrow> addr list \<Rightarrow> 's \<Rightarrow> 's" where
  "apply_bucket action [] s = s"
| "apply_bucket action (e # es) s = apply_bucket action es (action e s)"

definition hash_apply :: "hash \<Rightarrow> (addr \<Rightarrow> 's \<Rightarrow> 's) option \<Rightarrow> 's \<Rightarrow> 's option" where
  "hash_apply h action s = (case action of None \<Rightarrow> PANIC | Some f \<Rightarrow> Some (fold (apply_bucket f) (buckets h) s))"

definition hash_size :: "hash \<Rightarrow> u32" where
  "hash_size h = elem_cnt h"

definition hash_empty :: "hash \<Rightarrow> bool" where
  "hash_empty h \<longleftrightarrow> elem_cnt h = 0"

section \<open>Iteration\<close>

text \<open>
  The element of an iterator is a position on the list of the current bucket: 0 is the head of the
  list, \<open>k\<close> its \<open>k\<close>-th element and the position after the last element its tail; \<open>None\<close> is the null
  pointer.
\<close>

record hash_iterator =
  it_bucket :: nat
  it_elem :: "nat option"

definition hash_first :: "hash_iterator" where
  "hash_first = \<lparr>it_bucket = 0, it_elem = Some 0\<rparr>"

function skip_empty :: "hash \<Rightarrow> nat \<Rightarrow> nat \<Rightarrow> hash_iterator" where
  "skip_empty h b k =
     (if k = length (buckets h ! b) + 1 then
        if b + 1 \<ge> length (buckets h) then \<lparr>it_bucket = b + 1, it_elem = None\<rparr>
        else skip_empty h (b + 1) 1
      else \<lparr>it_bucket = b, it_elem = Some k\<rparr>)"
  by pat_completeness auto
termination
  by (relation "measure (\<lambda>(h, b, k). length (buckets h) - b)") auto

declare skip_empty.simps [simp del]

definition hash_cur :: "hash \<Rightarrow> hash_iterator \<Rightarrow> addr option" where
  "hash_cur h i = (case it_elem i of None \<Rightarrow> None | Some k \<Rightarrow> Some (buckets h ! it_bucket i ! (k - 1)))"

text \<open>Advancing an iterator past the end dereferences the null pointer.\<close>

definition hash_next :: "hash \<Rightarrow> hash_iterator \<Rightarrow> (addr option \<times> hash_iterator) option" where
  "hash_next h i = (case it_elem i of
       None \<Rightarrow> PANIC
     | Some k \<Rightarrow> let i = skip_empty h (it_bucket i) (k + 1) in Some (hash_cur h i, i))"

section \<open>The number of buckets\<close>

lemma bit_of_bounds:
  assumes "2 ^ k \<le> unat (x :: u32)" and "unat x < 2 ^ (k + 1)"
  shows "bit x k"
proof -
  have "unat x div 2 ^ k = 1" using assms by (auto simp: div_nat_eqI)
  then have "bit (unat x) k" by (simp add: bit_iff_odd)
  then show ?thesis by (simp add: bit_unsigned_iff)
qed

lemma bit_bound: "bit (x :: u32) k \<Longrightarrow> 2 ^ k \<le> unat x"
proof (rule ccontr)
  assume "bit x k" and "\<not> 2 ^ k \<le> unat x"
  then have "unat x div 2 ^ k = 0" by simp
  then have "\<not> bit (unat x) k" by (simp add: bit_iff_odd)
  then show False using \<open>bit x k\<close> by (simp add: bit_unsigned_iff)
qed

lemma turn_off_less: "x \<noteq> 0 \<Longrightarrow> unat (turn_off_least_1bit x) < unat x"
proof -
  assume "x \<noteq> 0"
  then have "x - 1 < x" by (simp add: word_less_nat_alt unat_minus_one unat_gt_0)
  moreover have "turn_off_least_1bit x \<le> x - 1" by (simp add: turn_off_least_1bit_def word_and_le1)
  ultimately show ?thesis by (simp add: word_less_nat_alt word_le_nat_alt)
qed

lemma turn_off_keeps_top:
  assumes "2 ^ k < unat x" and "unat x < 2 ^ (k + 1)"
  shows "2 ^ k \<le> unat (turn_off_least_1bit x)"
proof -
  have x: "unat (x - 1) = unat x - 1" using assms by (metis unat_minus_one less_nat_zero_code unat_0)
  then have "bit x k" "bit (x - 1) k" using assms by (auto intro!: bit_of_bounds)
  then show ?thesis by (auto intro!: bit_bound simp: turn_off_least_1bit_def bit_and_iff)
qed

lemma turn_off_top:
  assumes "unat x = 2 ^ k" and "k < 32"
  shows "turn_off_least_1bit x = 0"
proof -
  have "x = of_nat (2 ^ k)" using assms(1) by (metis of_nat_unat ucast_id)
  then have x: "x = 2 ^ k" by simp
  have "\<not> (bit x n \<and> bit (x - 1) n)" for n
    by (auto simp: x bit_exp_iff mask_eq_exp_minus_1 [symmetric] bit_mask_iff)
  then show ?thesis by (auto intro!: bit_eqI simp: turn_off_least_1bit_def bit_and_iff)
qed

text \<open>The loop ends at the largest power of two below the number it starts with.\<close>

lemma power_of_2_loop_spec:
  "2 ^ k \<le> unat x \<Longrightarrow> unat x < 2 ^ (k + 1) \<Longrightarrow> k < 32 \<Longrightarrow>
     \<exists>p. power_of_2_loop x = Some p \<and> unat p = 2 ^ k \<and> is_power_of_2 p"
proof (induction "unat x" arbitrary: x rule: less_induct)
  case less
  have nz: "x \<noteq> 0" using less.prems(1) by (metis linorder_not_le unat_0 zero_less_numeral zero_less_power)
  show ?case
  proof (cases "unat x = 2 ^ k")
    case True
    then have "is_power_of_2 x" using nz turn_off_top [OF True less.prems(3)] by (simp add: is_power_of_2_def)
    then show ?thesis using True by (subst power_of_2_loop.simps) simp
  next
    case False
    then have top: "2 ^ k \<le> unat (turn_off_least_1bit x)"
      using turn_off_keeps_top [of k x] less.prems by simp
    then have "\<not> is_power_of_2 x" by (auto simp: is_power_of_2_def)
    moreover have "unat (turn_off_least_1bit x) < 2 ^ (k + 1)"
      using turn_off_less [OF nz] less.prems(2) by linarith
    ultimately show ?thesis
      using less.hyps [OF turn_off_less [OF nz] top _ less.prems(3)] by (subst power_of_2_loop.simps) simp
  qed
qed

lemma new_bucket_cnt:
  assumes "4 \<le> unat x"
  obtains p where "power_of_2_loop x = Some p" "is_power_of_2 p" "unat p \<le> unat x" "unat x < 2 * unat p"
proof -
  define k where "k = (GREATEST k. 2 ^ k \<le> unat x)"
  have b: "k \<le> unat x" if "2 ^ k \<le> unat x" for k
    using that less_exp [of k] by linarith
  have 1: "2 ^ k \<le> unat x"
    unfolding k_def
  proof (rule GreatestI_nat [of "\<lambda>k. 2 ^ k \<le> unat x" 0 "unat x"])
    show "2 ^ 0 \<le> unat x" using assms by simp
  qed (rule b)
  have 2: "unat x < 2 ^ (k + 1)"
  proof (rule ccontr)
    assume "\<not> unat x < 2 ^ (k + 1)"
    then have "k + 1 \<le> k" unfolding k_def
      by (intro Greatest_le_nat [of "\<lambda>k. 2 ^ k \<le> unat x" _ "unat x"]) (auto intro: b)
    then show False by simp
  qed
  have "(2::nat) ^ k < 2 ^ 32" using 1 unsigned_less [of x, where ?'a = nat] by simp
  then have "k < 32" by (rule power_less_imp_less_exp [rotated]) simp
  from power_of_2_loop_spec [OF 1 2 this] 1 2 show ?thesis by (auto intro: that)
qed


section \<open>Elements\<close>

definition same_elem :: "hash \<Rightarrow> addr \<Rightarrow> addr \<Rightarrow> bool" where
  "same_elem h a b \<longleftrightarrow> \<not> less_func h a b \<and> \<not> less_func h b a"

definition hash_elems :: "hash \<Rightarrow> addr list" where
  "hash_elems h = concat (buckets h)"

text \<open>Every element is in the bucket that its hash value selects.\<close>

definition placed :: "hash \<Rightarrow> bool" where
  "placed h \<longleftrightarrow> is_power_of_2 (bucket_cnt h) \<and> length (buckets h) = unat (bucket_cnt h)
     \<and> (\<forall>i < length (buckets h). \<forall>e \<in> set (buckets h ! i). find_bucket h e = i)"

definition hash_inv :: "hash \<Rightarrow> bool" where
  "hash_inv h \<longleftrightarrow> placed h \<and> unat (elem_cnt h) = length (hash_elems h) \<and> distinct (hash_elems h)
     \<and> (\<forall>a \<in> set (hash_elems h). \<forall>b \<in> set (hash_elems h). same_elem h a b \<longrightarrow> a = b)"

text \<open>The table as a map from keys to elements; a key is an element of which only the order counts.\<close>

definition hash_map :: "hash \<Rightarrow> addr \<Rightarrow> addr option" where
  "hash_map h e = find (\<lambda>x. same_elem h x e) (hash_elems h)"

lemma find_elem_eq: "find_elem h b e = find (\<lambda>x. same_elem h x e) b"
  by (induction b) (auto simp: same_elem_def)

lemma mset_concat_push:
  "i < length bs \<Longrightarrow> mset (concat (bs[i := e # bs ! i])) = add_mset e (mset (concat bs))"
proof (induction bs arbitrary: i)
  case (Cons b bs)
  then show ?case by (cases i) auto
qed simp

lemma concat_remove1:
  "distinct (concat bs) \<Longrightarrow> concat (map (remove1 e) bs) = remove1 e (concat bs)"
proof (induction bs)
  case (Cons b bs)
  then show ?case by (cases "e \<in> set b") (auto simp: remove1_append map_idI intro!: remove1_idem)
qed simp

lemma find_bucket_less: "placed h \<Longrightarrow> find_bucket h e < length (buckets h)"
proof -
  assume p: "placed h"
  then have nz: "bucket_cnt h \<noteq> 0" by (simp add: placed_def is_power_of_2_def)
  have "find_bucket h e \<le> unat (bucket_cnt h - 1)"
    by (simp add: find_bucket_def word_and_le1 flip: word_le_nat_alt)
  also have "\<dots> < unat (bucket_cnt h)" using nz by (simp add: unat_minus_one unat_gt_0)
  finally show ?thesis using p by (simp add: placed_def)
qed

lemma bucket_at_placed: "placed h \<Longrightarrow> bucket_at h (find_bucket h e) = Some (buckets h ! find_bucket h e)"
  using find_bucket_less by (simp add: bucket_at_def)

lemma find_bucket_upd [simp]:
  "find_bucket (h\<lparr>buckets := bs\<rparr>) e = find_bucket h e" "find_bucket (h\<lparr>elem_cnt := n\<rparr>) e = find_bucket h e"
  by (simp_all add: find_bucket_def)

lemma placed_push:
  assumes "placed h"
  shows "placed (h\<lparr>buckets := (buckets h)[find_bucket h e := e # buckets h ! find_bucket h e]\<rparr>)"
  using assms find_bucket_less [OF assms, of e] by (auto simp: placed_def nth_list_update)

lemma placed_elem_cnt [simp]: "placed (h\<lparr>elem_cnt := n\<rparr>) = placed h"
  by (simp add: placed_def)

lemma placed_remove: "placed h \<Longrightarrow> placed (remove_elem h e)"
  by (auto simp: placed_def remove_elem_def dest: set_remove1_subset [THEN subsetD])

text \<open>Moving all elements to new buckets keeps the elements and places them.\<close>

definition same_rest :: "hash \<Rightarrow> hash \<Rightarrow> bool" where
  "same_rest h h' \<longleftrightarrow> hash_func h' = hash_func h \<and> less_func h' = less_func h \<and> elem_cnt h' = elem_cnt h"

lemma move_elems_spec:
  "placed h \<Longrightarrow> \<exists>h'. move_elems es h = Some h' \<and> placed h' \<and> same_rest h h' \<and> bucket_cnt h' = bucket_cnt h
     \<and> mset (hash_elems h') = mset es + mset (hash_elems h)"
proof (induction es arbitrary: h)
  case (Cons e es)
  let ?h = "h\<lparr>buckets := (buckets h)[find_bucket h e := e # buckets h ! find_bucket h e]\<rparr>"
  from Cons.IH [OF placed_push [OF Cons.prems, of e]] show ?case
    using mset_concat_push [OF find_bucket_less [OF Cons.prems], of e e]
      bucket_at_placed [OF Cons.prems, of e]
    by (auto simp: same_rest_def hash_elems_def Let_def)
qed (auto simp: same_rest_def)

lemma move_buckets_spec:
  "placed h \<Longrightarrow> \<exists>h'. move_buckets bs h = Some h' \<and> placed h' \<and> same_rest h h' \<and> bucket_cnt h' = bucket_cnt h
     \<and> mset (hash_elems h') = mset (concat bs) + mset (hash_elems h)"
proof (induction bs arbitrary: h)
  case (Cons b bs)
  obtain h1 where h1: "move_elems b h = Some h1" "placed h1" "same_rest h h1" "bucket_cnt h1 = bucket_cnt h"
    "mset (hash_elems h1) = mset b + mset (hash_elems h)"
    using move_elems_spec [OF Cons.prems] by blast
  from Cons.IH [OF h1(2)] h1 show ?case by (auto simp: same_rest_def)
qed (auto simp: same_rest_def)

lemma rehash_spec:
  assumes p: "placed h"
  shows "\<exists>h'. rehash mem h = Some h' \<and> placed h' \<and> same_rest h h' \<and> mset (hash_elems h') = mset (hash_elems h)
    \<and> (mem \<longrightarrow> 4 \<le> unat (bucket_cnt h') \<and> unat (elem_cnt h) < 4 * unat (bucket_cnt h')
        \<and> unat (bucket_cnt h') \<le> max 4 (unat (elem_cnt h) div 2))"
proof -
  define n where "n = elem_cnt h div BEST_ELEMS_PER_BUCKET"
  define x where "x = (if n < 4 then 4 else n)"
  have n: "unat n = unat (elem_cnt h) div 2" by (simp add: n_def BEST_ELEMS_PER_BUCKET_def unat_div_distrib)
  have x: "unat x = max 4 (unat n)" by (simp add: x_def word_less_nat_alt)
  obtain q where q: "power_of_2_loop x = Some q" "is_power_of_2 q" "unat q \<le> unat x" "unat x < 2 * unat q"
    by (rule new_bucket_cnt [of x]) (simp add: x)
  have "4 \<le> unat q"
  proof (cases "unat n < 4")
    case True
    have 4: "is_power_of_2 4" by (simp add: is_power_of_2_def turn_off_least_1bit_def)
    then have "q = 4" using q(1) True x by (subst (asm) power_of_2_loop.simps) (simp add: x_def word_less_nat_alt)
    then show ?thesis by simp
  next
    case False
    then have "2 ^ 2 \<le> unat x" using x by simp
    show ?thesis
    proof (rule ccontr)
      assume "\<not> 4 \<le> unat q"
      then have "unat q = 3" using q(4) x False by linarith
      then have "q = 3" by (metis of_nat_numeral of_nat_unat ucast_id)
      then show False using q(2) by (simp add: is_power_of_2_def turn_off_least_1bit_def)
    qed
  qed
  then have bounds: "4 \<le> unat q \<and> unat (elem_cnt h) < 4 * unat q \<and> unat q \<le> max 4 (unat (elem_cnt h) div 2)"
    using q(3,4) x n by linarith
  let ?h = "h\<lparr>buckets := replicate (unat q) [], bucket_cnt := q\<rparr>"
  have "placed ?h" using q(2) by (simp add: placed_def)
  from move_buckets_spec [OF this, of "buckets h"] obtain h' where h': "move_buckets (buckets h) ?h = Some h'" "placed h'"
    "same_rest ?h h'" "bucket_cnt h' = q" "mset (hash_elems h') = mset (hash_elems h)"
    by (auto simp: hash_elems_def)
  have r: "rehash mem h = (if q = bucket_cnt h then Some h else if \<not> mem then Some h else Some h')"
    using q(1) h'(1) by (simp add: rehash_def Let_def n_def [symmetric] x_def [symmetric])
  show ?thesis
  proof (cases "q = bucket_cnt h \<or> \<not> mem")
    case True
    then show ?thesis using r p bounds by (auto simp: same_rest_def)
  next
    case False
    then show ?thesis using r h' bounds by (auto simp: same_rest_def)
  qed
qed


section \<open>The table as a map\<close>

text \<open>
  Sequences of operations, each with whether \<^verbatim>\<open>malloc\<close> finds memory for it, and the same operations on
  a map.
\<close>

datatype hash_op = Insert addr | Replace addr | Find addr | Delete addr

fun hash_step :: "bool \<Rightarrow> hash_op \<Rightarrow> hash \<Rightarrow> (addr option \<times> hash) option" where
  "hash_step mem (Insert e) h = hash_insert mem h e"
| "hash_step mem (Replace e) h = hash_replace mem h e"
| "hash_step mem (Find e) h = map_option (\<lambda>r. (r, h)) (hash_find h e)"
| "hash_step mem (Delete e) h = hash_delete mem h e"

fun hash_run :: "(bool \<times> hash_op) list \<Rightarrow> hash \<Rightarrow> (addr option list \<times> hash) option" where
  "hash_run [] h = Some ([], h)"
| "hash_run ((mem, op) # ops) h = do {
     (r, h) \<leftarrow> hash_step mem op h;
     (rs, h) \<leftarrow> hash_run ops h;
     Some (r # rs, h) }"

definition map_upd_class :: "list_less_func \<Rightarrow> addr \<Rightarrow> addr option \<Rightarrow> (addr \<Rightarrow> addr option) \<Rightarrow> addr \<Rightarrow> addr option" where
  "map_upd_class lt e v m = (\<lambda>x. if \<not> lt e x \<and> \<not> lt x e then v else m x)"

fun map_step :: "list_less_func \<Rightarrow> hash_op \<Rightarrow> (addr \<Rightarrow> addr option) \<Rightarrow> addr \<Rightarrow> addr option" where
  "map_step lt (Insert e) m = (if m e = None then map_upd_class lt e (Some e) m else m)"
| "map_step lt (Replace e) m = map_upd_class lt e (Some e) m"
| "map_step lt (Find e) m = m"
| "map_step lt (Delete e) m = map_upd_class lt e None m"

fun op_key :: "hash_op \<Rightarrow> addr" where
  "op_key (Insert e) = e"
| "op_key (Replace e) = e"
| "op_key (Find e) = e"
| "op_key (Delete e) = e"

fun map_run :: "list_less_func \<Rightarrow> hash_op list \<Rightarrow> (addr \<Rightarrow> addr option) \<Rightarrow> addr option list" where
  "map_run lt [] m = []"
| "map_run lt (op # ops) m = m (op_key op) # map_run lt ops (map_step lt op m)"

text \<open>What the hash and comparison functions have to satisfy: equal elements have equal hash values.\<close>

locale hash_funcs = list_less lt for lt :: list_less_func +
  fixes hf :: "addr \<Rightarrow> u32"
  assumes hash_equal: "\<not> lt a b \<Longrightarrow> \<not> lt b a \<Longrightarrow> hf a = hf b"
begin

definition table :: "hash \<Rightarrow> bool" where
  "table h \<longleftrightarrow> hash_inv h \<and> less_func h = lt \<and> hash_func h = hf"

lemma same_trans: "table h \<Longrightarrow> same_elem h a b \<Longrightarrow> same_elem h b c \<Longrightarrow> same_elem h a c"
  using neg_trans by (auto simp: table_def same_elem_def)

lemma same_sym: "same_elem h a b \<Longrightarrow> same_elem h b a"
  by (simp add: same_elem_def)

lemma same_bucket: "table h \<Longrightarrow> same_elem h a b \<Longrightarrow> find_bucket h a = find_bucket h b"
  using hash_equal [of a b] by (simp add: table_def same_elem_def find_bucket_def)

lemma tableD:
  assumes "table h"
  shows "placed h" "distinct (hash_elems h)" "unat (elem_cnt h) = length (hash_elems h)"
    and "a \<in> set (hash_elems h) \<Longrightarrow> b \<in> set (hash_elems h) \<Longrightarrow> same_elem h a b \<Longrightarrow> a = b"
  using assms by (auto simp: table_def hash_inv_def)

lemma find_unique:
  assumes t: "table h" and sub: "\<And>x. x \<in> set xs \<Longrightarrow> x \<in> set (hash_elems h)"
  shows "find (\<lambda>x. same_elem h x e) xs = Some y \<longleftrightarrow> y \<in> set xs \<and> same_elem h y e"
proof
  assume "y \<in> set xs \<and> same_elem h y e"
  moreover then obtain z where z: "find (\<lambda>x. same_elem h x e) xs = Some z" by (metis find_None_iff not_Some_eq)
  moreover then have "z \<in> set xs" "same_elem h z e" by (auto simp: find_Some_iff)
  ultimately show "find (\<lambda>x. same_elem h x e) xs = Some y"
    using tableD(4) [OF t] sub same_trans [OF t] same_sym by metis
qed (auto simp: find_Some_iff)

lemma map_iff: "table h \<Longrightarrow> hash_map h e = Some x \<longleftrightarrow> x \<in> set (hash_elems h) \<and> same_elem h x e"
  unfolding hash_map_def by (rule find_unique)

lemma find_elem_map:
  assumes t: "table h"
  shows "find_elem h (buckets h ! find_bucket h e) e = hash_map h e"
proof -
  let ?b = "buckets h ! find_bucket h e"
  have lt: "find_bucket h e < length (buckets h)" by (rule find_bucket_less [OF tableD(1) [OF t]])
  have sub: "x \<in> set (hash_elems h)" if "x \<in> set ?b" for x
    using that nth_mem [OF lt] by (auto simp: hash_elems_def)
  have conv: "x \<in> set ?b" if "x \<in> set (hash_elems h)" "same_elem h x e" for x
  proof -
    from that(1) obtain i where "i < length (buckets h)" "x \<in> set (buckets h ! i)"
      unfolding hash_elems_def set_concat by (metis UN_E in_set_conv_nth)
    moreover then have "i = find_bucket h x" using tableD(1) [OF t] by (auto simp: placed_def)
    ultimately show ?thesis using same_bucket [OF t that(2)] by simp
  qed
  have "find_elem h ?b e = Some x \<longleftrightarrow> hash_map h e = Some x" for x
    using find_unique [where xs = ?b and e = e and y = x, OF t sub] map_iff [OF t, of e x] sub [of x] conv [of x]
    by (auto simp: find_elem_eq)
  then show ?thesis by (metis option.exhaust)
qed

lemma hash_find_map: "table h \<Longrightarrow> hash_find h e = Some (hash_map h e)"
  using bucket_at_placed [OF tableD(1)] find_elem_map by (simp add: hash_find_def)

text \<open>Rearranging the elements does not change the map.\<close>

lemma table_rehash:
  assumes p: "placed h" and f: "less_func h = lt" "hash_func h = hf"
    and c: "unat (elem_cnt h) = length (hash_elems h)" "distinct (hash_elems h)"
      "\<And>a b. a \<in> set (hash_elems h) \<Longrightarrow> b \<in> set (hash_elems h) \<Longrightarrow> same_elem h a b \<Longrightarrow> a = b"
  shows "\<exists>h'. rehash mem h = Some h' \<and> table h' \<and> set (hash_elems h') = set (hash_elems h)
    \<and> elem_cnt h' = elem_cnt h \<and> (mem \<longrightarrow> unat (elem_cnt h') < 4 * unat (bucket_cnt h'))"
proof -
  obtain h' where h': "rehash mem h = Some h'" "placed h'" "same_rest h h'" "mset (hash_elems h') = mset (hash_elems h)"
    "mem \<longrightarrow> unat (elem_cnt h) < 4 * unat (bucket_cnt h')"
    using rehash_spec [OF p, of mem] by blast
  have "distinct (hash_elems h')" using c(2) mset_eq_imp_distinct_iff [OF h'(4)] by simp
  moreover have "set (hash_elems h') = set (hash_elems h)" using h'(4) by (rule mset_eq_setD)
  moreover have "length (hash_elems h') = length (hash_elems h)" using h'(4) by (rule mset_eq_length)
  ultimately show ?thesis
    using h' f c by (auto simp: table_def hash_inv_def same_rest_def same_elem_def)
qed

text \<open>Every change of the table is one of two changes of the set of elements.\<close>

lemma map_insert:
  assumes t: "table h" "table h'" and s: "set (hash_elems h') = insert e {x \<in> set (hash_elems h). \<not> same_elem h x e}"
  shows "hash_map h' = (\<lambda>x. if same_elem h e x then Some e else hash_map h x)"
proof
  fix x
  have [simp]: "same_elem h' = same_elem h" using t by (auto simp: table_def same_elem_def fun_eq_iff)
  have tr: "same_elem h y x \<Longrightarrow> same_elem h e x \<longleftrightarrow> same_elem h y e" for y
    using same_trans [OF t(1)] same_sym [of h] by blast
  have "hash_map h' x = Some y \<longleftrightarrow> (if same_elem h e x then Some e else hash_map h x) = Some y" for y
    using map_iff [OF t(1), of x y] map_iff [OF t(2), of x y] s tr [of y] by auto
  then show "hash_map h' x = (if same_elem h e x then Some e else hash_map h x)" by (metis option.exhaust)
qed

lemma map_delete:
  assumes t: "table h" "table h'" and s: "set (hash_elems h') = {x \<in> set (hash_elems h). \<not> same_elem h x e}"
  shows "hash_map h' = (\<lambda>x. if same_elem h e x then None else hash_map h x)"
proof
  fix x
  have [simp]: "same_elem h' = same_elem h" using t by (auto simp: table_def same_elem_def fun_eq_iff)
  have tr: "same_elem h y x \<Longrightarrow> same_elem h e x \<longleftrightarrow> same_elem h y e" for y
    using same_trans [OF t(1)] same_sym [of h] by blast
  have "hash_map h' x = Some y \<longleftrightarrow> (if same_elem h e x then None else hash_map h x) = Some y" for y
    using map_iff [OF t(1), of x y] map_iff [OF t(2), of x y] s tr [of y] by auto
  then show "hash_map h' x = (if same_elem h e x then None else hash_map h x)" by (metis option.exhaust)
qed

lemma map_None: "table h \<Longrightarrow> hash_map h e = None \<longleftrightarrow> (\<forall>x \<in> set (hash_elems h). \<not> same_elem h x e)"
  by (auto simp: hash_map_def find_None_iff)

text \<open>Adding an element that equals none, and removing one, up to the rearrangement of the buckets.\<close>

lemma insert_new:
  assumes t: "table h" and new: "hash_map h e = None" and room: "unat (elem_cnt h) + 1 < 4294967296"
  shows "\<exists>h'. rehash mem (insert_elem h (find_bucket h e) e) = Some h' \<and> table h'
    \<and> set (hash_elems h') = insert e (set (hash_elems h)) \<and> unat (elem_cnt h') = unat (elem_cnt h) + 1
    \<and> (mem \<longrightarrow> unat (elem_cnt h') < 4 * unat (bucket_cnt h'))"
proof -
  let ?h = "insert_elem h (find_bucket h e) e"
  have refl: "same_elem h e e" using t asym [of e e] by (auto simp: table_def same_elem_def)
  have no: "\<not> same_elem h x e" if "x \<in> set (hash_elems h)" for x using that new map_None [OF t] by blast
  have "?h = (h\<lparr>buckets := (buckets h)[find_bucket h e := e # buckets h ! find_bucket h e]\<rparr>)\<lparr>elem_cnt := elem_cnt h + 1\<rparr>"
    by (simp add: insert_elem_def)
  then have p: "placed ?h" using placed_push [OF tableD(1) [OF t], of e] by (simp only: placed_elem_cnt)
  have m: "mset (hash_elems ?h) = add_mset e (mset (hash_elems h))"
    using mset_concat_push [OF find_bucket_less [OF tableD(1) [OF t]], of e e]
    by (simp add: insert_elem_def hash_elems_def)
  have cnt: "unat (elem_cnt ?h) = unat (elem_cnt h) + 1"
    using room by (simp add: insert_elem_def unat_word_ariths(1) mod_less)
  have f: "less_func ?h = lt" "hash_func ?h = hf" using t by (auto simp: table_def insert_elem_def)
  have s: "set (hash_elems ?h) = insert e (set (hash_elems h))" using mset_eq_setD [of "hash_elems ?h" "e # hash_elems h"] m by simp
  have d: "distinct (hash_elems ?h)"
    using mset_eq_imp_distinct_iff [of "hash_elems ?h" "e # hash_elems h"] m tableD(2) [OF t] no [of e] refl by auto
  have l: "unat (elem_cnt ?h) = length (hash_elems ?h)"
    using mset_eq_length [of "hash_elems ?h" "e # hash_elems h"] m cnt tableD(3) [OF t] by simp
  have u: "a = b" if "a \<in> set (hash_elems ?h)" "b \<in> set (hash_elems ?h)" "same_elem ?h a b" for a b
  proof -
    have "same_elem h a b" using that(3) by (simp add: same_elem_def insert_elem_def)
    then show ?thesis using that(1,2) s no [of a] no [of b] same_sym [of h a b] tableD(4) [OF t, of a b] by auto
  qed
  obtain h' where h': "rehash mem ?h = Some h'" "table h'" "set (hash_elems h') = set (hash_elems ?h)" "elem_cnt h' = elem_cnt ?h"
    "mem \<longrightarrow> unat (elem_cnt h') < 4 * unat (bucket_cnt h')"
    using table_rehash [OF p f l d u, of mem] by blast
  show ?thesis using h'(5) by (intro exI [of _ h'] conjI h'(1,2)) (simp_all add: h'(3,4) s cnt)
qed

lemma remove_old:
  assumes t: "table h" and x: "x \<in> set (hash_elems h)"
  shows "placed (remove_elem h x)" "less_func (remove_elem h x) = lt" "hash_func (remove_elem h x) = hf"
    "unat (elem_cnt (remove_elem h x)) = length (hash_elems (remove_elem h x))" "distinct (hash_elems (remove_elem h x))"
    "set (hash_elems (remove_elem h x)) = set (hash_elems h) - {x}"
    "unat (elem_cnt (remove_elem h x)) = unat (elem_cnt h) - 1"
    "table (remove_elem h x)"
proof -
  let ?h = "remove_elem h x"
  have e: "hash_elems ?h = remove1 x (hash_elems h)"
    using concat_remove1 [of "buckets h" x] tableD(2) [OF t] by (simp add: remove_elem_def hash_elems_def)
  show p: "placed ?h" by (rule placed_remove [OF tableD(1) [OF t]])
  show f: "less_func ?h = lt" "hash_func ?h = hf" using t by (auto simp: table_def remove_elem_def)
  have pos: "0 < unat (elem_cnt h)" using x tableD(3) [OF t] by (auto simp: length_pos_if_in_set)
  show c: "unat (elem_cnt ?h) = unat (elem_cnt h) - 1"
    using pos by (simp add: remove_elem_def unat_minus_one unat_gt_0)
  show l: "unat (elem_cnt ?h) = length (hash_elems ?h)" using c e x tableD(3) [OF t] by (simp add: length_remove1)
  show d: "distinct (hash_elems ?h)" using e tableD(2) [OF t] by simp
  show s: "set (hash_elems ?h) = set (hash_elems h) - {x}" using e tableD(2) [OF t] by (simp add: set_remove1_eq)
  have "same_elem ?h = same_elem h" by (simp add: same_elem_def remove_elem_def fun_eq_iff)
  then show "table ?h" using p f l d s tableD(4) [OF t] by (auto simp: table_def hash_inv_def)
qed

lemma others:
  assumes "table h" and "x \<in> set (hash_elems h)" and "same_elem h x e"
  shows "set (hash_elems h) - {x} = {y \<in> set (hash_elems h). \<not> same_elem h y e}"
  using assms tableD(4) [OF assms(1)] same_trans [OF assms(1)] same_sym [of h] by blast

lemma hash_insert_map:
  assumes t: "table h" and room: "unat (elem_cnt h) + 1 < 4294967296"
  shows "\<exists>h'. hash_insert mem h e = Some (hash_map h e, h') \<and> table h' \<and> unat (elem_cnt h') \<le> unat (elem_cnt h) + 1
    \<and> hash_map h' = (if hash_map h e = None then \<lambda>x. if same_elem h e x then Some e else hash_map h x else hash_map h)
    \<and> (mem \<longrightarrow> unat (elem_cnt h') < 4 * unat (bucket_cnt h'))"
proof (cases "hash_map h e")
  case None
  obtain h' where h': "rehash mem (insert_elem h (find_bucket h e) e) = Some h'" "table h'"
    "set (hash_elems h') = insert e (set (hash_elems h))" "unat (elem_cnt h') = unat (elem_cnt h) + 1"
    "mem \<longrightarrow> unat (elem_cnt h') < 4 * unat (bucket_cnt h')"
    using insert_new [OF t None room] by blast
  have "set (hash_elems h') = insert e {x \<in> set (hash_elems h). \<not> same_elem h x e}"
    using h'(3) None map_None [OF t] by auto
  from map_insert [OF t h'(2) this] h' None show ?thesis
    using bucket_at_placed [OF tableD(1) [OF t], of e] find_elem_map [OF t, of e] by (simp add: hash_insert_def Let_def)
next
  case (Some x)
  obtain h' where h': "rehash mem h = Some h'" "table h'" "set (hash_elems h') = set (hash_elems h)" "elem_cnt h' = elem_cnt h"
    "mem \<longrightarrow> unat (elem_cnt h') < 4 * unat (bucket_cnt h')"
    using table_rehash [of h mem] tableD [OF t] t by (auto simp: table_def)
  have "same_elem h' = same_elem h" using t h'(2) by (auto simp: table_def same_elem_def fun_eq_iff)
  then have "hash_map h' y = Some z \<longleftrightarrow> hash_map h y = Some z" for y z
    using map_iff [OF t] map_iff [OF h'(2)] h'(3) by simp
  then have "hash_map h' = hash_map h" by (metis ext option.exhaust)
  then show ?thesis using h' Some bucket_at_placed [OF tableD(1) [OF t], of e] find_elem_map [OF t, of e]
    by (simp add: hash_insert_def Let_def)
qed

lemma hash_replace_map:
  assumes t: "table h" and room: "unat (elem_cnt h) + 1 < 4294967296"
  shows "\<exists>h'. hash_replace mem h e = Some (hash_map h e, h') \<and> table h' \<and> unat (elem_cnt h') \<le> unat (elem_cnt h) + 1
    \<and> hash_map h' = (\<lambda>x. if same_elem h e x then Some e else hash_map h x)"
proof -
  define h1 where "h1 = (case hash_map h e of None \<Rightarrow> h | Some x \<Rightarrow> remove_elem h x)"
  have h1: "table h1 \<and> set (hash_elems h1) = {x \<in> set (hash_elems h). \<not> same_elem h x e} \<and> unat (elem_cnt h1) \<le> unat (elem_cnt h)
    \<and> same_elem h1 = same_elem h \<and> find_bucket h1 e = find_bucket h e"
  proof (cases "hash_map h e")
    case None
    then show ?thesis using t map_None [OF t, of e] by (auto simp: h1_def simp del: not_None_eq)
  next
    case (Some x)
    then have x: "x \<in> set (hash_elems h)" "same_elem h x e" using map_iff [OF t] by auto
    show ?thesis using remove_old [OF t x(1)] others [OF t x]
      by (simp add: h1_def Some same_elem_def fun_eq_iff) (simp add: remove_elem_def find_bucket_def)
  qed
  then have "hash_map h1 e = None" using map_None [of h1] by simp
  from insert_new [OF _ this, of mem] h1 room obtain h' where h': "rehash mem (insert_elem h1 (find_bucket h1 e) e) = Some h'" "table h'"
    "set (hash_elems h') = insert e (set (hash_elems h1))" "unat (elem_cnt h') = unat (elem_cnt h1) + 1" by auto
  from h'(3) h1 have "set (hash_elems h') = insert e {x \<in> set (hash_elems h). \<not> same_elem h x e}" by simp
  from map_insert [OF t h'(2) this] h' h1 show ?thesis
    using bucket_at_placed [OF tableD(1) [OF t], of e] find_elem_map [OF t, of e]
    by (simp add: hash_replace_def Let_def h1_def [symmetric])
qed

lemma hash_delete_map:
  assumes t: "table h"
  shows "\<exists>h'. hash_delete mem h e = Some (hash_map h e, h') \<and> table h' \<and> unat (elem_cnt h') \<le> unat (elem_cnt h)
    \<and> hash_map h' = (\<lambda>x. if same_elem h e x then None else hash_map h x)"
proof (cases "hash_map h e")
  case None
  have "hash_map h = (\<lambda>x. if same_elem h e x then None else hash_map h x)"
    by (rule map_delete [OF t t]) (use None map_None [OF t] in auto)
  then show ?thesis using t None bucket_at_placed [OF tableD(1) [OF t], of e] find_elem_map [OF t, of e]
    by (simp add: hash_delete_def)
next
  case (Some x)
  then have x: "x \<in> set (hash_elems h)" "same_elem h x e" using map_iff [OF t] by auto
  let ?h = "remove_elem h x"
  note r = remove_old [OF t x(1)]
  obtain h' where h': "rehash mem ?h = Some h'" "table h'" "set (hash_elems h') = set (hash_elems ?h)" "elem_cnt h' = elem_cnt ?h"
    using table_rehash [OF r(1-5) tableD(4) [OF r(8)], of mem] by blast
  have "set (hash_elems h') = {y \<in> set (hash_elems h). \<not> same_elem h y e}" using h'(3) r(6) others [OF t x] by simp
  from map_delete [OF t h'(2) this] h' r(7) Some show ?thesis
    using bucket_at_placed [OF tableD(1) [OF t], of e] find_elem_map [OF t, of e] by (simp add: hash_delete_def)
qed

lemma hash_step_map:
  assumes t: "table h" and room: "unat (elem_cnt h) + 1 < 4294967296"
  shows "\<exists>h'. hash_step mem op h = Some (hash_map h (op_key op), h') \<and> table h' \<and> unat (elem_cnt h') \<le> unat (elem_cnt h) + 1
    \<and> hash_map h' = map_step lt op (hash_map h)"
proof -
  have s: "same_elem h e x \<longleftrightarrow> \<not> lt e x \<and> \<not> lt x e" for e x using t by (simp add: table_def same_elem_def)
  show ?thesis
  proof (cases op)
    case (Insert e)
    then show ?thesis using hash_insert_map [OF t room, of mem e] by (auto simp: s map_upd_class_def)
  next
    case (Replace e)
    then show ?thesis using hash_replace_map [OF t room, of mem e] by (auto simp: s map_upd_class_def)
  next
    case (Find e)
    then show ?thesis using t hash_find_map [OF t, of e] by simp
  next
    case (Delete e)
    then show ?thesis using hash_delete_map [OF t, of mem e] by (auto simp: s map_upd_class_def)
  qed
qed

lemma hash_run_map:
  "table h \<Longrightarrow> unat (elem_cnt h) + length ops < 4294967296 \<Longrightarrow>
     \<exists>h'. hash_run ops h = Some (map_run lt (map snd ops) (hash_map h), h') \<and> table h'"
proof (induction ops arbitrary: h)
  case (Cons mop ops)
  obtain mem op where mop: "mop = (mem, op)" by fastforce
  obtain h' where h': "hash_step mem op h = Some (hash_map h (op_key op), h')" "table h'"
    "unat (elem_cnt h') \<le> unat (elem_cnt h) + 1" "hash_map h' = map_step lt op (hash_map h)"
    using hash_step_map [of h mem op] Cons.prems by auto
  from Cons.IH [OF h'(2)] h' Cons.prems(2) show ?case by (auto simp: mop)
qed simp

lemma init_table: "table (snd (hash_init True hf lt))" "hash_map (snd (hash_init True hf lt)) = (\<lambda>_. None)"
  by (auto simp: table_def hash_init_def hash_clear_def hash_inv_def placed_def hash_elems_def hash_map_def
      is_power_of_2_def turn_off_least_1bit_def fun_eq_iff map_replicate concat_replicate_trivial)

end

interpretation int_keys: hash_funcs "\<lambda>a b. key a < key b" "\<lambda>e. hash_int (key e)" for key :: "addr \<Rightarrow> u32"
  by unfold_locales auto

section \<open>Iteration\<close>

fun iterate :: "hash \<Rightarrow> nat \<Rightarrow> hash_iterator \<Rightarrow> addr list option" where
  "iterate h 0 i = PANIC"
| "iterate h (Suc fuel) i = do {
     (e, i) \<leftarrow> hash_next h i;
     case e of None \<Rightarrow> Some [] | Some x \<Rightarrow> do { xs \<leftarrow> iterate h fuel i; Some (x # xs) } }"

lemma skip_empty_spec:
  assumes "b < length (buckets h)" and "1 \<le> k" and "k \<le> length (buckets h ! b) + 1"
  shows "(case it_elem (skip_empty h b k) of
      None \<Rightarrow> drop (k - 1) (buckets h ! b) @ concat (drop (b + 1) (buckets h)) = []
    | Some k' \<Rightarrow> it_bucket (skip_empty h b k) < length (buckets h) \<and> 1 \<le> k' \<and> k' \<le> length (buckets h ! it_bucket (skip_empty h b k))
        \<and> drop (k - 1) (buckets h ! b) @ concat (drop (b + 1) (buckets h))
          = drop (k' - 1) (buckets h ! it_bucket (skip_empty h b k)) @ concat (drop (it_bucket (skip_empty h b k) + 1) (buckets h)))"
  using assms
proof (induction h b k rule: skip_empty.induct)
  case (1 h b k)
  show ?case
  proof (cases "k = length (buckets h ! b) + 1")
    case False
    then show ?thesis using 1(2-) by (simp add: skip_empty.simps [of h b k])
  next
    case k: True
    show ?thesis
    proof (cases "b + 1 \<ge> length (buckets h)")
      case True
      then have e: "skip_empty h b k = \<lparr>it_bucket = b + 1, it_elem = None\<rparr>" using k by (subst skip_empty.simps) simp
      show ?thesis unfolding e using True k by simp
    next
      case False
      then have e: "skip_empty h b k = skip_empty h (b + 1) 1" using k by (subst skip_empty.simps) simp
      from False have "concat (drop (b + 1) (buckets h)) = buckets h ! (b + 1) @ concat (drop (b + 1 + 1) (buckets h))"
        by (simp flip: Cons_nth_drop_Suc)
      then show ?thesis unfolding e using k False 1(1) [OF k False] by (simp cong: option.case_cong)
    qed
  qed
qed

lemma iterate_spec:
  assumes "it_bucket i < length (buckets h)" and "it_elem i = Some k" and "k \<le> length (buckets h ! it_bucket i)"
    and "length (drop k (buckets h ! it_bucket i) @ concat (drop (it_bucket i + 1) (buckets h))) < fuel"
  shows "iterate h fuel i = Some (drop k (buckets h ! it_bucket i) @ concat (drop (it_bucket i + 1) (buckets h)))"
  using assms
proof (induction fuel arbitrary: i k)
  case (Suc fuel)
  define j where "j = skip_empty h (it_bucket i) (k + 1)"
  have n: "hash_next h i = Some (hash_cur h j, j)" using Suc.prems(2) by (simp add: hash_next_def Let_def j_def)
  have s: "(case it_elem j of
      None \<Rightarrow> drop k (buckets h ! it_bucket i) @ concat (drop (it_bucket i + 1) (buckets h)) = []
    | Some k' \<Rightarrow> it_bucket j < length (buckets h) \<and> 1 \<le> k' \<and> k' \<le> length (buckets h ! it_bucket j)
        \<and> drop k (buckets h ! it_bucket i) @ concat (drop (it_bucket i + 1) (buckets h))
          = drop (k' - 1) (buckets h ! it_bucket j) @ concat (drop (it_bucket j + 1) (buckets h)))"
    using skip_empty_spec [of "it_bucket i" h "k + 1"] Suc.prems by (simp add: j_def cong: option.case_cong)
  show ?case
  proof (cases "it_elem j")
    case None
    then show ?thesis using s n by (simp add: hash_cur_def)
  next
    case (Some k')
    let ?b = "buckets h ! it_bucket j"
    have k': "it_bucket j < length (buckets h)" "1 \<le> k'" "k' \<le> length ?b"
      and e: "drop k (buckets h ! it_bucket i) @ concat (drop (it_bucket i + 1) (buckets h))
          = drop (k' - 1) ?b @ concat (drop (it_bucket j + 1) (buckets h))"
      using s Some by auto
    have d: "drop (k' - 1) ?b = ?b ! (k' - 1) # drop k' ?b" using k' Cons_nth_drop_Suc [of "k' - 1" ?b] by simp
    have "iterate h fuel j = Some (drop k' ?b @ concat (drop (it_bucket j + 1) (buckets h)))"
      using Suc.prems(4) arg_cong [OF e, of length] k'(2,3) by (intro Suc.IH [OF k'(1) Some k'(3)]) simp
    then show ?thesis using n e d Some by (simp add: hash_cur_def)
  qed
qed simp

section \<open>Properties\<close>

text \<open>
  C27: a hash table implements a map. For every sequence of insertions, replacements, searches and
  deletions on a new table, whatever the memory allocator answers to the attempts to change the number
  of buckets, every operation succeeds and returns what it returns on a map from keys to elements, if
  the comparison is an order and equal elements have equal hash values.
\<close>

theorem hash_implements_map:
  assumes "\<And>a b. lt a b \<Longrightarrow> \<not> lt b a" and "\<And>a b c. \<not> lt a b \<Longrightarrow> \<not> lt b c \<Longrightarrow> \<not> lt a c"
    and "\<And>a b. \<not> lt a b \<Longrightarrow> \<not> lt b a \<Longrightarrow> hf a = hf b" and "length ops < 4294967296"
  shows "\<exists>h. hash_run ops (snd (hash_init True hf lt)) = Some (map_run lt (map snd ops) (\<lambda>_. None), h) \<and> hash_inv h"
proof -
  have L: "hash_funcs lt hf" using assms(1-3) by (intro hash_funcs.intro list_less.intro hash_funcs_axioms.intro)
  have "elem_cnt (snd (hash_init True hf lt)) = 0" by (simp add: hash_init_def hash_clear_def)
  then show ?thesis
    using hash_funcs.hash_run_map [OF L hash_funcs.init_table(1) [OF L], of ops] assms(4)
    by (auto simp: hash_funcs.init_table(2) [OF L] hash_funcs.table_def [OF L])
qed

theorem hash_implements_map_witness:
  "\<exists>h. hash_run [(True, Insert 7), (False, Insert 8), (True, Find 7), (True, Delete 8), (True, Find 8)]
      (snd (hash_init True (\<lambda>e. hash_int (of_nat e)) (<)))
    = Some ([None, None, Some 7, Some 8, None], h)"
proof -
  let ?ops = "[(True, Insert 7), (False, Insert 8), (True, Find 7), (True, Delete 8), (True, Find 8)]"
  have "\<exists>h. hash_run ?ops (snd (hash_init True (\<lambda>e. hash_int (of_nat e)) (<))) = Some (map_run (<) (map snd ?ops) (\<lambda>_. None), h) \<and> hash_inv h"
    by (rule hash_implements_map) auto
  then obtain h where h: "hash_run ?ops (snd (hash_init True (\<lambda>e. hash_int (of_nat e)) (<))) = Some (map_run (<) (map snd ?ops) (\<lambda>_. None), h)"
    by blast
  have m: "map_run (<) (map snd ?ops) (\<lambda>_. None) = [None, None, Some 7, Some 8, None]" by (simp add: map_upd_class_def)
  show ?thesis by (rule exI [of _ h]) (rule h [unfolded m])
qed



text \<open>
  iterating over a hash table visits every element exactly once: the calls of \<^verbatim>\<open>hash_next\<close> after
  \<^verbatim>\<open>hash_first\<close> return the elements of the buckets in their order and then the null pointer, whatever
  buckets are empty.
\<close>

theorem hash_iteration:
  assumes "hash_inv h" and "unat (hash_size h) < fuel"
  shows "\<exists>xs. iterate h fuel hash_first = Some xs \<and> distinct xs \<and> (\<forall>e. e \<in> set xs \<longleftrightarrow> e \<in> set (hash_elems h)) \<and> length xs = unat (hash_size h)"
proof -
  have "placed h" and l: "unat (elem_cnt h) = length (hash_elems h)" and d: "distinct (hash_elems h)"
    using assms(1) by (auto simp: hash_inv_def)
  from find_bucket_less [OF this(1), of 0] have ne: "0 < length (buckets h)" by linarith
  then have "hash_elems h = buckets h ! 0 @ concat (drop 1 (buckets h))"
    by (cases "buckets h") (simp_all add: hash_elems_def)
  then have "iterate h fuel hash_first = Some (hash_elems h)"
    using iterate_spec [of hash_first h 0 fuel] ne assms(2) l by (simp add: hash_first_def hash_size_def)
  then show ?thesis using d l by (simp add: hash_size_def)
qed

theorem hash_iteration_witness:
  "\<exists>xs. iterate (snd (hash_init True (\<lambda>e. hash_int (of_nat e)) (\<lambda>a b. of_nat a < (of_nat b :: u32)))) 1 hash_first = Some xs \<and> length xs = 0"
  using hash_iteration [of "snd (hash_init True (\<lambda>e. hash_int (of_nat e)) (\<lambda>a b. of_nat a < (of_nat b :: u32)))" 1]
    int_keys.init_table(1) [of of_nat]
  by (auto simp: int_keys.table_def hash_size_def hash_init_def hash_clear_def)

end
