(* ===== verification/Palloc.thy ===== *)
theory Palloc
  imports Kernel_Bitmap Cstring
begin

text \<open>
  The page allocator (\<^verbatim>\<open>threads/palloc.c\<close>): two pools of pages, each a bitmap of the pages in use and the
  address of its first page. Addresses are those of \<^verbatim>\<open>threads/vaddr.h\<close> as numbers below \<open>2 ^ 32\<close>. The
  lock of a pool is held only around the search of the bitmap; the model is that of one thread at a
  time. The set of used pages of both pools is what the allocator refines.
\<close>

section \<open>Addresses\<close>

definition PGSIZE :: nat where
  "PGSIZE = 4096"

definition PHYS_BASE :: addr where
  "PHYS_BASE = 3221225472"

definition pg_ofs :: "addr \<Rightarrow> nat" where
  "pg_ofs va = va mod PGSIZE"

definition pg_no :: "addr \<Rightarrow> nat" where
  "pg_no va = va div PGSIZE"

definition pg_round_up :: "addr \<Rightarrow> addr" where
  "pg_round_up va = size_add va (PGSIZE - 1) div PGSIZE * PGSIZE"

definition pg_round_down :: "addr \<Rightarrow> addr" where
  "pg_round_down va = va div PGSIZE * PGSIZE"

definition is_user_vaddr :: "addr \<Rightarrow> bool" where
  "is_user_vaddr vaddr \<longleftrightarrow> vaddr < PHYS_BASE"

definition is_kernel_vaddr :: "addr \<Rightarrow> bool" where
  "is_kernel_vaddr vaddr \<longleftrightarrow> vaddr \<ge> PHYS_BASE"

definition ptov :: "addr \<Rightarrow> addr option" where
  "ptov paddr = do { ASSERT (paddr < PHYS_BASE); Some (size_add paddr PHYS_BASE) }"

definition vtop :: "addr \<Rightarrow> addr option" where
  "vtop vaddr = do { ASSERT (is_kernel_vaddr vaddr); Some (vaddr - PHYS_BASE) }"

section \<open>Pools\<close>

datatype palloc_flags = PAL_ASSERT | PAL_ZERO | PAL_USER

record pool =
  used_map :: bitmap
  pool_base :: addr

record palloc =
  kernel_pool :: pool
  user_pool :: pool
  ram :: memory

text \<open>\<open>ws\<close> are the words that are at the place of the bitmap beforehand.\<close>

definition init_pool :: "addr \<Rightarrow> nat \<Rightarrow> u32 list \<Rightarrow> pool option" where
  "init_pool base page_cnt ws = do {
     let bm_pages = DIV_ROUND_UP (bitmap_buf_size page_cnt) PGSIZE;
     ASSERT (bm_pages \<le> page_cnt);
     let page_cnt = page_cnt - bm_pages;
     b \<leftarrow> bitmap_create_in_buf page_cnt ws (bm_pages * PGSIZE);
     Some \<lparr>used_map = b, pool_base = base + bm_pages * PGSIZE\<rparr> }"

definition palloc_init :: "nat \<Rightarrow> nat \<Rightarrow> u32 list \<Rightarrow> u32 list \<Rightarrow> memory \<Rightarrow> palloc option" where
  "palloc_init init_ram_pages user_page_limit ws ws' m = do {
     free_start \<leftarrow> ptov (1024 * 1024);
     free_end \<leftarrow> ptov (init_ram_pages * PGSIZE);
     let free_pages = (free_end - free_start) div PGSIZE;
     let user_pages = free_pages div 2;
     let user_pages = (if user_pages > user_page_limit then user_page_limit else user_pages);
     let kernel_pages = free_pages - user_pages;
     k \<leftarrow> init_pool free_start kernel_pages ws;
     u \<leftarrow> init_pool (free_start + kernel_pages * PGSIZE) user_pages ws';
     Some \<lparr>kernel_pool = k, user_pool = u, ram = m\<rparr> }"

definition page_from_pool :: "pool \<Rightarrow> addr \<Rightarrow> bool" where
  "page_from_pool p page \<longleftrightarrow>
     pg_no page \<ge> pg_no (pool_base p) \<and> pg_no page < pg_no (pool_base p) + bitmap_size (used_map p)"

definition palloc_get_multiple :: "palloc_flags set \<Rightarrow> nat \<Rightarrow> palloc \<Rightarrow> (addr \<times> palloc) option" where
  "palloc_get_multiple flags page_cnt s =
     (if page_cnt = 0 then Some (NULL, s)
      else do {
        let p = (if PAL_USER \<in> flags then user_pool s else kernel_pool s);
        (page_idx, b) \<leftarrow> bitmap_scan_and_flip (used_map p) 0 page_cnt False;
        let p = p\<lparr>used_map := b\<rparr>;
        let s = (if PAL_USER \<in> flags then s\<lparr>user_pool := p\<rparr> else s\<lparr>kernel_pool := p\<rparr>);
        let pages = (if page_idx \<noteq> BITMAP_ERROR then pool_base p + PGSIZE * page_idx else NULL);
        if pages \<noteq> NULL then
          if PAL_ZERO \<in> flags then do {
            (_, m) \<leftarrow> memset (ram s) pages 0 (PGSIZE * page_cnt);
            Some (pages, s\<lparr>ram := m\<rparr>) }
          else Some (pages, s)
        else if PAL_ASSERT \<in> flags then PANIC
        else Some (NULL, s) })"

definition palloc_get_page :: "palloc_flags set \<Rightarrow> palloc \<Rightarrow> (addr \<times> palloc) option" where
  "palloc_get_page flags s = palloc_get_multiple flags 1 s"

definition palloc_free_multiple :: "addr \<Rightarrow> nat \<Rightarrow> palloc \<Rightarrow> palloc option" where
  "palloc_free_multiple pages page_cnt s = do {
     ASSERT (pg_ofs pages = 0);
     if pages = NULL \<or> page_cnt = 0 then Some s
     else do {
       ASSERT (page_from_pool (kernel_pool s) pages \<or> page_from_pool (user_pool s) pages);
       let in_kernel = page_from_pool (kernel_pool s) pages;
       let p = (if in_kernel then kernel_pool s else user_pool s);
       let page_idx = pg_no pages - pg_no (pool_base p);
       (_, m) \<leftarrow> memset (ram s) pages 204 (PGSIZE * page_cnt);
       a \<leftarrow> bitmap_all (used_map p) page_idx page_cnt;
       ASSERT a;
       b \<leftarrow> bitmap_set_multiple (used_map p) page_idx page_cnt False;
       let p = p\<lparr>used_map := b\<rparr>;
       Some (if in_kernel then s\<lparr>kernel_pool := p, ram := m\<rparr> else s\<lparr>user_pool := p, ram := m\<rparr>) } }"

definition palloc_free_page :: "addr \<Rightarrow> palloc \<Rightarrow> palloc option" where
  "palloc_free_page page s = palloc_free_multiple page 1 s"

section \<open>Used pages\<close>

text \<open>The numbers of the pages of a pool and of those in use.\<close>

definition pool_pages :: "pool \<Rightarrow> nat set" where
  "pool_pages p = {pg_no (pool_base p)..<pg_no (pool_base p) + bit_cnt (used_map p)}"

definition pool_used :: "pool \<Rightarrow> nat set" where
  "pool_used p = (\<lambda>i. pg_no (pool_base p) + i) ` bitmap_used (used_map p)"

definition pool_inv :: "pool \<Rightarrow> bool" where
  "pool_inv p \<longleftrightarrow> bitmap_inv (used_map p) \<and> pg_ofs (pool_base p) = 0 \<and> pool_base p \<noteq> NULL"

definition palloc_inv :: "palloc \<Rightarrow> bool" where
  "palloc_inv s \<longleftrightarrow> pool_inv (kernel_pool s) \<and> pool_inv (user_pool s)
     \<and> pool_pages (kernel_pool s) \<inter> pool_pages (user_pool s) = {}"

definition used_pages :: "palloc \<Rightarrow> nat set" where
  "used_pages s = pool_used (kernel_pool s) \<union> pool_used (user_pool s)"

text \<open>The page numbers of \<open>n\<close> pages at an address.\<close>

definition page_range :: "addr \<Rightarrow> nat \<Rightarrow> nat set" where
  "page_range a n = {pg_no a..<pg_no a + n}"

lemma pg_no_at: "pg_ofs a = 0 \<Longrightarrow> pg_no (a + PGSIZE * i) = pg_no a + i \<and> pg_ofs (a + PGSIZE * i) = 0"
  by (simp add: pg_no_def pg_ofs_def PGSIZE_def)

lemma pg_no_address: "pg_ofs a = 0 \<Longrightarrow> a = PGSIZE * pg_no a"
  unfolding pg_ofs_def pg_no_def by (metis add.right_neutral mult_div_mod_eq)

lemma pool_used_sub: "pool_used p \<subseteq> pool_pages p"
  by (auto simp: pool_used_def pool_pages_def bitmap_used_def)

text \<open>Allocation of a group from one pool.\<close>

lemma pool_alloc:
  assumes inv: "pool_inv p" and r: "bitmap_scan_and_flip (used_map p) 0 n False = Some (i, b)" and i: "i \<noteq> BITMAP_ERROR"
  shows "pool_inv (p\<lparr>used_map := b\<rparr>)" "pool_pages (p\<lparr>used_map := b\<rparr>) = pool_pages p"
    "page_range (pool_base p + PGSIZE * i) n \<subseteq> pool_pages p" "page_range (pool_base p + PGSIZE * i) n \<inter> pool_used p = {}"
    "pool_used (p\<lparr>used_map := b\<rparr>) = pool_used p \<union> page_range (pool_base p + PGSIZE * i) n"
    "pg_ofs (pool_base p + PGSIZE * i) = 0"
proof -
  have b: "bitmap_inv (used_map p)" and a: "pg_ofs (pool_base p) = 0" using inv by (auto simp: pool_inv_def)
  note s = bm.alloc_Some [OF b r i]
  have n: "pg_no (pool_base p + PGSIZE * i) = pg_no (pool_base p) + i" using pg_no_at [OF a] by simp
  have img: "(\<lambda>j. pg_no (pool_base p) + j) ` {i..<i + n} = page_range (pool_base p + PGSIZE * i) n"
    by (simp add: page_range_def n ac_simps)
  show "pool_inv (p\<lparr>used_map := b\<rparr>)" "pool_pages (p\<lparr>used_map := b\<rparr>) = pool_pages p"
    using inv s by (auto simp: pool_inv_def pool_pages_def)
  show "page_range (pool_base p + PGSIZE * i) n \<subseteq> pool_pages p" using s(3) by (auto simp: page_range_def pool_pages_def n)
  show "page_range (pool_base p + PGSIZE * i) n \<inter> pool_used p = {}"
    using s(4) unfolding img [symmetric] pool_used_def by (auto simp: image_Int [symmetric])
  show "pool_used (p\<lparr>used_map := b\<rparr>) = pool_used p \<union> page_range (pool_base p + PGSIZE * i) n"
    unfolding img [symmetric] pool_used_def by (simp add: s(5) image_Un del: image_add_atLeastLessThan')
  show "pg_ofs (pool_base p + PGSIZE * i) = 0" using pg_no_at [OF a] by simp
qed

lemma pool_alloc_fails:
  assumes "pool_inv p" and "bitmap_scan_and_flip (used_map p) 0 n False = Some (BITMAP_ERROR, b)"
  shows "b = used_map p"
proof -
  have inv: "bitmap_inv (used_map p)" using assms(1) by (simp add: pool_inv_def)
  show ?thesis using bm.alloc [OF inv, of n] bm.error_beyond [OF inv] assms(2) by (auto split: if_splits)
qed

text \<open>Giving back a group of used pages.\<close>

lemma pool_release:
  assumes inv: "pool_inv p" and a: "pg_ofs a = 0" and sub: "page_range a n \<subseteq> pool_used p" and n: "n \<noteq> 0"
  shows "page_from_pool p a"
    "\<exists>b. bitmap_all (used_map p) (pg_no a - pg_no (pool_base p)) n = Some True
      \<and> bitmap_set_multiple (used_map p) (pg_no a - pg_no (pool_base p)) n False = Some b
      \<and> pool_inv (p\<lparr>used_map := b\<rparr>) \<and> pool_pages (p\<lparr>used_map := b\<rparr>) = pool_pages p
      \<and> pool_used (p\<lparr>used_map := b\<rparr>) = pool_used p - page_range a n"
proof -
  let ?k = "pg_no (pool_base p)" and ?i = "pg_no a - pg_no (pool_base p)"
  have b: "bitmap_inv (used_map p)" using inv by (simp add: pool_inv_def)
  have in_p: "page_range a n \<subseteq> pool_pages p" using sub pool_used_sub by blast
  have "pg_no a \<in> page_range a n" "pg_no a + n - 1 \<in> page_range a n" using n by (auto simp: page_range_def)
  then have m: "pg_no a \<in> pool_pages p" "pg_no a + n - 1 \<in> pool_pages p" using in_p by auto
  then show "page_from_pool p a" by (simp add: page_from_pool_def pool_pages_def bitmap_size_def)
  have k: "?k \<le> pg_no a" "?i + n \<le> bit_cnt (used_map p)" using m n by (auto simp: pool_pages_def)
  have img: "(\<lambda>j. ?k + j) ` {?i..<?i + n} = page_range a n"
    using k(1) by (simp add: page_range_def)
  have "{?i..<?i + n} \<subseteq> bitmap_used (used_map p)"
  proof
    fix x
    assume "x \<in> {?i..<?i + n}"
    then have "?k + x \<in> page_range a n" using img by blast
    then show "x \<in> bitmap_used (used_map p)" using sub by (auto simp: pool_used_def)
  qed
  then obtain b' where b': "bitmap_release (used_map p) ?i n = Some b'" "bitmap_inv b'" "bit_cnt b' = bit_cnt (used_map p)"
    "bitmap_used b' = bitmap_used (used_map p) - {?i..<?i + n}"
    using bm.release [OF b k(2)] by auto
  have "pool_used (p\<lparr>used_map := b'\<rparr>) = pool_used p - page_range a n"
    unfolding img [symmetric] pool_used_def
    by (simp add: b'(4) image_set_diff del: image_add_atLeastLessThan')
  then show "\<exists>b. bitmap_all (used_map p) ?i n = Some True \<and> bitmap_set_multiple (used_map p) ?i n False = Some b
      \<and> pool_inv (p\<lparr>used_map := b\<rparr>) \<and> pool_pages (p\<lparr>used_map := b\<rparr>) = pool_pages p
      \<and> pool_used (p\<lparr>used_map := b\<rparr>) = pool_used p - page_range a n"
    using b' inv by (auto simp: bitmap_release_def pool_inv_def pool_pages_def split: bind_splits)
qed

section \<open>Both pools\<close>

lemma palloc_get_multiple_spec:
  assumes inv: "palloc_inv s" and n: "n \<noteq> 0" and fl: "PAL_ASSERT \<notin> flags"
  shows "\<exists>a s'. palloc_get_multiple flags n s = Some (a, s') \<and> palloc_inv s'
    \<and> (if a = NULL then s' = s
       else pg_ofs a = 0 \<and> page_range a n \<inter> used_pages s = {} \<and> used_pages s' = used_pages s \<union> page_range a n
         \<and> page_range a n \<subseteq> pool_pages (if PAL_USER \<in> flags then user_pool s else kernel_pool s)
         \<and> pool_used (if PAL_USER \<in> flags then user_pool s' else kernel_pool s')
             = pool_used (if PAL_USER \<in> flags then user_pool s else kernel_pool s) \<union> page_range a n
         \<and> ram s' = (if PAL_ZERO \<in> flags then (\<lambda>x. if a \<le> x \<and> x < a + PGSIZE * n then 0 else ram s x) else ram s))"
proof -
  define p where "p = (if PAL_USER \<in> flags then user_pool s else kernel_pool s)"
  define q where "q = (if PAL_USER \<in> flags then kernel_pool s else user_pool s)"
  define put where "put = (\<lambda>p. if PAL_USER \<in> flags then s\<lparr>user_pool := p\<rparr> else s\<lparr>kernel_pool := p\<rparr>)"
  have pi: "pool_inv p" and qi: "pool_inv q" and dis: "pool_pages p \<inter> pool_pages q = {}"
    using inv by (auto simp: p_def q_def palloc_inv_def)
  have used: "used_pages s = pool_used p \<union> pool_used q" by (auto simp: used_pages_def p_def q_def)
  have put_inv: "palloc_inv (put p')" if "pool_inv p'" "pool_pages p' = pool_pages p" for p'
    using that inv by (auto simp: palloc_inv_def put_def p_def)
  have put_used: "used_pages (put p') = pool_used p' \<union> pool_used q" for p'
    by (auto simp: used_pages_def put_def q_def)
  have put_same: "put p = s" by (simp add: put_def p_def)
  obtain i b where b: "bitmap_scan_and_flip (used_map p) 0 n False = Some (i, b)"
    using bm.alloc [of "used_map p" n] pi by (auto simp: pool_inv_def)
  let ?a = "pool_base p + PGSIZE * i"
  let ?s = "put (p\<lparr>used_map := b\<rparr>)"
  show ?thesis
  proof (cases "i = BITMAP_ERROR")
    case True
    then have "b = used_map p" using pool_alloc_fails [OF pi] b by simp
    then have "p\<lparr>used_map := b\<rparr> = p" by simp
    then have "palloc_get_multiple flags n s = Some (NULL, s)"
      using b n fl True put_same by (simp add: palloc_get_multiple_def p_def [symmetric] put_def split: if_splits)
    then show ?thesis using inv by simp
  next
    case False
    note al = pool_alloc [OF pi b False]
    have ne: "?a \<noteq> NULL" using pi by (simp add: pool_inv_def)
    have fresh: "page_range ?a n \<inter> used_pages s = {}"
      using al(3,4) dis pool_used_sub [of q] by (auto simp: used)
    have "palloc_get_multiple flags n s = Some (?a, if PAL_ZERO \<in> flags
        then ?s\<lparr>ram := \<lambda>x. if ?a \<le> x \<and> x < ?a + PGSIZE * n then 0 else ram s x\<rparr> else ?s)"
      using b n ne False
      by (auto simp: palloc_get_multiple_def p_def [symmetric] put_def memset_def memset_loop_eq Let_def cong: if_cong)
    moreover have "palloc_inv ?s" using put_inv [OF al(1,2)] .
    moreover have "used_pages ?s = used_pages s \<union> page_range ?a n" using put_used al(5) used by auto
    ultimately show ?thesis using ne al(3,5,6) fresh
      by (auto simp: palloc_inv_def used_pages_def p_def [symmetric] put_def)
  qed
qed

lemma palloc_get_kernel:
  assumes "palloc_inv s" and "n \<noteq> 0"
  obtains a s' where "palloc_get_multiple {} n s = Some (a, s')" "palloc_inv s'" "a = NULL \<Longrightarrow> s' = s"
    "a \<noteq> NULL \<Longrightarrow> pg_ofs a = 0" "a \<noteq> NULL \<Longrightarrow> page_range a n \<inter> used_pages s = {}"
    "a \<noteq> NULL \<Longrightarrow> pool_used (kernel_pool s') = pool_used (kernel_pool s) \<union> page_range a n"
proof -
  obtain a s' where r: "palloc_get_multiple {} n s = Some (a, s')" "palloc_inv s'" "if a = NULL then s' = s
       else pg_ofs a = 0 \<and> page_range a n \<inter> used_pages s = {} \<and> used_pages s' = used_pages s \<union> page_range a n
         \<and> page_range a n \<subseteq> pool_pages (if PAL_USER \<in> {} then user_pool s else kernel_pool s)
         \<and> pool_used (if PAL_USER \<in> {} then user_pool s' else kernel_pool s')
             = pool_used (if PAL_USER \<in> {} then user_pool s else kernel_pool s) \<union> page_range a n
         \<and> ram s' = (if PAL_ZERO \<in> {} then (\<lambda>x. if a \<le> x \<and> x < a + PGSIZE * n then 0 else ram s x) else ram s)"
    using palloc_get_multiple_spec [OF assms, of "{}"] by blast
  show ?thesis by (rule that [OF r(1,2)]) (use r(3) in simp_all)
qed

lemma palloc_get_succeeds:
  assumes inv: "palloc_inv s" and n: "n \<noteq> 0" and room: "j + n \<le> bit_cnt (used_map (kernel_pool s))"
    "{j..<j + n} \<inter> bitmap_used (used_map (kernel_pool s)) = {}" and r: "palloc_get_multiple {} n s = Some (a, s')"
  shows "a \<noteq> NULL"
proof -
  have b: "bitmap_inv (used_map (kernel_pool s))" "pool_base (kernel_pool s) \<noteq> NULL" using inv by (auto simp: palloc_inv_def pool_inv_def)
  obtain i m where im: "bitmap_scan_and_flip (used_map (kernel_pool s)) 0 n False = Some (i, m)"
    using bm.alloc [OF b(1), of n] by blast
  then have "i \<noteq> BITMAP_ERROR" using bm.alloc_fails_iff [OF b(1) im] room by blast
  then show ?thesis using r n im b(2) by (simp add: palloc_get_multiple_def Let_def)
qed

lemma palloc_free_pools:
  assumes inv: "palloc_inv s" and a: "pg_ofs a = 0" "a \<noteq> NULL" and n: "n \<noteq> 0"
    and sub: "page_range a n \<subseteq> pool_used (kernel_pool s) \<or> page_range a n \<subseteq> pool_used (user_pool s)"
  shows "\<exists>s'. palloc_free_multiple a n s = Some s' \<and> palloc_inv s'
    \<and> pool_used (kernel_pool s') = pool_used (kernel_pool s) - page_range a n
    \<and> pool_used (user_pool s') = pool_used (user_pool s) - page_range a n
    \<and> pool_pages (kernel_pool s') = pool_pages (kernel_pool s) \<and> pool_pages (user_pool s') = pool_pages (user_pool s)
    \<and> ram s' = (\<lambda>x. if a \<le> x \<and> x < a + PGSIZE * n then 204 else ram s x)"
proof -
  have inv': "pool_inv (kernel_pool s)" "pool_inv (user_pool s)" "pool_pages (kernel_pool s) \<inter> pool_pages (user_pool s) = {}"
    using inv by (auto simp: palloc_inv_def)
  have kfrom: "page_from_pool (kernel_pool s) a \<longleftrightarrow> page_range a n \<subseteq> pool_used (kernel_pool s)"
  proof
    assume "page_from_pool (kernel_pool s) a"
    then have "pg_no a \<in> pool_pages (kernel_pool s)" by (simp add: page_from_pool_def pool_pages_def bitmap_size_def)
    moreover have "pg_no a \<in> page_range a n" using n by (simp add: page_range_def)
    ultimately show "page_range a n \<subseteq> pool_used (kernel_pool s)"
      using sub inv'(3) pool_used_sub [of "user_pool s"] by blast
  qed (use pool_release(1) [OF inv'(1) a(1) _ n] in blast)
  show ?thesis
  proof (cases "page_range a n \<subseteq> pool_used (kernel_pool s)")
    case True
    obtain b where b: "bitmap_all (used_map (kernel_pool s)) (pg_no a - pg_no (pool_base (kernel_pool s))) n = Some True"
      "bitmap_set_multiple (used_map (kernel_pool s)) (pg_no a - pg_no (pool_base (kernel_pool s))) n False = Some b"
      "pool_inv (kernel_pool s\<lparr>used_map := b\<rparr>)" "pool_pages (kernel_pool s\<lparr>used_map := b\<rparr>) = pool_pages (kernel_pool s)"
      "pool_used (kernel_pool s\<lparr>used_map := b\<rparr>) = pool_used (kernel_pool s) - page_range a n"
      using pool_release(2) [OF inv'(1) a(1) True n] by blast
    have "page_range a n \<inter> pool_used (user_pool s) = {}"
      using True inv'(3) pool_used_sub [of "user_pool s"] pool_used_sub [of "kernel_pool s"] by blast
    then show ?thesis using b a n kfrom True inv'
      by (auto simp: palloc_free_multiple_def memset_def memset_loop_eq palloc_inv_def Let_def)
  next
    case False
    then have u: "page_range a n \<subseteq> pool_used (user_pool s)" using sub by blast
    obtain b where b: "bitmap_all (used_map (user_pool s)) (pg_no a - pg_no (pool_base (user_pool s))) n = Some True"
      "bitmap_set_multiple (used_map (user_pool s)) (pg_no a - pg_no (pool_base (user_pool s))) n False = Some b"
      "pool_inv (user_pool s\<lparr>used_map := b\<rparr>)" "pool_pages (user_pool s\<lparr>used_map := b\<rparr>) = pool_pages (user_pool s)"
      "pool_used (user_pool s\<lparr>used_map := b\<rparr>) = pool_used (user_pool s) - page_range a n"
      using pool_release(2) [OF inv'(2) a(1) u n] by blast
    have "page_range a n \<inter> pool_used (kernel_pool s) = {}"
      using u inv'(3) pool_used_sub [of "user_pool s"] pool_used_sub [of "kernel_pool s"] by blast
    then show ?thesis using b a n kfrom False inv' pool_release(1) [OF inv'(2) a(1) u n]
      by (auto simp: palloc_free_multiple_def memset_def memset_loop_eq palloc_inv_def Let_def)
  qed
qed

lemma palloc_free_multiple_spec:
  assumes "palloc_inv s" and "pg_ofs a = 0" "a \<noteq> NULL" and "n \<noteq> 0"
    and "page_range a n \<subseteq> pool_used (kernel_pool s) \<or> page_range a n \<subseteq> pool_used (user_pool s)"
  shows "\<exists>s'. palloc_free_multiple a n s = Some s' \<and> palloc_inv s' \<and> used_pages s' = used_pages s - page_range a n
    \<and> pool_used (kernel_pool s') = pool_used (kernel_pool s) - page_range a n
    \<and> ram s' = (\<lambda>x. if a \<le> x \<and> x < a + PGSIZE * n then 204 else ram s x)"
  using palloc_free_pools [OF assms] by (auto simp: used_pages_def)

section \<open>Properties\<close>

text \<open>
  C34: the page allocator hands out pages that nobody has. A request for pages without
  \<^verbatim>\<open>PAL_ASSERT\<close> always returns: a null pointer with nothing changed, or a page-aligned group of pages
  of the right pool, none of which was in use, filled with zeros if asked for; giving the group back
  then succeeds and leaves exactly the pages in use that were in use before.
\<close>

theorem palloc_get_then_free:
  assumes "palloc_inv s" and "n \<noteq> 0" and "PAL_ASSERT \<notin> flags"
  shows "\<exists>a s'. palloc_get_multiple flags n s = Some (a, s') \<and> palloc_inv s'
    \<and> (a = NULL \<longrightarrow> s' = s)
    \<and> (a \<noteq> NULL \<longrightarrow> pg_ofs a = 0 \<and> page_range a n \<inter> used_pages s = {} \<and> used_pages s' = used_pages s \<union> page_range a n
        \<and> page_range a n \<subseteq> pool_pages (if PAL_USER \<in> flags then user_pool s else kernel_pool s)
        \<and> (PAL_ZERO \<in> flags \<longrightarrow> (\<forall>x. a \<le> x \<and> x < a + PGSIZE * n \<longrightarrow> ram s' x = 0))
        \<and> (\<exists>s''. palloc_free_multiple a n s' = Some s'' \<and> palloc_inv s'' \<and> used_pages s'' = used_pages s))"
proof -
  obtain a s' where r: "palloc_get_multiple flags n s = Some (a, s')" "palloc_inv s'" "if a = NULL then s' = s
       else pg_ofs a = 0 \<and> page_range a n \<inter> used_pages s = {} \<and> used_pages s' = used_pages s \<union> page_range a n
         \<and> page_range a n \<subseteq> pool_pages (if PAL_USER \<in> flags then user_pool s else kernel_pool s)
         \<and> pool_used (if PAL_USER \<in> flags then user_pool s' else kernel_pool s')
             = pool_used (if PAL_USER \<in> flags then user_pool s else kernel_pool s) \<union> page_range a n
         \<and> ram s' = (if PAL_ZERO \<in> flags then (\<lambda>x. if a \<le> x \<and> x < a + PGSIZE * n then 0 else ram s x) else ram s)"
    using palloc_get_multiple_spec [OF assms] by blast
  show ?thesis
  proof (cases "a = NULL")
    case True
    then show ?thesis using r by auto
  next
    case False
    then have a: "pg_ofs a = 0" "page_range a n \<inter> used_pages s = {}" "used_pages s' = used_pages s \<union> page_range a n"
      "page_range a n \<subseteq> pool_pages (if PAL_USER \<in> flags then user_pool s else kernel_pool s)"
      "page_range a n \<subseteq> pool_used (if PAL_USER \<in> flags then user_pool s' else kernel_pool s')"
      "ram s' = (if PAL_ZERO \<in> flags then (\<lambda>x. if a \<le> x \<and> x < a + PGSIZE * n then 0 else ram s x) else ram s)"
      using r(3) by auto
    have "page_range a n \<subseteq> pool_used (kernel_pool s') \<or> page_range a n \<subseteq> pool_used (user_pool s')"
      using a(5) by (simp split: if_splits)
    from palloc_free_multiple_spec [OF r(2) a(1) False assms(2) this] a r(1,2) False show ?thesis by auto
  qed
qed

definition demo_palloc :: palloc where
  "demo_palloc = \<lparr>kernel_pool = \<lparr>used_map = \<lparr>bit_cnt = 32, bits = [1]\<rparr>, pool_base = 3222278144\<rparr>,
     user_pool = \<lparr>used_map = \<lparr>bit_cnt = 8, bits = [0]\<rparr>, pool_base = 3223326720\<rparr>, ram = (\<lambda>_. 7)\<rparr>"

lemma demo_palloc_inv: "palloc_inv demo_palloc"
  by (simp add: palloc_inv_def pool_inv_def demo_palloc_def bitmap_inv_def elem_cnt_def DIV_ROUND_UP_def ELEM_BITS_def
      pg_ofs_def pg_no_def PGSIZE_def pool_pages_def)

theorem palloc_get_then_free_witness:
  "\<exists>a s'. palloc_get_multiple {PAL_ZERO} 3 demo_palloc = Some (a, s') \<and> palloc_inv s'"
  using palloc_get_then_free [OF demo_palloc_inv, of 3 "{PAL_ZERO}"] by auto

end
