(* ===== verification/Malloc.thy ===== *)
theory Malloc
  imports Palloc
begin

text \<open>
  The dynamic allocator (\<^verbatim>\<open>threads/malloc.c\<close>): descriptors for blocks of 16 to 1024 bytes, each with a
  list of free blocks, arenas of one page that are divided into blocks of one descriptor, and
  arenas of several pages that hold one big block. The header of an arena is at the start of its page:
  \<open>arenas\<close> maps the address of a page to the header, if its magic number is there; freeing a page
  overwrites it. A free list is the sequence of its blocks. The model is that of one thread at a time.
\<close>

section \<open>Data\<close>

record desc =
  blk_size :: nat
  blocks_per_arena :: nat
  free_list :: "addr list"

record arena =
  arena_desc :: "nat option"
  free_cnt :: nat

record heap =
  pages :: palloc
  arenas :: "addr \<rightharpoonup> arena"
  descs :: "desc list"

text \<open>\<^verbatim>\<open>sizeof (struct arena)\<close>.\<close>

definition ARENA_SIZE :: nat where
  "ARENA_SIZE = 12"

partial_function (option) malloc_init_loop :: "nat \<Rightarrow> desc list \<Rightarrow> desc list option" where
  "malloc_init_loop bs ds =
     (if bs < PGSIZE div 2 then do {
        ASSERT (length ds + 1 \<le> 10);
        malloc_init_loop (bs * 2)
          (ds @ [\<lparr>blk_size = bs, blocks_per_arena = (PGSIZE - ARENA_SIZE) div bs, free_list = []\<rparr>]) }
      else Some ds)"

definition malloc_init :: "palloc \<Rightarrow> heap option" where
  "malloc_init pg = do {
     ds \<leftarrow> malloc_init_loop 16 [];
     Some \<lparr>pages = pg, arenas = Map.empty, descs = ds\<rparr> }"

section \<open>Blocks and arenas\<close>

definition upd_desc :: "heap \<Rightarrow> nat \<Rightarrow> (addr list \<Rightarrow> addr list) \<Rightarrow> heap" where
  "upd_desc h d f = h\<lparr>descs := (descs h)[d := (descs h ! d)\<lparr>free_list := f (free_list (descs h ! d))\<rparr>]\<rparr>"

definition block_to_arena :: "heap \<Rightarrow> addr \<Rightarrow> (addr \<times> arena) option" where
  "block_to_arena h b = do {
     let a = pg_round_down b;
     ASSERT (a \<noteq> NULL);
     ar \<leftarrow> arenas h a;
     ASSERT (case arena_desc ar of None \<Rightarrow> True
       | Some d \<Rightarrow> (pg_ofs b + 4294967296 - ARENA_SIZE) mod 4294967296 mod blk_size (descs h ! d) = 0);
     ASSERT (arena_desc ar \<noteq> None \<or> pg_ofs b = ARENA_SIZE);
     Some (a, ar) }"

definition arena_to_block :: "heap \<Rightarrow> addr \<Rightarrow> nat \<Rightarrow> addr option" where
  "arena_to_block h a idx = do {
     ASSERT (a \<noteq> NULL);
     ar \<leftarrow> arenas h a;
     d \<leftarrow> arena_desc ar;
     ASSERT (idx < blocks_per_arena (descs h ! d));
     Some (a + ARENA_SIZE + idx * blk_size (descs h ! d)) }"

fun find_desc :: "desc list \<Rightarrow> nat \<Rightarrow> nat \<Rightarrow> nat" where
  "find_desc [] sz d = d"
| "find_desc (x # xs) sz d = (if blk_size x \<ge> sz then d else find_desc xs sz (d + 1))"

text \<open>The loops over the blocks \<open>i, i + 1, \<dots>\<close> of a new arena and of one that is given back.\<close>

primrec add_blocks :: "nat \<Rightarrow> heap \<Rightarrow> addr \<Rightarrow> nat \<Rightarrow> nat \<Rightarrow> heap option" where
  "add_blocks 0 h a d i = Some h"
| "add_blocks (Suc n) h a d i = do {
     b \<leftarrow> arena_to_block h a i;
     add_blocks n (upd_desc h d (\<lambda>l. l @ [b])) a d (i + 1) }"

primrec remove_blocks :: "nat \<Rightarrow> heap \<Rightarrow> addr \<Rightarrow> nat \<Rightarrow> nat \<Rightarrow> heap option" where
  "remove_blocks 0 h a d i = Some h"
| "remove_blocks (Suc n) h a d i = do {
     b \<leftarrow> arena_to_block h a i;
     remove_blocks n (upd_desc h d (remove1 b)) a d (i + 1) }"

section \<open>Operations\<close>

definition new_arena :: "heap \<Rightarrow> nat \<Rightarrow> (bool \<times> heap) option" where
  "new_arena h d = do {
     (a, pg) \<leftarrow> palloc_get_page {} (pages h);
     let h = h\<lparr>pages := pg\<rparr>;
     if a = NULL then Some (False, h)
     else do {
       let n = blocks_per_arena (descs h ! d);
       h \<leftarrow> add_blocks n (h\<lparr>arenas := (arenas h)(a \<mapsto> \<lparr>arena_desc = Some d, free_cnt = n\<rparr>)\<rparr>) a d 0;
       Some (True, h) } }"

definition take_block :: "heap \<Rightarrow> nat \<Rightarrow> (addr \<times> heap) option" where
  "take_block h d = (case free_list (descs h ! d) of
       [] \<Rightarrow> PANIC
     | b # rest \<Rightarrow> do {
         let h = upd_desc h d (\<lambda>_. rest);
         (a, ar) \<leftarrow> block_to_arena h b;
         Some (b, h\<lparr>arenas := (arenas h)(a \<mapsto> ar\<lparr>free_cnt := free_cnt ar - 1\<rparr>)\<rparr>) })"

definition malloc :: "heap \<Rightarrow> nat \<Rightarrow> (addr \<times> heap) option" where
  "malloc h sz =
     (if sz = 0 then Some (NULL, h)
      else
        let d = find_desc (descs h) sz 0 in
        if d = length (descs h) then do {
          let page_cnt = DIV_ROUND_UP (size_add sz ARENA_SIZE) PGSIZE;
          (a, pg) \<leftarrow> palloc_get_multiple {} page_cnt (pages h);
          let h = h\<lparr>pages := pg\<rparr>;
          if a = NULL then Some (NULL, h)
          else Some (a + ARENA_SIZE, h\<lparr>arenas := (arenas h)(a \<mapsto> \<lparr>arena_desc = None, free_cnt = page_cnt\<rparr>)\<rparr>) }
        else do {
          (ok, h) \<leftarrow> (if free_list (descs h ! d) = [] then new_arena h d else Some (True, h));
          if ok then take_block h d else Some (NULL, h) })"

definition calloc :: "heap \<Rightarrow> nat \<Rightarrow> nat \<Rightarrow> (addr \<times> heap) option" where
  "calloc h a b = do {
     let sz = a * b mod 4294967296;
     if sz < a \<or> sz < b then Some (NULL, h)
     else do {
       (p, h) \<leftarrow> malloc h sz;
       if p \<noteq> NULL then do {
         (_, m) \<leftarrow> memset (ram (pages h)) p 0 sz;
         Some (p, h\<lparr>pages := pages h\<lparr>ram := m\<rparr>\<rparr>) }
       else Some (NULL, h) } }"

definition block_size :: "heap \<Rightarrow> addr \<Rightarrow> nat option" where
  "block_size h block = do {
     (a, ar) \<leftarrow> block_to_arena h block;
     Some (case arena_desc ar of
         Some d \<Rightarrow> blk_size (descs h ! d)
       | None \<Rightarrow> PGSIZE * free_cnt ar - pg_ofs block) }"

definition give_back_arena :: "heap \<Rightarrow> addr \<Rightarrow> nat \<Rightarrow> heap option" where
  "give_back_arena h a d = do {
     h \<leftarrow> remove_blocks (blocks_per_arena (descs h ! d)) h a d 0;
     pg \<leftarrow> palloc_free_page a (pages h);
     Some (h\<lparr>pages := pg, arenas := (arenas h)(a := None)\<rparr>) }"

definition free :: "heap \<Rightarrow> addr \<Rightarrow> heap option" where
  "free h p =
     (if p \<noteq> NULL then do {
        (a, ar) \<leftarrow> block_to_arena h p;
        case arena_desc ar of
          Some d \<Rightarrow> do {
            (_, m) \<leftarrow> memset (ram (pages h)) p 204 (blk_size (descs h ! d));
            let h = upd_desc (h\<lparr>pages := pages h\<lparr>ram := m\<rparr>\<rparr>) d (\<lambda>l. p # l);
            let h = h\<lparr>arenas := (arenas h)(a \<mapsto> ar\<lparr>free_cnt := free_cnt ar + 1\<rparr>)\<rparr>;
            if free_cnt ar + 1 \<ge> blocks_per_arena (descs h ! d) then do {
              ASSERT (free_cnt ar + 1 = blocks_per_arena (descs h ! d));
              give_back_arena h a d }
            else Some h }
        | None \<Rightarrow> do {
            pg \<leftarrow> palloc_free_multiple a (free_cnt ar) (pages h);
            Some (h\<lparr>pages := pg, arenas := (arenas h)(a := None)\<rparr>) } }
      else Some h)"

definition realloc :: "heap \<Rightarrow> addr \<Rightarrow> nat \<Rightarrow> (addr \<times> heap) option" where
  "realloc h old_block new_size =
     (if new_size = 0 then do { h \<leftarrow> free h old_block; Some (NULL, h) }
      else do {
        (new_block, h) \<leftarrow> malloc h new_size;
        if old_block \<noteq> NULL \<and> new_block \<noteq> NULL then do {
          old_size \<leftarrow> block_size h old_block;
          let min_size = (if new_size < old_size then new_size else old_size);
          (_, m) \<leftarrow> memcpy (ram (pages h)) new_block old_block min_size;
          h \<leftarrow> free (h\<lparr>pages := pages h\<lparr>ram := m\<rparr>\<rparr>) old_block;
          Some (new_block, h) }
        else Some (new_block, h) })"

section \<open>Well-formed heaps\<close>

definition desc_sizes :: "(nat \<times> nat) list" where
  "desc_sizes = [(16, 255), (32, 127), (64, 63), (128, 31), (256, 15), (512, 7), (1024, 3)]"

definition arena_pages :: "arena \<Rightarrow> nat" where
  "arena_pages ar = (case arena_desc ar of None \<Rightarrow> free_cnt ar | Some d \<Rightarrow> 1)"

text \<open>The blocks that an arena at \<open>a\<close> consists of.\<close>

definition arena_blocks :: "addr \<Rightarrow> nat \<Rightarrow> addr list" where
  "arena_blocks a d = map (\<lambda>i. a + ARENA_SIZE + i * fst (desc_sizes ! d)) [0..<snd (desc_sizes ! d)]"

definition blocks_at :: "addr \<Rightarrow> arena \<Rightarrow> addr set" where
  "blocks_at a ar = (case arena_desc ar of None \<Rightarrow> {a + ARENA_SIZE} | Some d \<Rightarrow> set (arena_blocks a d))"

text \<open>The blocks that are given to the program, for arenas \<open>A\<close> and free lists \<open>F\<close>.\<close>

definition allocated_in :: "(addr \<rightharpoonup> arena) \<Rightarrow> (nat \<Rightarrow> addr list) \<Rightarrow> addr set" where
  "allocated_in A F = {b. \<exists>a ar. A a = Some ar \<and> b \<in> blocks_at a ar \<and> (\<forall>d. arena_desc ar = Some d \<longrightarrow> b \<notin> set (F d))}"

definition arena_ok :: "palloc \<Rightarrow> (nat \<Rightarrow> addr list) \<Rightarrow> addr \<Rightarrow> arena \<Rightarrow> bool" where
  "arena_ok pg F a ar \<longleftrightarrow> pg_ofs a = 0 \<and> a \<noteq> NULL \<and> arena_pages ar \<noteq> 0
     \<and> page_range a (arena_pages ar) \<subseteq> pool_used (kernel_pool pg)
     \<and> (\<forall>d. arena_desc ar = Some d \<longrightarrow> d < length desc_sizes
         \<and> free_cnt ar = length (filter (\<lambda>b. pg_round_down b = a) (F d)))"

definition list_ok :: "(addr \<rightharpoonup> arena) \<Rightarrow> nat \<Rightarrow> addr list \<Rightarrow> bool" where
  "list_ok A d l \<longleftrightarrow> distinct l
     \<and> (\<forall>b \<in> set l. \<exists>ar. A (pg_round_down b) = Some ar \<and> arena_desc ar = Some d \<and> b \<in> set (arena_blocks (pg_round_down b) d))"

definition arenas_inv :: "palloc \<Rightarrow> (addr \<rightharpoonup> arena) \<Rightarrow> (nat \<Rightarrow> addr list) \<Rightarrow> bool" where
  "arenas_inv pg A F \<longleftrightarrow> palloc_inv pg \<and> (\<forall>a ar. A a = Some ar \<longrightarrow> arena_ok pg F a ar)
     \<and> (\<forall>a ar a' ar'. A a = Some ar \<longrightarrow> A a' = Some ar' \<longrightarrow> a \<noteq> a' \<longrightarrow>
          page_range a (arena_pages ar) \<inter> page_range a' (arena_pages ar') = {})
     \<and> (\<forall>d < length desc_sizes. list_ok A d (F d))"

definition flists :: "heap \<Rightarrow> nat \<Rightarrow> addr list" where
  "flists h d = free_list (descs h ! d)"

definition table :: "heap \<Rightarrow> bool" where
  "table h \<longleftrightarrow> map (\<lambda>d. (blk_size d, blocks_per_arena d)) (descs h) = desc_sizes"

definition heap_inv :: "heap \<Rightarrow> bool" where
  "heap_inv h \<longleftrightarrow> table h \<and> arenas_inv (pages h) (arenas h) (flists h)"

definition allocated :: "heap \<Rightarrow> addr set" where
  "allocated h = allocated_in (arenas h) (flists h)"

section \<open>Geometry\<close>

lemma desc_sizes_ok:
  assumes "d < length desc_sizes"
  shows "0 < fst (desc_sizes ! d)" "0 < snd (desc_sizes ! d)" "ARENA_SIZE + snd (desc_sizes ! d) * fst (desc_sizes ! d) \<le> PGSIZE"
proof -
  have "d \<in> {0, 1, 2, 3, 4, 5, 6}" using assms by (auto simp: desc_sizes_def)
  then show "0 < fst (desc_sizes ! d)" "0 < snd (desc_sizes ! d)" "ARENA_SIZE + snd (desc_sizes ! d) * fst (desc_sizes ! d) \<le> PGSIZE"
    by (elim insertE emptyE; simp add: desc_sizes_def ARENA_SIZE_def PGSIZE_def)+
qed

lemma pg_inside:
  assumes "pg_ofs a = 0" and "x < PGSIZE"
  shows "pg_round_down (a + x) = a" "pg_ofs (a + x) = x"
proof -
  have a: "a = PGSIZE * pg_no a" using pg_no_address [OF assms(1)] .
  have "(PGSIZE * pg_no a + x) div PGSIZE = pg_no a" using assms(2) by simp
  then show "pg_round_down (a + x) = a" using a by (metis mult.commute pg_round_down_def)
  show "pg_ofs (a + x) = x" using assms unfolding pg_ofs_def by (metis add_cancel_left_left mod_add_left_eq mod_less)
qed

lemma block_inside:
  assumes "d < length desc_sizes" and "i < snd (desc_sizes ! d)"
  shows "ARENA_SIZE + i * fst (desc_sizes ! d) + fst (desc_sizes ! d) \<le> PGSIZE"
proof -
  have "(i + 1) * fst (desc_sizes ! d) \<le> snd (desc_sizes ! d) * fst (desc_sizes ! d)" using assms(2) by (intro mult_le_mono1) simp
  then show ?thesis using desc_sizes_ok(3) [OF assms(1)] by simp
qed

lemma arena_block:
  assumes "b \<in> set (arena_blocks a d)" and "d < length desc_sizes" and "pg_ofs a = 0"
  shows "pg_round_down b = a" "a + ARENA_SIZE \<le> b" "b + fst (desc_sizes ! d) \<le> a + PGSIZE"
    "(pg_ofs b + 4294967296 - ARENA_SIZE) mod 4294967296 mod fst (desc_sizes ! d) = 0"
proof -
  obtain i where i: "b = a + (ARENA_SIZE + i * fst (desc_sizes ! d))" "i < snd (desc_sizes ! d)"
    using assms(1) unfolding arena_blocks_def by (auto simp only: set_map image_iff set_upt atLeastLessThan_iff add.assoc)
  note le = block_inside [OF assms(2) i(2)]
  then have lt: "ARENA_SIZE + i * fst (desc_sizes ! d) < PGSIZE" using desc_sizes_ok(1) [OF assms(2)] by linarith
  show "pg_round_down b = a" using pg_inside(1) [OF assms(3) lt] i(1) by simp
  have "pg_ofs b = ARENA_SIZE + i * fst (desc_sizes ! d)" using pg_inside(2) [OF assms(3) lt] i(1) by simp
  moreover have "i * fst (desc_sizes ! d) < 4294967296" using lt by (simp add: PGSIZE_def)
  ultimately show "(pg_ofs b + 4294967296 - ARENA_SIZE) mod 4294967296 mod fst (desc_sizes ! d) = 0" by simp
  show "a + ARENA_SIZE \<le> b" "b + fst (desc_sizes ! d) \<le> a + PGSIZE" using i le by simp_all
qed

lemma big_block: "pg_ofs a = 0 \<Longrightarrow> pg_round_down (a + ARENA_SIZE) = a \<and> pg_ofs (a + ARENA_SIZE) = ARENA_SIZE"
  using pg_inside [of a ARENA_SIZE] by (simp add: ARENA_SIZE_def PGSIZE_def)

lemma blocks_at_page:
  "b \<in> blocks_at a ar \<Longrightarrow> arena_ok pg F a ar \<Longrightarrow> pg_round_down b = a"
  using arena_block(1) big_block by (auto simp: blocks_at_def arena_ok_def split: option.splits)

lemma distinct_arena_blocks: "d < length desc_sizes \<Longrightarrow> distinct (arena_blocks a d)"
  using desc_sizes_ok(1) [of d] by (auto simp: arena_blocks_def distinct_map inj_on_def)

lemma length_arena_blocks [simp]: "length (arena_blocks a d) = snd (desc_sizes ! d)"
  by (simp add: arena_blocks_def)

section \<open>Changes of the arenas\<close>

lemma arenas_invD:
  assumes "arenas_inv pg A F"
  shows "palloc_inv pg" "A a = Some ar \<Longrightarrow> arena_ok pg F a ar" "d < length desc_sizes \<Longrightarrow> list_ok A d (F d)"
    "A a = Some ar \<Longrightarrow> A a' = Some ar' \<Longrightarrow> a \<noteq> a' \<Longrightarrow> page_range a (arena_pages ar) \<inter> page_range a' (arena_pages ar') = {}"
  using assms by (auto simp: arenas_inv_def)

lemma arenas_invI:
  assumes "palloc_inv pg" "\<And>a ar. A a = Some ar \<Longrightarrow> arena_ok pg F a ar" "\<And>d. d < length desc_sizes \<Longrightarrow> list_ok A d (F d)"
    "\<And>a ar a' ar'. A a = Some ar \<Longrightarrow> A a' = Some ar' \<Longrightarrow> a \<noteq> a' \<Longrightarrow> page_range a (arena_pages ar) \<inter> page_range a' (arena_pages ar') = {}"
  shows "arenas_inv pg A F"
  using assms by (auto simp: arenas_inv_def)

lemma arena_okD:
  assumes "arena_ok pg F a ar"
  shows "pg_ofs a = 0" "a \<noteq> NULL" "arena_pages ar \<noteq> 0" "page_range a (arena_pages ar) \<subseteq> pool_used (kernel_pool pg)"
    "arena_desc ar = Some d \<Longrightarrow> d < length desc_sizes"
    "arena_desc ar = Some d \<Longrightarrow> free_cnt ar = length (filter (\<lambda>b. pg_round_down b = a) (F d))"
  using assms by (auto simp: arena_ok_def)

lemma arena_page_used:
  assumes "arenas_inv pg A F" and "A a = Some ar"
  shows "pg_no a \<in> page_range a (arena_pages ar)" "pg_no a \<in> pool_used (kernel_pool pg)"
  using arena_okD [OF arenas_invD(2) [OF assms]] by (auto simp: page_range_def)

lemma free_block_arena:
  assumes inv: "arenas_inv pg A F" and d: "d < length desc_sizes" and b: "b \<in> set (F d)"
  obtains ar where "A (pg_round_down b) = Some ar" "arena_desc ar = Some d" "b \<in> set (arena_blocks (pg_round_down b) d)"
  using arenas_invD(3) [OF inv d] b by (auto simp: list_ok_def)

lemma allocated_iff:
  assumes "arenas_inv pg A F"
  shows "b \<in> allocated_in A F \<longleftrightarrow> (\<exists>ar. A (pg_round_down b) = Some ar \<and> b \<in> blocks_at (pg_round_down b) ar
    \<and> (\<forall>d. arena_desc ar = Some d \<longrightarrow> b \<notin> set (F d)))"
proof
  assume "b \<in> allocated_in A F"
  then obtain a ar where "A a = Some ar" "b \<in> blocks_at a ar" "\<forall>d. arena_desc ar = Some d \<longrightarrow> b \<notin> set (F d)"
    by (auto simp: allocated_in_def)
  moreover then have "pg_round_down b = a" using blocks_at_page arenas_invD(2) [OF assms] by blast
  ultimately show "\<exists>ar. A (pg_round_down b) = Some ar \<and> b \<in> blocks_at (pg_round_down b) ar
    \<and> (\<forall>d. arena_desc ar = Some d \<longrightarrow> b \<notin> set (F d))" by blast
qed (auto simp: allocated_in_def)

text \<open>A page that was not in use holds no arena, and no free block is in it.\<close>

lemma fresh_page_no_arena:
  assumes inv: "arenas_inv pg A F" and fresh: "page_range a n \<inter> used_pages pg = {}" "n \<noteq> 0"
  shows "A a = None" "d < length desc_sizes \<Longrightarrow> b \<in> set (F d) \<Longrightarrow> pg_round_down b \<noteq> a"
proof -
  have "pg_no a \<in> page_range a n" using fresh(2) by (simp add: page_range_def)
  then have no: "pg_no a \<notin> pool_used (kernel_pool pg)" using fresh(1) by (auto simp: used_pages_def)
  then show "A a = None" using arena_page_used(2) [OF inv] by (metis not_None_eq)
  then show "pg_round_down b \<noteq> a" if "d < length desc_sizes" "b \<in> set (F d)"
    using free_block_arena [OF inv that] by force
qed

lemma disjoint_upd:
  assumes inv: "arenas_inv pg A F" and new: "\<And>c ar. A c = Some ar \<Longrightarrow> c \<noteq> a \<Longrightarrow> page_range a (arena_pages x) \<inter> page_range c (arena_pages ar) = {}"
    and c: "(A(a \<mapsto> x)) c = Some ar" "(A(a \<mapsto> x)) c' = Some ar'" "c \<noteq> c'"
  shows "page_range c (arena_pages ar) \<inter> page_range c' (arena_pages ar') = {}"
proof (cases "c = a")
  case True
  then show ?thesis using c new [of c' ar'] by simp
next
  case False
  then show ?thesis using c new [of c ar] arenas_invD(4) [OF inv, of c ar c' ar'] by (cases "c' = a") (simp_all add: Int_commute)
qed

text \<open>A new big block.\<close>

lemma add_big:
  assumes inv: "arenas_inv pg A F" and a: "pg_ofs a = 0" "a \<noteq> NULL" and n: "n \<noteq> 0" and pg': "palloc_inv pg'"
    and fresh: "page_range a n \<inter> used_pages pg = {}" and used: "pool_used (kernel_pool pg') = pool_used (kernel_pool pg) \<union> page_range a n"
  shows "arenas_inv pg' (A(a \<mapsto> \<lparr>arena_desc = None, free_cnt = n\<rparr>)) F"
    "allocated_in (A(a \<mapsto> \<lparr>arena_desc = None, free_cnt = n\<rparr>)) F = insert (a + ARENA_SIZE) (allocated_in A F)"
    "a + ARENA_SIZE \<notin> allocated_in A F"
proof -
  note no = fresh_page_no_arena [OF inv fresh n]
  have sub: "page_range c (arena_pages ar) \<subseteq> pool_used (kernel_pool pg)" if "A c = Some ar" for c ar
    using arena_okD(4) [OF arenas_invD(2) [OF inv that]] .
  have dis: "page_range a n \<inter> page_range c (arena_pages ar) = {}" if "A c = Some ar" for c ar
    using sub [OF that] fresh by (auto simp: used_pages_def)
  have p: "arena_pages \<lparr>arena_desc = None, free_cnt = n\<rparr> = n" by (simp add: arena_pages_def)
  show inv': "arenas_inv pg' (A(a \<mapsto> \<lparr>arena_desc = None, free_cnt = n\<rparr>)) F"
  proof (rule arenas_invI [OF pg'])
    show "arena_ok pg' F c ar" if "(A(a \<mapsto> \<lparr>arena_desc = None, free_cnt = n\<rparr>)) c = Some ar" for c ar
    proof (cases "c = a")
      case True
      then have "ar = \<lparr>arena_desc = None, free_cnt = n\<rparr>" using that by simp
      then show ?thesis using a n used True by (simp add: arena_ok_def arena_pages_def)
    next
      case False
      then show ?thesis using that arenas_invD(2) [OF inv, of c ar] used by (auto simp: arena_ok_def)
    qed
    show "list_ok (A(a \<mapsto> \<lparr>arena_desc = None, free_cnt = n\<rparr>)) d (F d)" if d: "d < length desc_sizes" for d
      using arenas_invD(3) [OF inv d] no(2) [OF d] by (auto simp: list_ok_def)
  qed (rule disjoint_upd [OF inv], simp_all only: p dis not_False_eq_True)
  show al: "a + ARENA_SIZE \<notin> allocated_in A F"
    using no(1) big_block [OF a(1)] by (simp add: allocated_iff [OF inv])
  show "allocated_in (A(a \<mapsto> \<lparr>arena_desc = None, free_cnt = n\<rparr>)) F = insert (a + ARENA_SIZE) (allocated_in A F)"
  proof (rule set_eqI)
    fix b
    show "b \<in> allocated_in (A(a \<mapsto> \<lparr>arena_desc = None, free_cnt = n\<rparr>)) F \<longleftrightarrow> b \<in> insert (a + ARENA_SIZE) (allocated_in A F)"
      using no(1) big_block [OF a(1)]
      by (cases "pg_round_down b = a") (auto simp: allocated_iff [OF inv] allocated_iff [OF inv'] blocks_at_def)
  qed
qed

text \<open>A new arena of small blocks, all of them free.\<close>

lemma filter_all_none: "(\<And>x. x \<in> set xs \<Longrightarrow> \<not> P x) \<Longrightarrow> length (filter P xs) = 0"
  by (induction xs) auto

lemma add_small:
  assumes inv: "arenas_inv pg A F" and a: "pg_ofs a = 0" "a \<noteq> NULL" and d: "d < length desc_sizes" and pg': "palloc_inv pg'"
    and fresh: "page_range a 1 \<inter> used_pages pg = {}" and used: "pool_used (kernel_pool pg') = pool_used (kernel_pool pg) \<union> page_range a 1"
    and empty: "F d = []"
  shows "arenas_inv pg' (A(a \<mapsto> \<lparr>arena_desc = Some d, free_cnt = snd (desc_sizes ! d)\<rparr>)) (F(d := arena_blocks a d))"
    "allocated_in (A(a \<mapsto> \<lparr>arena_desc = Some d, free_cnt = snd (desc_sizes ! d)\<rparr>)) (F(d := arena_blocks a d)) = allocated_in A F"
proof -
  let ?ar = "\<lparr>arena_desc = Some d, free_cnt = snd (desc_sizes ! d)\<rparr>"
  note no = fresh_page_no_arena [OF inv fresh, simplified]
  have dis: "page_range a 1 \<inter> page_range c (arena_pages ar) = {}" if "A c = Some ar" for c ar
    using arena_okD(4) [OF arenas_invD(2) [OF inv that]] fresh by (auto simp: used_pages_def)
  have p: "arena_pages ?ar = 1" by (simp add: arena_pages_def)
  have all: "pg_round_down b = a" if "b \<in> set (arena_blocks a d)" for b using arena_block(1) [OF that d a(1)] .
  show inv': "arenas_inv pg' (A(a \<mapsto> ?ar)) (F(d := arena_blocks a d))"
  proof (rule arenas_invI [OF pg'])
    show "arena_ok pg' (F(d := arena_blocks a d)) c ar" if "(A(a \<mapsto> ?ar)) c = Some ar" for c ar
    proof (cases "c = a")
      case True
      have "filter (\<lambda>b. pg_round_down b = a) (arena_blocks a d) = arena_blocks a d" using all by (simp add: filter_True)
      moreover have "ar = ?ar" using that True by simp
      ultimately show ?thesis using a used d True by (simp add: arena_ok_def arena_pages_def)
    next
      case False
      then have ok: "arena_ok pg F c ar" using that arenas_invD(2) [OF inv, of c ar] by simp
      have "length (filter (\<lambda>b. pg_round_down b = c) (arena_blocks a d)) = 0" using all False by (intro filter_all_none) auto
      then show ?thesis using ok used empty by (auto simp: arena_ok_def)
    qed
    show "list_ok (A(a \<mapsto> ?ar)) e ((F(d := arena_blocks a d)) e)" if e: "e < length desc_sizes" for e
      using arenas_invD(3) [OF inv e] no(2) [OF e] all distinct_arena_blocks [OF d] by (auto simp: list_ok_def)
  qed (rule disjoint_upd [OF inv], simp_all only: p dis not_False_eq_True)
  show "allocated_in (A(a \<mapsto> ?ar)) (F(d := arena_blocks a d)) = allocated_in A F"
  proof (rule set_eqI)
    fix b
    have e: "b \<in> set ((F(d := arena_blocks a d)) e) \<longleftrightarrow> b \<in> set (F e)" if "pg_round_down b \<noteq> a" for e
      using all that empty by auto
    show "b \<in> allocated_in (A(a \<mapsto> ?ar)) (F(d := arena_blocks a d)) \<longleftrightarrow> b \<in> allocated_in A F"
    proof (cases "pg_round_down b = a")
      case True
      then show ?thesis using no(1) by (simp add: allocated_iff [OF inv] allocated_iff [OF inv'] blocks_at_def)
    next
      case False
      then show ?thesis unfolding allocated_iff [OF inv] allocated_iff [OF inv'] by (simp only: e fun_upd_other not_False_eq_True)
    qed
  qed
qed

text \<open>Changing the number of free blocks of one arena and one free list.\<close>

lemma change_small:
  assumes inv: "arenas_inv pg A F" and a: "A a = Some ar" "arena_desc ar = Some d"
    and l: "distinct l" "\<And>b. b \<in> set l \<Longrightarrow> b \<in> set (F d) \<or> b \<in> set (arena_blocks a d)"
    and same: "\<And>c. c \<noteq> a \<Longrightarrow> filter (\<lambda>b. pg_round_down b = c) l = filter (\<lambda>b. pg_round_down b = c) (F d)"
    and n: "n = length (filter (\<lambda>b. pg_round_down b = a) l)"
  shows "arenas_inv pg (A(a \<mapsto> ar\<lparr>free_cnt := n\<rparr>)) (F(d := l))"
proof -
  let ?ar = "ar\<lparr>free_cnt := n\<rparr>"
  note ok = arenas_invD(2) [OF inv a(1)]
  note d = arena_okD(5) [OF ok a(2)]
  have p: "arena_pages ?ar = arena_pages ar" using a(2) by (simp add: arena_pages_def)
  show ?thesis
  proof (rule arenas_invI)
    show "palloc_inv pg" by (rule arenas_invD(1) [OF inv])
    show "arena_ok pg (F(d := l)) c x" if x: "(A(a \<mapsto> ?ar)) c = Some x" for c x
    proof (cases "c = a")
      case True
      then have "x = ?ar" using x by simp
      then show ?thesis using True ok a(2) n p by (simp add: arena_ok_def)
    next
      case False
      then have "arena_ok pg F c x" using x arenas_invD(2) [OF inv, of c x] by simp
      then show ?thesis using same [OF False] by (simp add: arena_ok_def)
    qed
    show "list_ok (A(a \<mapsto> ?ar)) e ((F(d := l)) e)" if e: "e < length desc_sizes" for e
    proof (cases "e = d")
      case True
      have "\<exists>x. (A(a \<mapsto> ?ar)) (pg_round_down b) = Some x \<and> arena_desc x = Some d \<and> b \<in> set (arena_blocks (pg_round_down b) d)"
        if "b \<in> set l" for b
        using l(2) [OF that]
      proof
        assume "b \<in> set (F d)"
        then show ?thesis using free_block_arena [OF inv d] a by (metis fun_upd_apply arena.select_convs(1) arena.surjective arena.update_convs(2))
      next
        assume "b \<in> set (arena_blocks a d)"
        then show ?thesis using arena_block(1) [OF _ d arena_okD(1) [OF ok]] a(2) by simp
      qed
      then show ?thesis using True l(1) by (simp add: list_ok_def)
    next
      case False
      have "pg_round_down b \<noteq> a" if "b \<in> set (F e)" for b
        using free_block_arena [OF inv e that] a False by force
      then show ?thesis using False arenas_invD(3) [OF inv e] by (auto simp: list_ok_def)
    qed
  qed (rule disjoint_upd [OF inv], use p arenas_invD(4) [OF inv a(1)] in \<open>simp_all only: not_False_eq_True\<close>)
qed

text \<open>Taking the first block of a free list.\<close>

lemma take_small:
  assumes inv: "arenas_inv pg A F" and d: "d < length desc_sizes" and F: "F d = b # rest"
    and a: "A (pg_round_down b) = Some ar" "arena_desc ar = Some d"
  shows "arenas_inv pg (A(pg_round_down b \<mapsto> ar\<lparr>free_cnt := free_cnt ar - 1\<rparr>)) (F(d := rest))"
    "allocated_in (A(pg_round_down b \<mapsto> ar\<lparr>free_cnt := free_cnt ar - 1\<rparr>)) (F(d := rest)) = insert b (allocated_in A F)"
    "b \<notin> allocated_in A F"
proof -
  let ?ar = "ar\<lparr>free_cnt := free_cnt ar - 1\<rparr>" and ?a = "pg_round_down b"
  have dist: "distinct (b # rest)" using arenas_invD(3) [OF inv d] F by (simp add: list_ok_def)
  have n: "free_cnt ar = length (filter (\<lambda>x. pg_round_down x = ?a) (b # rest))"
    using arena_okD(6) [OF arenas_invD(2) [OF inv a(1)] a(2)] F by simp
  show inv': "arenas_inv pg (A(?a \<mapsto> ?ar)) (F(d := rest))"
    by (rule change_small [OF inv a]) (use dist n F in auto)
  show "b \<notin> allocated_in A F" using a F by (simp add: allocated_iff [OF inv])
  obtain ar' where "A ?a = Some ar'" "b \<in> set (arena_blocks ?a d)" using free_block_arena [OF inv d, of b] F by auto
  then have bb: "b \<in> blocks_at ?a ?ar" using a by (simp add: blocks_at_def)
  have same: "blocks_at ?a ?ar = blocks_at ?a ar" by (simp add: blocks_at_def)
  show "allocated_in (A(?a \<mapsto> ?ar)) (F(d := rest)) = insert b (allocated_in A F)"
  proof (rule set_eqI)
    fix x
    show "x \<in> allocated_in (A(?a \<mapsto> ?ar)) (F(d := rest)) \<longleftrightarrow> x \<in> insert b (allocated_in A F)"
    proof (cases "x = b")
      case True
      then show ?thesis unfolding allocated_iff [OF inv'] insert_iff using bb a dist by simp
    next
      case False
      then have e: "x \<in> set ((F(d := rest)) e) \<longleftrightarrow> x \<in> set (F e)" for e using F by simp
      show ?thesis using False a same
        by (cases "pg_round_down x = ?a") (simp_all only: allocated_iff [OF inv] allocated_iff [OF inv'] e fun_upd_same fun_upd_other insert_iff, auto)
    qed
  qed
qed

text \<open>Adding a block to the front of its free list.\<close>

lemma give_small:
  assumes inv: "arenas_inv pg A F" and a: "A a = Some ar" "arena_desc ar = Some d"
    and b: "b \<in> set (arena_blocks a d)" "b \<notin> set (F d)"
  shows "arenas_inv pg (A(a \<mapsto> ar\<lparr>free_cnt := free_cnt ar + 1\<rparr>)) (F(d := b # F d))"
    "allocated_in (A(a \<mapsto> ar\<lparr>free_cnt := free_cnt ar + 1\<rparr>)) (F(d := b # F d)) = allocated_in A F - {b}"
    "free_cnt ar + 1 \<le> snd (desc_sizes ! d)"
proof -
  let ?ar = "ar\<lparr>free_cnt := free_cnt ar + 1\<rparr>"
  note ok = arenas_invD(2) [OF inv a(1)]
  note d = arena_okD(5) [OF ok a(2)]
  have page: "pg_round_down b = a" using arena_block(1) [OF b(1) d arena_okD(1) [OF ok]] .
  have dist: "distinct (b # F d)" using arenas_invD(3) [OF inv d] b(2) by (simp add: list_ok_def)
  have n: "free_cnt ar + 1 = length (filter (\<lambda>x. pg_round_down x = a) (b # F d))"
    using arena_okD(6) [OF ok a(2)] page by simp
  show inv': "arenas_inv pg (A(a \<mapsto> ?ar)) (F(d := b # F d))"
    by (rule change_small [OF inv a dist _ _ n]) (use b page in auto)
  have same: "blocks_at a ?ar = blocks_at a ar" by (simp add: blocks_at_def)
  show "allocated_in (A(a \<mapsto> ?ar)) (F(d := b # F d)) = allocated_in A F - {b}"
  proof (rule set_eqI)
    fix x
    show "x \<in> allocated_in (A(a \<mapsto> ?ar)) (F(d := b # F d)) \<longleftrightarrow> x \<in> allocated_in A F - {b}"
    proof (cases "x = b")
      case True
      then show ?thesis unfolding allocated_iff [OF inv'] Diff_iff using page a by simp
    next
      case False
      then have e: "x \<in> set ((F(d := b # F d)) e) \<longleftrightarrow> x \<in> set (F e)" for e by simp
      show ?thesis using False a same
        by (cases "pg_round_down x = a") (simp_all only: allocated_iff [OF inv] allocated_iff [OF inv'] e fun_upd_same fun_upd_other Diff_iff, auto)
    qed
  qed
  let ?l = "filter (\<lambda>x. pg_round_down x = a) (b # F d)"
  have sub: "set ?l \<subseteq> set (arena_blocks a d)"
  proof
    fix x
    assume x: "x \<in> set ?l"
    show "x \<in> set (arena_blocks a d)"
    proof (cases "x = b")
      case False
      then have "x \<in> set (F d)" "pg_round_down x = a" using x page by auto
      then show ?thesis using free_block_arena [OF inv d, of x] by metis
    qed (use b(1) in simp)
  qed
  have "length ?l = card (set ?l)" using dist by (simp add: distinct_card)
  also have "\<dots> \<le> card (set (arena_blocks a d))" using sub by (rule card_mono [OF finite_set])
  also have "\<dots> = length (arena_blocks a d)" by (rule distinct_card [OF distinct_arena_blocks [OF d]])
  finally have "length ?l \<le> length (arena_blocks a d)" .
  then show "free_cnt ar + 1 \<le> snd (desc_sizes ! d)" using n by simp
qed

text \<open>Giving an arena back whose blocks are all free, or that holds one big block.\<close>

lemma drop_arena:
  assumes inv: "arenas_inv pg A F" and a: "A a = Some ar" and pg': "palloc_inv pg'"
    and used: "pool_used (kernel_pool pg') = pool_used (kernel_pool pg) - page_range a (arena_pages ar)"
    and F': "\<And>d. F' d = filter (\<lambda>b. pg_round_down b \<noteq> a) (F d)"
  shows "arenas_inv pg' (A(a := None)) F'"
    "allocated_in (A(a := None)) F' = allocated_in A F - blocks_at a ar"
proof -
  have F'c: "filter (\<lambda>b. pg_round_down b = c) (F' d) = filter (\<lambda>b. pg_round_down b = c) (F d)" if "c \<noteq> a" for c d
    using that by (simp add: F') (metis (mono_tags, lifting) filter_cong)
  show inv': "arenas_inv pg' (A(a := None)) F'"
  proof (rule arenas_invI [OF pg'])
    show "arena_ok pg' F' c x" if "(A(a := None)) c = Some x" for c x
    proof -
      have c: "c \<noteq> a" "A c = Some x" using that by (auto split: if_splits)
      have "page_range c (arena_pages x) \<subseteq> pool_used (kernel_pool pg')"
        using arena_okD(4) [OF arenas_invD(2) [OF inv c(2)]] arenas_invD(4) [OF inv c(2) a c(1)] used by blast
      then show ?thesis using arenas_invD(2) [OF inv c(2)] F'c [OF c(1)] by (simp add: arena_ok_def)
    qed
    show "list_ok (A(a := None)) d (F' d)" if "d < length desc_sizes" for d
      using arenas_invD(3) [OF inv that] by (auto simp: list_ok_def F')
    show "page_range c (arena_pages x) \<inter> page_range c' (arena_pages x') = {}"
      if "(A(a := None)) c = Some x" "(A(a := None)) c' = Some x'" "c \<noteq> c'" for c x c' x'
      using that arenas_invD(4) [OF inv, of c x c' x'] by (auto split: if_splits)
  qed
  have in_a: "pg_round_down b = a" if "b \<in> blocks_at a ar" for b using blocks_at_page [OF that arenas_invD(2) [OF inv a]] .
  show "allocated_in (A(a := None)) F' = allocated_in A F - blocks_at a ar"
  proof (rule set_eqI)
    fix b
    have "b \<in> set (F' d) \<longleftrightarrow> b \<in> set (F d)" if "pg_round_down b \<noteq> a" for d using that by (simp add: F')
    then show "b \<in> allocated_in (A(a := None)) F' \<longleftrightarrow> b \<in> allocated_in A F - blocks_at a ar"
      using in_a [of b] a by (cases "pg_round_down b = a") (auto simp: allocated_iff [OF inv] allocated_iff [OF inv'])
  qed
qed

section \<open>Operations on well-formed heaps\<close>

lemma desc_tableD:
  assumes "table h"
  shows "length (descs h) = length desc_sizes"
    "d < length desc_sizes \<Longrightarrow> blk_size (descs h ! d) = fst (desc_sizes ! d)"
    "d < length desc_sizes \<Longrightarrow> blocks_per_arena (descs h ! d) = snd (desc_sizes ! d)"
proof -
  show l: "length (descs h) = length desc_sizes" using assms by (metis length_map table_def)
  have "desc_sizes ! d = (blk_size (descs h ! d), blocks_per_arena (descs h ! d))" if "d < length desc_sizes"
    using assms l that unfolding table_def by (metis (no_types, lifting) nth_map)
  then show "d < length desc_sizes \<Longrightarrow> blk_size (descs h ! d) = fst (desc_sizes ! d)"
    "d < length desc_sizes \<Longrightarrow> blocks_per_arena (descs h ! d) = snd (desc_sizes ! d)" by simp_all
qed

lemma upd_desc_simps [simp]:
  "pages (upd_desc h d f) = pages h" "arenas (upd_desc h d f) = arenas h"
  by (simp_all add: upd_desc_def)

lemma table_upd_desc [simp]: "table (upd_desc h d f) = table h"
proof -
  have "map (\<lambda>d. (blk_size d, blocks_per_arena d)) (descs (upd_desc h d f)) = map (\<lambda>d. (blk_size d, blocks_per_arena d)) (descs h)"
    by (cases "d < length (descs h)") (auto intro!: nth_equalityI simp: upd_desc_def nth_list_update)
  then show ?thesis by (simp add: table_def)
qed

lemma flists_upd_desc: "table h \<Longrightarrow> d < length desc_sizes \<Longrightarrow> flists (upd_desc h d f) = (flists h)(d := f (flists h d))"
  using desc_tableD(1) [of h] by (auto simp: fun_eq_iff flists_def upd_desc_def nth_list_update)

lemma heap_fields [simp]:
  "table (h\<lparr>pages := x\<rparr>) = table h" "table (h\<lparr>arenas := y\<rparr>) = table h"
  "flists (h\<lparr>pages := x\<rparr>) = flists h" "flists (h\<lparr>arenas := y\<rparr>) = flists h"
  by (simp_all add: table_def flists_def fun_eq_iff)

lemma block_to_arena_ok:
  assumes t: "table h" and ok: "arena_ok pg F a ar" and a: "arenas h a = Some ar" and b: "b \<in> blocks_at a ar"
  shows "block_to_arena h b = Some (a, ar)"
proof -
  note o = arena_okD [OF ok]
  have r: "pg_round_down b = a" by (rule blocks_at_page [OF b ok])
  show ?thesis
  proof (cases "arena_desc ar")
    case None
    then have "pg_ofs b = ARENA_SIZE" using b big_block [OF o(1)] by (simp add: blocks_at_def)
    then show ?thesis using None r o(2) a by (simp add: block_to_arena_def)
  next
    case (Some d)
    then have "b \<in> set (arena_blocks a d)" using b by (simp add: blocks_at_def)
    from arena_block(4) [OF this o(5) [OF Some] o(1)] show ?thesis
      using Some r o(2) a desc_tableD(2) [OF t o(5) [OF Some]] by (simp add: block_to_arena_def)
  qed
qed

lemma arena_to_block_ok:
  "table h \<Longrightarrow> d < length desc_sizes \<Longrightarrow> a \<noteq> NULL \<Longrightarrow> arenas h a = Some ar \<Longrightarrow> arena_desc ar = Some d \<Longrightarrow> i < snd (desc_sizes ! d) \<Longrightarrow>
   arena_to_block h a i = Some (arena_blocks a d ! i)"
  using desc_tableD(2,3) [of h d] by (simp add: arena_to_block_def arena_blocks_def)

lemma add_blocks_ok:
  assumes "table h" and "d < length desc_sizes" and "a \<noteq> NULL" and "arenas h a = Some ar" and "arena_desc ar = Some d"
    and "i + n \<le> snd (desc_sizes ! d)"
  shows "\<exists>h'. add_blocks n h a d i = Some h' \<and> table h' \<and> pages h' = pages h \<and> arenas h' = arenas h
    \<and> flists h' = (flists h)(d := flists h d @ take n (drop i (arena_blocks a d)))"
  using assms
proof (induction n arbitrary: h i)
  case (Suc n)
  let ?b = "arena_blocks a d ! i"
  have "arena_to_block h a i = Some ?b" using arena_to_block_ok Suc.prems by simp
  moreover have "take (Suc n) (drop i (arena_blocks a d)) = ?b # take n (drop (i + 1) (arena_blocks a d))"
    using Suc.prems(6) by (simp add: Cons_nth_drop_Suc [symmetric])
  ultimately show ?case
    using Suc.IH [of "upd_desc h d (\<lambda>l. l @ [?b])" "i + 1"] Suc.prems by (auto simp: flists_upd_desc fun_eq_iff)
qed (simp add: fun_upd_idem)

lemma remove_blocks_ok:
  assumes "table h" and "d < length desc_sizes" and "a \<noteq> NULL" and "arenas h a = Some ar" and "arena_desc ar = Some d"
    and "i + n \<le> snd (desc_sizes ! d)" and "distinct (flists h d)"
  shows "\<exists>h'. remove_blocks n h a d i = Some h' \<and> table h' \<and> pages h' = pages h \<and> arenas h' = arenas h
    \<and> flists h' = (flists h)(d := filter (\<lambda>b. b \<notin> set (take n (drop i (arena_blocks a d)))) (flists h d))"
  using assms
proof (induction n arbitrary: h i)
  case (Suc n)
  let ?b = "arena_blocks a d ! i"
  have "arena_to_block h a i = Some ?b" using arena_to_block_ok Suc.prems by simp
  moreover have "take (Suc n) (drop i (arena_blocks a d)) = ?b # take n (drop (i + 1) (arena_blocks a d))"
    using Suc.prems(6) by (simp add: Cons_nth_drop_Suc [symmetric])
  moreover have "filter (\<lambda>b. b \<notin> X) (remove1 ?b (flists h d)) = filter (\<lambda>b. b \<noteq> ?b \<and> b \<notin> X) (flists h d)" for X
    using Suc.prems(7) by (simp add: distinct_remove1_removeAll removeAll_filter_not_eq) (metis (no_types, lifting) filter_cong)
  ultimately show ?case
    using Suc.IH [of "upd_desc h d (remove1 ?b)" "i + 1"] Suc.prems by (auto simp: flists_upd_desc fun_eq_iff)
qed (simp add: fun_upd_idem)

lemma find_desc_spec:
  "k \<le> find_desc ds sz k \<and> find_desc ds sz k \<le> k + length ds
    \<and> (find_desc ds sz k < k + length ds \<longrightarrow> sz \<le> blk_size (ds ! (find_desc ds sz k - k)))"
proof (induction ds arbitrary: k)
  case (Cons x xs)
  show ?case
  proof (cases "blk_size x \<ge> sz")
    case False
    have "Suc k \<le> find_desc xs sz (Suc k)" using Cons [of "Suc k"] by simp
    then have "find_desc xs sz (Suc k) - k = Suc (find_desc xs sz (Suc k) - Suc k)" by simp
    then show ?thesis using False Cons [of "Suc k"] by simp
  qed simp
qed simp

lemma heap_invD:
  assumes "heap_inv h"
  shows "table h" "arenas_inv (pages h) (arenas h) (flists h)" "palloc_inv (pages h)"
  using assms by (auto simp: heap_inv_def arenas_inv_def)

lemma new_arena_ok:
  assumes inv: "heap_inv h" and d: "d < length desc_sizes" and empty: "flists h d = []"
  shows "\<exists>ok h'. new_arena h d = Some (ok, h') \<and> heap_inv h' \<and> allocated h' = allocated h \<and> (ok \<longrightarrow> flists h' d \<noteq> [])"
proof -
  obtain a pg where r: "palloc_get_multiple {} 1 (pages h) = Some (a, pg)" "palloc_inv pg" "a = NULL \<Longrightarrow> pg = pages h"
    "a \<noteq> NULL \<Longrightarrow> pg_ofs a = 0" "a \<noteq> NULL \<Longrightarrow> page_range a 1 \<inter> used_pages (pages h) = {}"
    "a \<noteq> NULL \<Longrightarrow> pool_used (kernel_pool pg) = pool_used (kernel_pool (pages h)) \<union> page_range a 1"
    by (rule palloc_get_kernel [OF heap_invD(3) [OF inv], of 1]) (use zero_neq_one in auto)
  show ?thesis
  proof (cases "a = NULL")
    case True
    then have "new_arena h d = Some (False, h)" using r by (simp add: new_arena_def palloc_get_page_def)
    then show ?thesis using inv by blast
  next
    case False
    let ?ar = "\<lparr>arena_desc = Some d, free_cnt = snd (desc_sizes ! d)\<rparr>"
    let ?h = "h\<lparr>pages := pg, arenas := (arenas h)(a \<mapsto> ?ar)\<rparr>"
    have a: "pg_ofs a = 0" "page_range a 1 \<inter> used_pages (pages h) = {}"
      "pool_used (kernel_pool pg) = pool_used (kernel_pool (pages h)) \<union> page_range a 1"
      using r(4-6) [OF False] .
    note new = add_small [OF heap_invD(2) [OF inv] a(1) False d r(2) a(2,3) empty]
    have t: "table h" by (rule heap_invD(1) [OF inv])
    obtain h' where h': "add_blocks (snd (desc_sizes ! d)) ?h a d 0 = Some h'" "table h'" "pages h' = pg" "arenas h' = (arenas h)(a \<mapsto> ?ar)"
      "flists h' = (flists h)(d := arena_blocks a d)"
      using add_blocks_ok [of ?h d a ?ar 0 "snd (desc_sizes ! d)"] t d False empty by auto
    have "new_arena h d = Some (True, h')"
      using r(1) False h'(1) desc_tableD(3) [OF t d] by (simp add: new_arena_def palloc_get_page_def)
    moreover have "arena_blocks a d \<noteq> []" using desc_sizes_ok(2) [OF d] by (simp add: arena_blocks_def)
    ultimately show ?thesis using new h'
      by (intro exI [of _ True] exI [of _ h']) (simp add: heap_inv_def allocated_def)
  qed
qed

lemma take_block_ok:
  assumes inv: "heap_inv h" and d: "d < length desc_sizes" and ne: "flists h d \<noteq> []"
  shows "\<exists>b h'. take_block h d = Some (b, h') \<and> heap_inv h' \<and> b \<notin> allocated h \<and> allocated h' = insert b (allocated h)
    \<and> block_size h' b = Some (fst (desc_sizes ! d)) \<and> b \<noteq> NULL"
proof -
  obtain b rest where F: "flists h d = b # rest" using ne by (cases "flists h d") auto
  note t = heap_invD(1) [OF inv] and ai = heap_invD(2) [OF inv]
  obtain ar where ar: "arenas h (pg_round_down b) = Some ar" "arena_desc ar = Some d" "b \<in> set (arena_blocks (pg_round_down b) d)"
    using free_block_arena [OF ai d, of b] F by auto
  let ?a = "pg_round_down b" and ?ar = "ar\<lparr>free_cnt := free_cnt ar - 1\<rparr>"
  let ?h = "upd_desc h d (\<lambda>_. rest)"
  let ?h' = "?h\<lparr>arenas := (arenas ?h)(?a \<mapsto> ?ar)\<rparr>"
  have bb: "b \<in> blocks_at ?a ar" using ar(2,3) by (simp add: blocks_at_def)
  note ok = arenas_invD(2) [OF ai ar(1)]
  have "block_to_arena ?h b = Some (?a, ar)" by (rule block_to_arena_ok [OF _ ok _ bb]) (use t ar(1) in simp_all)
  then have r: "take_block h d = Some (b, ?h')" using F by (simp add: take_block_def flists_def Let_def)
  note new = take_small [OF ai d F ar(1,2)]
  have l: "flists ?h' = (flists h)(d := rest)" using t d by (simp add: flists_upd_desc)
  have inv': "heap_inv ?h'" using new(1) l t by (simp add: heap_inv_def)
  have "block_to_arena ?h' b = Some (?a, ?ar)"
    by (rule block_to_arena_ok [of ?h' "pages ?h'" "flists ?h'"])
      (use inv' bb arenas_invD(2) [OF heap_invD(2) [OF inv'], of ?a ?ar] in \<open>auto simp: heap_inv_def blocks_at_def\<close>)
  then have "block_size ?h' b = Some (fst (desc_sizes ! d))"
    using ar(2) desc_tableD(2) [OF _ d, of ?h'] t by (simp add: block_size_def)
  moreover have "b \<noteq> NULL" using arena_block(2) [OF ar(3) d arena_okD(1) [OF ok]] by (auto simp: ARENA_SIZE_def)
  ultimately show ?thesis using r inv' new(2,3) l by (simp add: allocated_def)
qed

lemma big_ok:
  assumes inv: "heap_inv h" and n: "n \<noteq> 0"
  shows "\<exists>a pg. palloc_get_multiple {} n (pages h) = Some (a, pg)
    \<and> (a = NULL \<longrightarrow> pg = pages h)
    \<and> (a \<noteq> NULL \<longrightarrow> (let h' = h\<lparr>pages := pg, arenas := (arenas h)(a \<mapsto> \<lparr>arena_desc = None, free_cnt = n\<rparr>)\<rparr>
        in heap_inv h' \<and> a + ARENA_SIZE \<notin> allocated h \<and> allocated h' = insert (a + ARENA_SIZE) (allocated h)
          \<and> block_size h' (a + ARENA_SIZE) = Some (PGSIZE * n - ARENA_SIZE)))"
proof -
  obtain a pg where r: "palloc_get_multiple {} n (pages h) = Some (a, pg)" "palloc_inv pg" "a = NULL \<Longrightarrow> pg = pages h"
    "a \<noteq> NULL \<Longrightarrow> pg_ofs a = 0" "a \<noteq> NULL \<Longrightarrow> page_range a n \<inter> used_pages (pages h) = {}"
    "a \<noteq> NULL \<Longrightarrow> pool_used (kernel_pool pg) = pool_used (kernel_pool (pages h)) \<union> page_range a n"
    by (rule palloc_get_kernel [OF heap_invD(3) [OF inv], of n]) (use n in auto)
  show ?thesis
  proof (cases "a = NULL")
    case True
    then show ?thesis using r by simp
  next
    case False
    let ?h = "h\<lparr>pages := pg, arenas := (arenas h)(a \<mapsto> \<lparr>arena_desc = None, free_cnt = n\<rparr>)\<rparr>"
    have a: "pg_ofs a = 0" "page_range a n \<inter> used_pages (pages h) = {}"
      "pool_used (kernel_pool pg) = pool_used (kernel_pool (pages h)) \<union> page_range a n"
      using r(4-6) [OF False] .
    note new = add_big [OF heap_invD(2) [OF inv] a(1) False n r(2) a(2,3)]
    have inv': "heap_inv ?h" using new(1) heap_invD(1) [OF inv] by (simp add: heap_inv_def)
    have "block_to_arena ?h (a + ARENA_SIZE) = Some (a, \<lparr>arena_desc = None, free_cnt = n\<rparr>)"
      by (rule block_to_arena_ok [of ?h "pages ?h" "flists ?h"])
        (use inv' arenas_invD(2) [OF heap_invD(2) [OF inv'], of a] in \<open>auto simp: heap_inv_def blocks_at_def\<close>)
    then have "block_size ?h (a + ARENA_SIZE) = Some (PGSIZE * n - ARENA_SIZE)"
      using big_block [OF a(1)] by (simp add: block_size_def)
    then show ?thesis using r(1) False inv' new(2,3) by (simp add: allocated_def Let_def)
  qed
qed

text \<open>\<^verbatim>\<open>malloc\<close> and \<^verbatim>\<open>free\<close>.\<close>

lemma big_pages:
  assumes "0 < sz" and "sz + ARENA_SIZE + (PGSIZE - 1) < 4294967296"
  shows "DIV_ROUND_UP (size_add sz ARENA_SIZE) PGSIZE \<noteq> 0" "sz \<le> PGSIZE * DIV_ROUND_UP (size_add sz ARENA_SIZE) PGSIZE - ARENA_SIZE"
proof -
  have e: "size_add sz ARENA_SIZE = sz + ARENA_SIZE" using assms(2) by simp
  have "sz + ARENA_SIZE \<le> DIV_ROUND_UP (sz + ARENA_SIZE) PGSIZE * PGSIZE"
    using assms(2) by (intro DIV_ROUND_UP_mult_ge) (simp_all add: PGSIZE_def)
  then show "DIV_ROUND_UP (size_add sz ARENA_SIZE) PGSIZE \<noteq> 0" "sz \<le> PGSIZE * DIV_ROUND_UP (size_add sz ARENA_SIZE) PGSIZE - ARENA_SIZE"
    using assms(1) unfolding e by (cases "DIV_ROUND_UP (sz + ARENA_SIZE) PGSIZE = 0"; simp add: mult.commute)+
qed

lemma malloc_ok:
  assumes inv: "heap_inv h" and sz: "0 < sz" "sz + ARENA_SIZE + (PGSIZE - 1) < 4294967296"
  shows "\<exists>b h'. malloc h sz = Some (b, h') \<and> heap_inv h' \<and> (if b = NULL then allocated h' = allocated h
    else b \<notin> allocated h \<and> allocated h' = insert b (allocated h) \<and> (\<exists>n. block_size h' b = Some n \<and> sz \<le> n))"
proof -
  define d where "d = find_desc (descs h) sz 0"
  have len: "length (descs h) = length desc_sizes" by (rule desc_tableD(1) [OF heap_invD(1) [OF inv]])
  have fd: "d \<le> length (descs h)" "d < length (descs h) \<Longrightarrow> sz \<le> blk_size (descs h ! d)"
    using find_desc_spec [of 0 "descs h" sz] by (auto simp: d_def)
  show ?thesis
  proof (cases "d = length (descs h)")
    case True
    define n where "n = DIV_ROUND_UP (size_add sz ARENA_SIZE) PGSIZE"
    have n: "n \<noteq> 0" "sz \<le> PGSIZE * n - ARENA_SIZE" using big_pages [OF sz] by (simp_all add: n_def)
    obtain a pg where r: "palloc_get_multiple {} n (pages h) = Some (a, pg)" "a = NULL \<longrightarrow> pg = pages h"
      and big: "a \<noteq> NULL \<longrightarrow> (let h' = h\<lparr>pages := pg, arenas := (arenas h)(a \<mapsto> \<lparr>arena_desc = None, free_cnt = n\<rparr>)\<rparr>
        in heap_inv h' \<and> a + ARENA_SIZE \<notin> allocated h \<and> allocated h' = insert (a + ARENA_SIZE) (allocated h)
          \<and> block_size h' (a + ARENA_SIZE) = Some (PGSIZE * n - ARENA_SIZE))"
      using big_ok [OF inv n(1)] by blast
    have m: "malloc h sz = (if a = NULL then Some (NULL, h\<lparr>pages := pg\<rparr>)
        else Some (a + ARENA_SIZE, h\<lparr>pages := pg, arenas := (arenas h)(a \<mapsto> \<lparr>arena_desc = None, free_cnt = n\<rparr>)\<rparr>))"
      using sz(1) True r(1) by (simp add: malloc_def d_def [symmetric] n_def [symmetric] Let_def)
    show ?thesis
    proof (cases "a = NULL")
      case True
      then have "malloc h sz = Some (NULL, h)" using m r(2) by simp
      then show ?thesis using inv by simp
    next
      case False
      then show ?thesis using m big n(2) by (auto simp: Let_def ARENA_SIZE_def)
    qed
  next
    case False
    then have d: "d < length desc_sizes" and le: "sz \<le> fst (desc_sizes ! d)"
      using fd len desc_tableD(2) [OF heap_invD(1) [OF inv], of d] by auto
    have m: "malloc h sz = do {
          (ok, h) \<leftarrow> (if flists h d = [] then new_arena h d else Some (True, h));
          if ok then take_block h d else Some (NULL, h) }"
      using sz(1) False by (simp add: malloc_def d_def [symmetric] Let_def flists_def)
    obtain ok h1 where h1: "(if flists h d = [] then new_arena h d else Some (True, h)) = Some (ok, h1)" "heap_inv h1"
      "allocated h1 = allocated h" "ok \<longrightarrow> flists h1 d \<noteq> []"
      using new_arena_ok [OF inv d] inv by (cases "flists h d = []") auto
    show ?thesis
    proof (cases ok)
      case True
      then obtain b h' where "take_block h1 d = Some (b, h')" "heap_inv h'" "b \<notin> allocated h1" "allocated h' = insert b (allocated h1)"
        "block_size h' b = Some (fst (desc_sizes ! d))" "b \<noteq> NULL"
        using take_block_ok [OF h1(2) d] h1(4) by blast
      then show ?thesis using m h1 True le by simp
    next
      case False
      then have "malloc h sz = Some (NULL, h1)" using m h1(1) by simp
      then show ?thesis using h1 by simp
    qed
  qed
qed

lemma give_back_arena_ok:
  assumes inv: "heap_inv h" and a: "arenas h a = Some ar" "arena_desc ar = Some d" and full: "free_cnt ar = snd (desc_sizes ! d)"
  shows "\<exists>h'. give_back_arena h a d = Some h' \<and> heap_inv h' \<and> allocated h' = allocated h"
proof -
  note t = heap_invD(1) [OF inv] and ai = heap_invD(2) [OF inv]
  note ok = arena_okD [OF arenas_invD(2) [OF ai a(1)]]
  note d = ok(5) [OF a(2)]
  have dist: "distinct (flists h d)" using arenas_invD(3) [OF ai d] by (simp add: list_ok_def)
  obtain h1 where h1: "remove_blocks (snd (desc_sizes ! d)) h a d 0 = Some h1" "table h1" "pages h1 = pages h" "arenas h1 = arenas h"
    "flists h1 = (flists h)(d := filter (\<lambda>b. b \<notin> set (arena_blocks a d)) (flists h d))"
    using remove_blocks_ok [OF t d ok(2) a, of 0 "snd (desc_sizes ! d)"] dist by auto
  have iff: "b \<in> set (arena_blocks a d) \<longleftrightarrow> pg_round_down b = a" if "b \<in> set (flists h d)" for b
    using free_block_arena [OF ai d that] arena_block(1) [OF _ d ok(1)] by metis
  have other: "pg_round_down b \<noteq> a" if "b \<in> set (flists h e)" "e \<noteq> d" "e < length desc_sizes" for b e
    using free_block_arena [OF ai that(3,1)] a that(2) by force
  define F where "F = (\<lambda>e. filter (\<lambda>b. pg_round_down b \<noteq> a) (flists h e))"
  have F: "F e = flists h1 e" if "e < length desc_sizes" for e
    using iff other [of _ e] that by (auto simp: F_def h1(5) intro!: filter_cong filter_True)
  have p: "arena_pages ar = 1" using a(2) by (simp add: arena_pages_def)
  have sub: "page_range a 1 \<subseteq> pool_used (kernel_pool (pages h))" using ok(4) p by simp
  obtain pg where pg: "palloc_free_multiple a 1 (pages h) = Some pg" "palloc_inv pg"
    "pool_used (kernel_pool pg) = pool_used (kernel_pool (pages h)) - page_range a (arena_pages ar)"
    using palloc_free_multiple_spec [OF heap_invD(3) [OF inv] ok(1,2) _ disjI1 [OF sub]] p by auto
  note new = drop_arena [OF ai a(1) pg(2,3), of F, unfolded F_def, OF refl, folded F_def]
  let ?h = "h1\<lparr>pages := pg, arenas := (arenas h)(a := None)\<rparr>"
  have r: "give_back_arena h a d = Some ?h"
    using h1 pg(1) desc_tableD(3) [OF t d] by (simp add: give_back_arena_def palloc_free_page_def)
  have inv': "arenas_inv pg ((arenas h)(a := None)) (flists h1)"
    using new(1) F unfolding arenas_inv_def arena_ok_def by simp
  let ?l = "filter (\<lambda>b. pg_round_down b = a) (flists h d)"
  have "set ?l \<subseteq> set (arena_blocks a d)" using iff by auto
  moreover have "card (set ?l) = card (set (arena_blocks a d))"
    unfolding distinct_card [OF distinct_filter [OF dist]] distinct_card [OF distinct_arena_blocks [OF d]]
    using full ok(6) [OF a(2)] by simp
  ultimately have "set ?l = set (arena_blocks a d)" by (simp add: card_subset_eq)
  then have none: "allocated_in (arenas h) (flists h) \<inter> blocks_at a ar = {}"
    using a blocks_at_page [OF _ arenas_invD(2) [OF ai a(1)]] by (auto simp: allocated_iff [OF ai] blocks_at_def)
  have "allocated_in ((arenas h)(a := None)) (flists h1) = allocated_in ((arenas h)(a := None)) F"
    unfolding allocated_in_def using F arena_okD(5) [OF arenas_invD(2) [OF new(1)]] by (intro Collect_cong) metis
  then have "allocated ?h = allocated h" using new(2) none by (auto simp: allocated_def)
  moreover have "heap_inv ?h" using inv' h1(2) by (simp add: heap_inv_def)
  ultimately show ?thesis using r by blast
qed

lemma free_ok:
  assumes inv: "heap_inv h" and p: "p \<in> allocated h"
  shows "\<exists>h'. free h p = Some h' \<and> heap_inv h' \<and> allocated h' = allocated h - {p}"
proof -
  note t = heap_invD(1) [OF inv] and ai = heap_invD(2) [OF inv]
  let ?a = "pg_round_down p"
  obtain ar where ar: "arenas h ?a = Some ar" "p \<in> blocks_at ?a ar" and nf: "\<And>d. arena_desc ar = Some d \<Longrightarrow> p \<notin> set (flists h d)"
    using p by (auto simp: allocated_def allocated_iff [OF ai])
  note ok = arenas_invD(2) [OF ai ar(1)]
  have bta: "block_to_arena h p = Some (?a, ar)" by (rule block_to_arena_ok [OF t ok ar])
  have pn: "p \<noteq> NULL" using arena_okD(2) [OF ok] by (metis div_0 mult_0 pg_round_down_def)
  show ?thesis
  proof (cases "arena_desc ar")
    case None
    then have n: "arena_pages ar = free_cnt ar" by (simp add: arena_pages_def)
    obtain pg where pg: "palloc_free_multiple ?a (free_cnt ar) (pages h) = Some pg" "palloc_inv pg"
      "pool_used (kernel_pool pg) = pool_used (kernel_pool (pages h)) - page_range ?a (arena_pages ar)"
      using palloc_free_multiple_spec [OF heap_invD(3) [OF inv] arena_okD(1,2) [OF ok] _ disjI1 [OF arena_okD(4) [OF ok]]]
        arena_okD(3) [OF ok] n by auto
    have fl: "filter (\<lambda>b. pg_round_down b \<noteq> ?a) (flists h d) = flists h d" if "d < length desc_sizes" for d
      using free_block_arena [OF ai that] ar(1) None by (intro filter_True) force
    define F where "F = (\<lambda>e. filter (\<lambda>b. pg_round_down b \<noteq> ?a) (flists h e))"
    note new = drop_arena [OF ai ar(1) pg(2,3), of F, unfolded F_def, OF refl, folded F_def]
    have F: "F e = flists h e" if "e < length desc_sizes" for e using fl [OF that] by (simp add: F_def)
    let ?h = "h\<lparr>pages := pg, arenas := (arenas h)(?a := None)\<rparr>"
    have "arenas_inv pg ((arenas h)(?a := None)) (flists h)" using new(1) F unfolding arenas_inv_def arena_ok_def by simp
    moreover have "allocated_in ((arenas h)(?a := None)) (flists h) = allocated_in ((arenas h)(?a := None)) F"
      unfolding allocated_in_def using F arena_okD(5) [OF arenas_invD(2) [OF new(1)]] by (intro Collect_cong) metis
    moreover have "blocks_at ?a ar = {p}" using ar(2) None by (simp add: blocks_at_def)
    moreover have "free h p = Some ?h" using pn bta None pg(1) by (simp add: free_def)
    ultimately show ?thesis using new(2) t by (simp add: heap_inv_def allocated_def)
  next
    case (Some d)
    note d = arena_okD(5) [OF ok Some]
    have blk: "p \<in> set (arena_blocks ?a d)" using ar(2) Some by (simp add: blocks_at_def)
    note new = give_small [OF ai ar(1) Some blk nf [OF Some]]
    let ?ar = "ar\<lparr>free_cnt := free_cnt ar + 1\<rparr>"
    define m where "m = memset_loop (blk_size (descs h ! d)) (ram (pages h)) p 204"
    define h0 where "h0 = upd_desc (h\<lparr>pages := pages h\<lparr>ram := m\<rparr>\<rparr>) d (\<lambda>l. p # l)"
    define h1 where "h1 = h0\<lparr>arenas := (arenas h0)(?a \<mapsto> ?ar)\<rparr>"
    have f1: "arenas h1 = (arenas h)(?a \<mapsto> ?ar)" "flists h1 = (flists h)(d := p # flists h d)" "table h1"
      "pages h1 = pages h\<lparr>ram := m\<rparr>"
      using t d by (simp_all add: h1_def h0_def flists_upd_desc)
    have ram: "arenas_inv (pg\<lparr>ram := m\<rparr>) A F = arenas_inv pg A F" for pg A F
      by (simp add: arenas_inv_def arena_ok_def palloc_inv_def)
    have inv1: "heap_inv h1" and al1: "allocated h1 = allocated h - {p}"
      using new(1,2) f1 ram by (simp_all add: heap_inv_def allocated_def)
    have bpa: "blocks_per_arena (descs h1 ! d) = snd (desc_sizes ! d)" by (rule desc_tableD(3) [OF f1(3) d])
    have f: "free h p = (if free_cnt ar + 1 \<ge> blocks_per_arena (descs h1 ! d) then do {
              ASSERT (free_cnt ar + 1 = blocks_per_arena (descs h1 ! d));
              give_back_arena h1 ?a d } else Some h1)"
      using pn bta Some by (simp add: free_def memset_def m_def [symmetric] h0_def [symmetric] h1_def Let_def)
    show ?thesis
    proof (cases "free_cnt ar + 1 = snd (desc_sizes ! d)")
      case True
      then have "free h p = give_back_arena h1 ?a d" using f bpa by simp
      moreover obtain h' where "give_back_arena h1 ?a d = Some h'" "heap_inv h'" "allocated h' = allocated h1"
        using give_back_arena_ok [OF inv1, of ?a ?ar d] f1(1) Some True by auto
      ultimately show ?thesis using al1 by simp
    next
      case False
      then have "free h p = Some h1" using f bpa new(3) by simp
      then show ?thesis using inv1 al1 by simp
    qed
  qed
qed

text \<open>The bytes of an allocated block lie in the pages of its arena, and no two blocks overlap.\<close>

lemma block_bytes:
  assumes inv: "heap_inv h" and b: "b \<in> allocated h" and n: "block_size h b = Some n"
  obtains ar where "arenas h (pg_round_down b) = Some ar" "b \<in> blocks_at (pg_round_down b) ar"
    "pg_round_down b \<le> b" "b + n \<le> pg_round_down b + PGSIZE * arena_pages ar"
    "\<And>d. arena_desc ar = Some d \<Longrightarrow> n = fst (desc_sizes ! d)"
proof -
  note t = heap_invD(1) [OF inv] and ai = heap_invD(2) [OF inv]
  let ?a = "pg_round_down b"
  obtain ar where ar: "arenas h ?a = Some ar" "b \<in> blocks_at ?a ar" using b by (auto simp: allocated_def allocated_iff [OF ai])
  note ok = arenas_invD(2) [OF ai ar(1)]
  have "block_to_arena h b = Some (?a, ar)" by (rule block_to_arena_ok [OF t ok ar])
  then have n': "n = (case arena_desc ar of Some d \<Rightarrow> blk_size (descs h ! d) | None \<Rightarrow> PGSIZE * free_cnt ar - pg_ofs b)"
    using n by (simp add: block_size_def)
  have le: "?a \<le> b" by (simp add: pg_round_down_def)
  have "b + n \<le> ?a + PGSIZE * arena_pages ar" and "\<And>d. arena_desc ar = Some d \<Longrightarrow> n = fst (desc_sizes ! d)"
  proof (atomize (full), cases "arena_desc ar")
    case None
    then have "b = ?a + ARENA_SIZE" "pg_ofs b = ARENA_SIZE" using ar(2) big_block [OF arena_okD(1) [OF ok]] by (simp_all add: blocks_at_def)
    moreover have "ARENA_SIZE \<le> PGSIZE * free_cnt ar"
      using None arena_okD(3) [OF ok] by (cases "free_cnt ar") (simp_all add: arena_pages_def ARENA_SIZE_def PGSIZE_def)
    ultimately show "b + n \<le> ?a + PGSIZE * arena_pages ar \<and> (\<forall>d. arena_desc ar = Some d \<longrightarrow> n = fst (desc_sizes ! d))"
      using None n' by (simp add: arena_pages_def)
  next
    case (Some d)
    have "b \<in> set (arena_blocks ?a d)" using ar(2) Some by (simp add: blocks_at_def)
    from arena_block(3) [OF this arena_okD(5) [OF ok Some] arena_okD(1) [OF ok]]
    show "b + n \<le> ?a + PGSIZE * arena_pages ar \<and> (\<forall>d. arena_desc ar = Some d \<longrightarrow> n = fst (desc_sizes ! d))"
      using Some n' desc_tableD(2) [OF t arena_okD(5) [OF ok Some]] by (simp add: arena_pages_def)
  qed
  then show ?thesis using that ar le by blast
qed

lemma pages_apart:
  assumes "pg_ofs a = 0" and "pg_ofs c = 0" and "page_range a m \<inter> page_range c n = {}"
  shows "{a..<a + PGSIZE * m} \<inter> {c..<c + PGSIZE * n} = {}"
proof -
  have "pg_no x \<in> page_range a m" if "pg_ofs a = 0" "x \<in> {a..<a + PGSIZE * m}" for x a m
  proof -
    have a: "a = PGSIZE * pg_no a" by (rule pg_no_address [OF that(1)])
    then have "x < PGSIZE * (pg_no a + m)" using that(2) by (simp add: distrib_left)
    then have "pg_no x < pg_no a + m" unfolding pg_no_def [of x] by (simp add: PGSIZE_def less_mult_imp_div_less mult.commute)
    moreover have "pg_no a \<le> pg_no x" using that(2) by (simp add: pg_no_def div_le_mono)
    ultimately show ?thesis by (simp add: page_range_def)
  qed
  then show ?thesis using assms by blast
qed

lemma blocks_apart:
  assumes inv: "heap_inv h" and b: "b \<in> allocated h" "block_size h b = Some m" and c: "c \<in> allocated h" "block_size h c = Some n" and ne: "b \<noteq> c"
  shows "{b..<b + m} \<inter> {c..<c + n} = {}"
proof -
  note ai = heap_invD(2) [OF inv]
  obtain x where x: "arenas h (pg_round_down b) = Some x" "b \<in> blocks_at (pg_round_down b) x"
    "pg_round_down b \<le> b" "b + m \<le> pg_round_down b + PGSIZE * arena_pages x" "\<And>d. arena_desc x = Some d \<Longrightarrow> m = fst (desc_sizes ! d)"
    by (rule block_bytes [OF inv b]) blast
  obtain y where y: "arenas h (pg_round_down c) = Some y" "c \<in> blocks_at (pg_round_down c) y"
    "pg_round_down c \<le> c" "c + n \<le> pg_round_down c + PGSIZE * arena_pages y" "\<And>d. arena_desc y = Some d \<Longrightarrow> n = fst (desc_sizes ! d)"
    by (rule block_bytes [OF inv c]) blast
  note okx = arenas_invD(2) [OF ai x(1)] and oky = arenas_invD(2) [OF ai y(1)]
  show ?thesis
  proof (cases "pg_round_down b = pg_round_down c")
    case False
    have "{b..<b + m} \<subseteq> {pg_round_down b..<pg_round_down b + PGSIZE * arena_pages x}"
      "{c..<c + n} \<subseteq> {pg_round_down c..<pg_round_down c + PGSIZE * arena_pages y}"
      using x(3,4) y(3,4) by auto
    then show ?thesis
      using pages_apart [OF arena_okD(1) [OF okx] arena_okD(1) [OF oky] arenas_invD(4) [OF ai x(1) y(1) False]] by blast
  next
    case True
    then have xy: "y = x" using x(1) y(1) by simp
    obtain d where d: "arena_desc x = Some d"
    proof (cases "arena_desc x")
      case None
      then have "b = c" using True x(2) y(2) xy by (simp add: blocks_at_def)
      then show ?thesis using ne by simp
    qed (rule that)
    let ?s = "fst (desc_sizes ! d)"
    have "b \<in> set (arena_blocks (pg_round_down c) d)" "c \<in> set (arena_blocks (pg_round_down c) d)"
      using x(2) y(2) True d xy by (simp_all add: blocks_at_def)
    then obtain i j where ij: "b = pg_round_down c + ARENA_SIZE + i * ?s" "c = pg_round_down c + ARENA_SIZE + j * ?s"
      unfolding arena_blocks_def by (auto simp only: set_map image_iff)
    then consider "i < j" | "j < i" using ne by (cases i j rule: linorder_cases) auto
    then have "b + ?s \<le> c \<or> c + ?s \<le> b"
    proof cases
      case 1
      then have "(i + 1) * ?s \<le> j * ?s" by (intro mult_le_mono1) simp
      then show ?thesis using ij by simp
    next
      case 2
      then have "(j + 1) * ?s \<le> i * ?s" by (intro mult_le_mono1) simp
      then show ?thesis using ij by simp
    qed
    then show ?thesis using x(5) [OF d] y(5) [of d] d xy by auto
  qed
qed

lemma malloc_init_ok:
  assumes "palloc_inv pg"
  shows "\<exists>h. malloc_init pg = Some h \<and> heap_inv h \<and> allocated h = {} \<and> pages h = pg"
proof -
  let ?d = "\<lambda>bs n. \<lparr>blk_size = bs, blocks_per_arena = n, free_list = []\<rparr>"
  have i: "malloc_init_loop 16 [] = Some [?d 16 255, ?d 32 127, ?d 64 63, ?d 128 31, ?d 256 15, ?d 512 7, ?d 1024 3]"
    by (simp add: malloc_init_loop.simps PGSIZE_def ARENA_SIZE_def)
  have "d \<in> {0, 1, 2, 3, 4, 5, 6}" if "d < length desc_sizes" for d using that by (auto simp: desc_sizes_def)
  then have "flists \<lparr>pages = pg, arenas = Map.empty, descs = [?d 16 255, ?d 32 127, ?d 64 63, ?d 128 31, ?d 256 15, ?d 512 7, ?d 1024 3]\<rparr> d = []"
    if "d < length desc_sizes" for d using that by (fastforce simp: flists_def)
  then show ?thesis using i assms
    by (simp add: malloc_init_def heap_inv_def table_def desc_sizes_def arenas_inv_def allocated_def allocated_in_def list_ok_def)
qed

text \<open>A request that is too big for all descriptors takes whole pages.\<close>

lemma find_desc_none: "\<forall>x \<in> set ds. blk_size x < sz \<Longrightarrow> find_desc ds sz k = k + length ds"
  by (induction ds arbitrary: k) auto

lemma malloc_big:
  assumes inv: "heap_inv h" and sz: "1024 < sz" and n: "n = DIV_ROUND_UP (size_add sz ARENA_SIZE) PGSIZE" "n \<noteq> 0"
    and r: "malloc h sz = Some (p, h')" "p \<noteq> NULL"
  shows "block_size h' p = Some (PGSIZE * n - ARENA_SIZE)"
proof -
  note t = heap_invD(1) [OF inv]
  have "blk_size x < sz" if "x \<in> set (descs h)" for x
  proof -
    have "(blk_size x, blocks_per_arena x) \<in> set desc_sizes" using that t unfolding table_def by (metis (no_types, lifting) image_eqI set_map)
    then show ?thesis using sz by (auto simp: desc_sizes_def)
  qed
  then have d: "find_desc (descs h) sz 0 = length (descs h)" using find_desc_none [of "descs h" sz 0] by simp
  obtain a pg where a: "palloc_get_multiple {} n (pages h) = Some (a, pg)"
    and big: "a \<noteq> NULL \<longrightarrow> (let h' = h\<lparr>pages := pg, arenas := (arenas h)(a \<mapsto> \<lparr>arena_desc = None, free_cnt = n\<rparr>)\<rparr>
        in heap_inv h' \<and> a + ARENA_SIZE \<notin> allocated h \<and> allocated h' = insert (a + ARENA_SIZE) (allocated h)
          \<and> block_size h' (a + ARENA_SIZE) = Some (PGSIZE * n - ARENA_SIZE))"
    using big_ok [OF inv n(2)] by blast
  have "malloc h sz = (if a = NULL then Some (NULL, h\<lparr>pages := pg\<rparr>)
        else Some (a + ARENA_SIZE, h\<lparr>pages := pg, arenas := (arenas h)(a \<mapsto> \<lparr>arena_desc = None, free_cnt = n\<rparr>)\<rparr>))"
    using sz d a by (simp add: malloc_def n(1) [symmetric] Let_def)
  then show ?thesis using r big by (auto simp: Let_def split: if_splits)
qed

section \<open>Properties\<close>

text \<open>
  C31: \<^verbatim>\<open>malloc\<close> is correct. On every well-formed heap a request returns: the null pointer, with the
  same blocks allocated, or a block that was not allocated, has at least the requested size and
  overlaps no allocated block; the heap stays well-formed. The size must leave room for the header and
  for rounding in 32 bits.
\<close>

theorem malloc_correct:
  assumes "heap_inv h" and "0 < sz" and "sz + ARENA_SIZE + (PGSIZE - 1) < 4294967296"
  shows "\<exists>b h'. malloc h sz = Some (b, h') \<and> heap_inv h' \<and> (b = NULL \<longrightarrow> allocated h' = allocated h)
    \<and> (b \<noteq> NULL \<longrightarrow> b \<notin> allocated h \<and> allocated h' = insert b (allocated h)
        \<and> (\<exists>n. block_size h' b = Some n \<and> sz \<le> n
            \<and> (\<forall>c k. c \<in> allocated h \<longrightarrow> block_size h' c = Some k \<longrightarrow> {b..<b + n} \<inter> {c..<c + k} = {})))"
proof -
  obtain b h' where r: "malloc h sz = Some (b, h')" "heap_inv h'" and c: "if b = NULL then allocated h' = allocated h
    else b \<notin> allocated h \<and> allocated h' = insert b (allocated h) \<and> (\<exists>n. block_size h' b = Some n \<and> sz \<le> n)"
    using malloc_ok [OF assms] by blast
  show ?thesis
  proof (cases "b = NULL")
    case True
    then show ?thesis using r c by simp
  next
    case False
    then obtain n where n: "b \<notin> allocated h" "allocated h' = insert b (allocated h)" "block_size h' b = Some n" "sz \<le> n"
      using c by auto
    have "{b..<b + n} \<inter> {x..<x + k} = {}" if "x \<in> allocated h" "block_size h' x = Some k" for x k
      by (rule blocks_apart [OF r(2) _ n(3) _ that(2)]) (use n that in auto)
    then show ?thesis using r False n by (intro exI [of _ b] exI [of _ h']) simp
  qed
qed

definition demo_heap :: heap where
  "demo_heap = the (malloc_init \<lparr>kernel_pool = \<lparr>used_map = \<lparr>bit_cnt = 64, bits = [0, 0]\<rparr>, pool_base = 3222278144\<rparr>,
     user_pool = \<lparr>used_map = \<lparr>bit_cnt = 8, bits = [0]\<rparr>, pool_base = 3223326720\<rparr>, ram = (\<lambda>_. 7)\<rparr>)"

lemma demo_heap_inv:
  "heap_inv demo_heap" "allocated demo_heap = {}" "j < 64 \<Longrightarrow> j \<notin> bitmap_used (used_map (kernel_pool (pages demo_heap)))"
  "bit_cnt (used_map (kernel_pool (pages demo_heap))) = 64"
proof -
  let ?p = "\<lparr>kernel_pool = \<lparr>used_map = \<lparr>bit_cnt = 64, bits = [0, 0]\<rparr>, pool_base = 3222278144\<rparr>,
     user_pool = \<lparr>used_map = \<lparr>bit_cnt = 8, bits = [0]\<rparr>, pool_base = 3223326720\<rparr>, ram = (\<lambda>_. 7)\<rparr> :: palloc"
  have "palloc_inv ?p"
    by (simp add: palloc_inv_def pool_inv_def bitmap_inv_def elem_cnt_def DIV_ROUND_UP_def ELEM_BITS_def
        pg_ofs_def pg_no_def PGSIZE_def pool_pages_def)
  from malloc_init_ok [OF this] have pg: "pages demo_heap = ?p" and "heap_inv demo_heap" "allocated demo_heap = {}"
    by (auto simp: demo_heap_def)
  then show "heap_inv demo_heap" "allocated demo_heap = {}" "bit_cnt (used_map (kernel_pool (pages demo_heap))) = 64" by simp_all
  assume "j < 64"
  then have "j div 32 = 0 \<or> j div 32 = 1" by auto
  then have "[0, 0] ! (j div 32) = (0 :: u32)" by auto
  then show "j \<notin> bitmap_used (used_map (kernel_pool (pages demo_heap)))" by (simp add: pg bitmap_used_def bitmap_bit_def)
qed

theorem malloc_correct_witness:
  "\<exists>b h'. malloc demo_heap 100 = Some (b, h') \<and> heap_inv h'"
  using malloc_correct [OF demo_heap_inv(1), of 100] by (auto simp: ARENA_SIZE_def PGSIZE_def)

text \<open>
  C32: \<^verbatim>\<open>free\<close> takes exactly its block back. For every allocated block of a well-formed heap it returns
  without a failed assertion, the heap stays well-formed, and the block is no longer allocated while all
  others are, also when its arena is given back to the page allocator.
\<close>

theorem free_correct:
  assumes "heap_inv h" and "p \<in> allocated h"
  shows "\<exists>h'. free h p = Some h' \<and> heap_inv h' \<and> allocated h' = allocated h - {p}"
  using assms by (rule free_ok)

theorem free_correct_witness:
  "\<exists>p h h'. malloc demo_heap 100 = Some (p, h) \<and> (p = NULL \<or> free h p = Some h' \<and> allocated h' = {})"
proof -
  obtain p h where r: "malloc demo_heap 100 = Some (p, h)" "heap_inv h" "p \<noteq> NULL \<longrightarrow> allocated h = {p}"
    using malloc_ok [OF demo_heap_inv(1), of 100] demo_heap_inv(2) by (auto simp: ARENA_SIZE_def PGSIZE_def split: if_splits)
  show ?thesis
  proof (cases "p = NULL")
    case False
    then obtain h' where "free h p = Some h'" "allocated h' = allocated h - {p}" using free_correct [OF r(2), of p] r(3) by auto
    then show ?thesis using r False by auto
  qed (use r in auto)
qed

text \<open>
  C33: the size computations of big requests wrap around. \<^verbatim>\<open>malloc\<close> of more than \<open>2 ^ 32 - 12\<close> bytes, if it
  returns a block at all, returns one of 4084 bytes, because the size with the header overflows; and
  \<^verbatim>\<open>calloc (65537, 65537)\<close> returns a block of 135156 bytes: the product wraps to a number that
  passes the overflow check.
\<close>

theorem huge_requests_wrap:
  assumes "heap_inv h" and "p \<noteq> NULL"
  shows "(4294967284 < sz \<and> sz < 4294967296 \<and> malloc h sz = Some (p, h') \<longrightarrow> block_size h' p = Some 4084)
    \<and> (calloc h 65537 65537 = Some (p, h') \<longrightarrow> block_size h' p = Some 135156)"
proof (intro conjI impI)
  assume m: "4294967284 < sz \<and> sz < 4294967296 \<and> malloc h sz = Some (p, h')"
  define k where "k = sz - 4294967284"
  have k: "sz = k + 4294967284" "0 < k" "k < 12" using m by (auto simp: k_def)
  then have "size_add sz ARENA_SIZE = k" by (simp add: size_add_def ARENA_SIZE_def)
  then have "DIV_ROUND_UP (size_add sz ARENA_SIZE) PGSIZE = 1"
    using k by (simp add: DIV_ROUND_UP_def PGSIZE_def div_nat_eqI)
  then show "block_size h' p = Some 4084"
    using malloc_big [OF assms(1) _ _ _ _ assms(2), of sz 1 h'] m by (simp add: PGSIZE_def ARENA_SIZE_def)
next
  assume c: "calloc h 65537 65537 = Some (p, h')"
  obtain h1 where m: "malloc h 131073 = Some (p, h1)" and h': "arenas h' = arenas h1" "descs h' = descs h1"
  proof (cases "malloc h 131073")
    case (Some r)
    then show ?thesis using c assms(2) that [of "snd r"] by (cases r) (auto simp: calloc_def memset_def split: if_splits)
  qed (use c in \<open>simp add: calloc_def\<close>)
  have "DIV_ROUND_UP (size_add 131073 ARENA_SIZE) PGSIZE = 33" by (simp add: DIV_ROUND_UP_def PGSIZE_def size_add_def ARENA_SIZE_def)
  then have "block_size h1 p = Some 135156"
    using malloc_big [OF assms(1) _ _ _ m assms(2), of 33] by (simp add: PGSIZE_def ARENA_SIZE_def)
  then show "block_size h' p = Some 135156" unfolding block_size_def block_to_arena_def h' .
qed

theorem huge_requests_wrap_witness:
  "\<exists>p h'. malloc demo_heap 4294967290 = Some (p, h') \<and> block_size h' p = Some 4084"
proof -
  obtain a pg where pg: "palloc_get_multiple {} 1 (pages demo_heap) = Some (a, pg)"
    using big_ok [OF demo_heap_inv(1), of 1] by auto
  have "a \<noteq> NULL" by (rule palloc_get_succeeds [OF heap_invD(3) [OF demo_heap_inv(1)] _ _ _ pg, of 0]) (use demo_heap_inv(3,4) in auto)
  moreover have "find_desc (descs demo_heap) 4294967290 0 = length (descs demo_heap)"
    using malloc_init_loop.simps by (simp add: demo_heap_def malloc_init_def malloc_init_loop.simps PGSIZE_def ARENA_SIZE_def)
  ultimately obtain p h' where "malloc demo_heap 4294967290 = Some (p, h')" "p \<noteq> NULL"
    using pg by (simp add: malloc_def size_add_def ARENA_SIZE_def DIV_ROUND_UP_def PGSIZE_def Let_def)
  then show ?thesis using huge_requests_wrap [OF demo_heap_inv(1), of p 4294967290 h'] by simp
qed

end
