(* ===== verification/Filesys.thy ===== *)
theory Filesys
  imports Directory
begin

text \<open>
  The interface of the file system (\<^verbatim>\<open>filesys/filesys.c\<close>): creating, opening and removing files by name.
  \<open>al i\<close> says whether the allocation number \<open>i\<close> of a call succeeds, \<open>junk\<close> is what the local
  directory entries hold beforehand.
\<close>

section \<open>Operations\<close>

definition filesys_open :: "fs \<Rightarrow> (nat \<Rightarrow> bool) \<Rightarrow> bytes \<Rightarrow> bytes \<Rightarrow> (open_file option \<times> fs) option" where
  "filesys_open s al name junk = do {
     (dir, s) \<leftarrow> dir_open_root s (al 0) (al 1);
     (inode, s) \<leftarrow> (case dir of None \<Rightarrow> Some (None, s) | Some d \<Rightarrow> dir_lookup s (al 2) d name junk);
     s \<leftarrow> dir_close s dir;
     file_open s (al 3) inode }"

definition filesys_open_with_dir :: "fs \<Rightarrow> (nat \<Rightarrow> bool) \<Rightarrow> dir option \<Rightarrow> bytes \<Rightarrow> bytes \<Rightarrow> (open_file option \<times> fs) option" where
  "filesys_open_with_dir s al dir name junk =
     (case dir of
        None \<Rightarrow> Some (None, s)
      | Some d \<Rightarrow> do {
          (inode, s) \<leftarrow> dir_lookup s (al 2) d name junk;
          file_open s (al 3) inode })"

text \<open>
  The operator \<^verbatim>\<open>&=\<close> does not stop at the first failure: with no sector left the inode is created in sector 0, and a
  null directory is passed on to \<^verbatim>\<open>dir_add\<close>, whose assertion fails.
\<close>

definition create_entry ::
  "fs \<Rightarrow> dir option \<Rightarrow> bytes \<Rightarrow> off_t \<Rightarrow> u32 \<Rightarrow> bytes \<Rightarrow> (bool \<times> fs) option" where
  "create_entry s dir name initial_size ty junk = do {
     let success = (dir \<noteq> None);
     (r, s) \<leftarrow> free_map_alloc1 s;
     let inode_sector = (case r of None \<Rightarrow> 0 | Some sec \<Rightarrow> sec);
     let success = (success \<and> r \<noteq> None);
     (ok, s) \<leftarrow> inode_create s inode_sector initial_size ty;
     let success = (success \<and> ok);
     d \<leftarrow> dir;
     (dir_add_r, s) \<leftarrow> dir_add s d name inode_sector junk;
     let success = (success \<and> dir_add_r);
     s \<leftarrow> (if \<not> success \<and> inode_sector \<noteq> 0 then free_map_release s inode_sector 1 else Some s);
     Some (success, s) }"

text \<open>A new file is opened, cleared and closed; a null file would be dereferenced.\<close>

definition clear_new :: "(open_file option \<times> fs) option \<Rightarrow> off_t \<Rightarrow> fs option" where
  "clear_new opened initial_size = do {
     (fp, s) \<leftarrow> opened;
     f \<leftarrow> fp;
     (bw, f, s) \<leftarrow> file_clear s f initial_size;
     file_close s (Some f) }"

definition filesys_create :: "fs \<Rightarrow> (nat \<Rightarrow> bool) \<Rightarrow> bytes \<Rightarrow> off_t \<Rightarrow> u32 \<Rightarrow> bytes \<Rightarrow> (bool \<times> fs) option" where
  "filesys_create s al name initial_size ty junk = do {
     (dir, s) \<leftarrow> dir_open_root s (al 0) (al 1);
     (success, s) \<leftarrow> create_entry s dir name initial_size ty junk;
     s \<leftarrow> dir_close s dir;
     if success then do {
       s \<leftarrow> clear_new (filesys_open s (\<lambda>i. al (i + 2)) name junk) initial_size;
       Some (True, s) }
     else Some (False, s) }"

definition filesys_create_with_dir ::
  "fs \<Rightarrow> (nat \<Rightarrow> bool) \<Rightarrow> dir option \<Rightarrow> bytes \<Rightarrow> off_t \<Rightarrow> u32 \<Rightarrow> bytes \<Rightarrow> (bool \<times> fs) option" where
  "filesys_create_with_dir s al dir name initial_size ty junk = do {
     (success, s) \<leftarrow> create_entry s dir name initial_size ty junk;
     if success then do {
       s \<leftarrow> clear_new (filesys_open_with_dir s al dir name junk) initial_size;
       Some (True, s) }
     else Some (False, s) }"

definition filesys_remove_with_dir :: "fs \<Rightarrow> (nat \<Rightarrow> bool) \<Rightarrow> dir option \<Rightarrow> bytes \<Rightarrow> bytes \<Rightarrow> (bool \<times> fs) option" where
  "filesys_remove_with_dir s al dir name junk =
     (case dir of None \<Rightarrow> Some (False, s) | Some d \<Rightarrow> dir_remove s (al 2) d name junk)"

definition filesys_remove :: "fs \<Rightarrow> (nat \<Rightarrow> bool) \<Rightarrow> bytes \<Rightarrow> bytes \<Rightarrow> (bool \<times> fs) option" where
  "filesys_remove s al name junk = do {
     (dir, s) \<leftarrow> dir_open_root s (al 0) (al 1);
     (success, s) \<leftarrow> (case dir of None \<Rightarrow> Some (False, s) | Some d \<Rightarrow> dir_remove s (al 2) d name junk);
     s \<leftarrow> dir_close s dir;
     Some (success, s) }"

definition do_format :: "fs \<Rightarrow> (nat \<Rightarrow> bool) \<Rightarrow> fs option" where
  "do_format s al = do {
     s \<leftarrow> free_map_create s (al 0) (al 1);
     (ok, s) \<leftarrow> dir_create s ROOT_DIR_SECTOR 24;
     if \<not> ok then PANIC
     else free_map_close s }"

text \<open>\<open>raw\<close> is the storage of the free map; the device of the file system is part of \<open>s\<close>.\<close>

definition filesys_init :: "block_registry \<Rightarrow> bool \<Rightarrow> u32 list option \<Rightarrow> fs \<Rightarrow> (nat \<Rightarrow> bool) \<Rightarrow> fs option" where
  "filesys_init reg format raw s al = do {
     fs_device \<leftarrow> block_get_role reg BLOCK_FILESYS;
     if fs_device = None then PANIC
     else do {
       s \<leftarrow> free_map_init (inode_init s) raw;
       s \<leftarrow> (if format then do_format s al else Some s);
       free_map_open s (al 2) (al 3) } }"

definition filesys_done :: "fs \<Rightarrow> fs option" where
  "filesys_done s = free_map_close s"

section \<open>Opening\<close>

text \<open>Opening and closing the root directory changes no file and leaves the other inodes as they are.\<close>

definition root_wf :: "fs \<Rightarrow> bool" where
  "root_wf s \<longleftrightarrow> table_ok s \<and> cache_inv (bc s) \<and> inode_wf (fview s) (cache_limit (bc s)) ROOT_DIR_SECTOR
     \<and> (\<forall>i n. inodes s i = Some n \<and> in_sector n = ROOT_DIR_SECTOR \<longrightarrow> \<not> removed n)"

lemma open_root_spec:
  assumes "root_wf s"
  shows "\<exists>i n s1. dir_open_root s True True = Some (Some \<lparr>d_inode = i, d_pos = 0\<rparr>, s1) \<and> open_wf s1 i ROOT_DIR_SECTOR
    \<and> bc s1 = bc s \<and> table_ok s1 \<and> inodes s1 i = Some n \<and> in_sector n = ROOT_DIR_SECTOR \<and> \<not> removed n \<and> deny_write_cnt n < open_cnt n"
proof -
  have ok: "table_ok s" using assms by (simp add: root_wf_def)
  obtain i s1 n where o: "inode_open s True ROOT_DIR_SECTOR = Some (Some i, s1)" "table_ok s1" "inodes s1 i = Some n"
    "in_sector n = ROOT_DIR_SECTOR" and up: "if \<exists>j m. inodes s j = Some m \<and> in_sector m = ROOT_DIR_SECTOR
       then \<exists>m. inodes s i = Some m \<and> in_sector m = ROOT_DIR_SECTOR \<and> n = m\<lparr>open_cnt := open_cnt m + 1\<rparr>
         \<and> s1 = s\<lparr>inodes := (inodes s)(i \<mapsto> n)\<rparr>
       else inodes s i = None \<and> open_cnt n = 1 \<and> deny_write_cnt n = 0 \<and> \<not> removed n \<and> open_inodes s1 = i # open_inodes s
         \<and> s1 = s\<lparr>inodes := (inodes s)(i \<mapsto> n), open_inodes := i # open_inodes s, next_inode := i + 1\<rparr>"
    using inode_open_spec [OF ok, of ROOT_DIR_SECTOR] by blast
  have c: "bc s1 = bc s" using inode_open_frame(1) [OF o(1)] .
  have r: "\<not> removed n \<and> deny_write_cnt n < open_cnt n"
  proof (cases "\<exists>j m. inodes s j = Some m \<and> in_sector m = ROOT_DIR_SECTOR")
    case True
    then obtain m where m: "inodes s i = Some m" "in_sector m = ROOT_DIR_SECTOR" "n = m\<lparr>open_cnt := open_cnt m + 1\<rparr>" using up by auto
    have "\<not> removed m" using assms m(1,2) unfolding root_wf_def by blast
    then show ?thesis using m(3) table_okD(4) [OF ok m(1)] by simp
  next
    case False
    then show ?thesis using up by simp
  qed
  have "open_wf s1 i ROOT_DIR_SECTOR" using assms o(3,4) c by (simp add: open_wf_def root_wf_def)
  then show ?thesis using o c r by (intro exI [of _ i] exI [of _ n] exI [of _ s1]) (simp add: dir_open_root_def dir_open_def)
qed

lemma filesys_open_spec:
  assumes root: "root_wf s" and junk: "length junk = 20"
  shows "\<exists>r s'. filesys_open s (\<lambda>_. True) name junk = Some (r, s') \<and> table_ok s' \<and> cache_inv (bc s') \<and> fview s' = fview s
    \<and> cache_limit (bc s') = cache_limit (bc s)
    \<and> (case dir_map (file_data (fview s) ROOT_DIR_SECTOR) name of
        None \<Rightarrow> r = None
      | Some x \<Rightarrow> \<exists>i n. r = Some \<lparr>f_inode = i, f_pos = 0, f_deny_write = False\<rparr> \<and> inodes s' i = Some n \<and> in_sector n = x)"
proof -
  obtain i n s1 where o: "dir_open_root s True True = Some (Some \<lparr>d_inode = i, d_pos = 0\<rparr>, s1)" "open_wf s1 i ROOT_DIR_SECTOR"
    and c: "bc s1 = bc s" "table_ok s1" "inodes s1 i = Some n" "in_sector n = ROOT_DIR_SECTOR" "\<not> removed n" "deny_write_cnt n < open_cnt n"
    using open_root_spec [OF root] by blast
  let ?d = "\<lparr>d_inode = i, d_pos = 0\<rparr>"
  obtain s2 where s2: "same_files s1 s2" "dir_lookup s1 True ?d name junk
      = (case dir_map (file_data (fview s1) ROOT_DIR_SECTOR) name of None \<Rightarrow> Some (None, s2) | Some x \<Rightarrow> inode_open s2 True x)"
    using dir_lookup_spec [of s1 ?d ROOT_DIR_SECTOR junk True name] o(2) junk by auto
  note same = same_filesD [OF s2(1)]
  have ok2: "table_ok s2" using c(2) same by (simp add: table_ok_def)
  have v: "fview s1 = fview s" using c(1) by simp
  show ?thesis
  proof (cases "dir_map (file_data (fview s) ROOT_DIR_SECTOR) name")
    case None
    obtain s3 where s3: "inode_close s2 (Some i) = Some s3" "table_ok s3" "bc s3 = bc s2"
      using inode_close_spec [OF ok2, of i n] same c(3-6) by auto
    then have "filesys_open s (\<lambda>_. True) name junk = Some (None, s3)"
      using o(1) s2(2) None v by (simp add: filesys_open_def dir_close_def file_open_def inode_close_def [of s3])
    then show ?thesis using None s3 same c(1) by simp
  next
    case (Some x)
    obtain j s3 m where j: "inode_open s2 True x = Some (Some j, s3)" "table_ok s3" "inodes s3 j = Some m" "in_sector m = x"
      and up: "if \<exists>k m'. inodes s2 k = Some m' \<and> in_sector m' = x
       then \<exists>m'. inodes s2 j = Some m' \<and> in_sector m' = x \<and> m = m'\<lparr>open_cnt := open_cnt m' + 1\<rparr> \<and> s3 = s2\<lparr>inodes := (inodes s2)(j \<mapsto> m)\<rparr>
       else inodes s2 j = None \<and> open_cnt m = 1 \<and> deny_write_cnt m = 0 \<and> \<not> removed m \<and> open_inodes s3 = j # open_inodes s2
         \<and> s3 = s2\<lparr>inodes := (inodes s2)(j \<mapsto> m), open_inodes := j # open_inodes s2, next_inode := j + 1\<rparr>"
      using inode_open_spec [OF ok2, of x] by blast
    have b: "bc s3 = bc s2" using inode_open_frame(1) [OF j(1)] .
    have "inodes s3 = (inodes s2)(j \<mapsto> m) \<and> (inodes s2 j \<noteq> None \<longrightarrow> m = (the (inodes s2 j))\<lparr>open_cnt := open_cnt (the (inodes s2 j)) + 1\<rparr>)"
    proof (cases "\<exists>k m'. inodes s2 k = Some m' \<and> in_sector m' = x")
      case True
      from up [unfolded if_P [OF True]] show ?thesis by (elim exE conjE) simp
    next
      case False
      from up [unfolded if_not_P [OF False]] show ?thesis by (elim exE conjE) simp
    qed
    then have up1: "inodes s3 = (inodes s2)(j \<mapsto> m)" and up2: "inodes s2 j = Some n' \<Longrightarrow> m = n'\<lparr>open_cnt := open_cnt n' + 1\<rparr>" for n'
      by simp_all
    have i2: "inodes s2 i = Some n" using same c(3) by simp
    obtain n3 where n3: "inodes s3 i = Some n3" "\<not> removed n3" "deny_write_cnt n3 < open_cnt n3" and cnt: "j = i \<Longrightarrow> open_cnt n3 \<noteq> 1"
    proof (cases "j = i")
      case True
      then have "m = n\<lparr>open_cnt := open_cnt n + 1\<rparr>" using up2 i2 by simp
      then show thesis using that [of m] j(3) True c(5,6) table_okD(4) [OF ok2 i2] by simp
    next
      case False
      then have "inodes s3 i = Some n" using up1 i2 by simp
      then show thesis using that [of n] c(5,6) False by simp
    qed
    obtain s4 where s4: "inode_close s3 (Some i) = Some s4" "table_ok s4" "bc s4 = bc s3"
      "inodes s4 = (if open_cnt n3 = 1 then (inodes s3)(i := None) else (inodes s3)(i \<mapsto> n3\<lparr>open_cnt := open_cnt n3 - 1\<rparr>))"
      using inode_close_spec [OF j(2) n3] by blast
    have "\<exists>m'. inodes s4 j = Some m' \<and> in_sector m' = x" using s4(4) j(3,4) cnt n3(1) by (cases "j = i") auto
    moreover have "filesys_open s (\<lambda>_. True) name junk = Some (Some \<lparr>f_inode = j, f_pos = 0, f_deny_write = False\<rparr>, s4)"
      using o(1) s2(2) Some v j(1) s4(1) by (simp add: filesys_open_def dir_close_def file_open_def)
    ultimately show ?thesis using Some s4(2,3) b same(1-3) c(1) by simp
  qed
qed

section \<open>A full disk\<close>

lemma full_map_allocates_nothing:
  assumes "bitmap_inv (free_map s)" and "bitmap_used (free_map s) = {..<bit_cnt (free_map s)}"
  shows "free_map_alloc1 s = Some (None, s)"
proof -
  obtain i b where b: "bitmap_scan_and_flip (free_map s) 0 1 False = Some (i, b)"
    using bm.alloc [OF assms(1), of 1] by blast
  have "i = BITMAP_ERROR" using bm.alloc_fails_iff [OF assms(1) b] assms(2) by auto
  moreover from this have "b = free_map s"
    using bm.alloc [OF assms(1), of 1] bm.error_beyond [OF assms(1)] b by (auto split: if_splits)
  ultimately show ?thesis using b by (simp add: free_map_alloc1_def alloc_depth_def numeral_2_eq_2)
qed

lemma inode_create_needs_a_sector:
  assumes "free_map_alloc1 s = Some (None, s)"
  shows "inode_create s sec len ty = None"
proof (cases "0 \<le> len \<and> len \<le> int INODE_SPAN")
  case True
  then show ?thesis using assms
    by (simp add: inode_create_def extend_file_def extend_loop.simps [of free_map_alloc1 s] extend_step_def PANIC_def)
next
  case False
  then show ?thesis by (cases "0 \<le> len") (simp_all add: inode_create_def extend_file_def PANIC_def)
qed

lemma dir_open_frame: "dir_open s m ino = Some (r, s') \<Longrightarrow> ino \<noteq> None \<Longrightarrow> m \<Longrightarrow> s' = s"
  by (auto simp: dir_open_def split: option.splits)

section \<open>Properties\<close>


text \<open>A disk whose root directory has one entry, \<open>a\<close>, for the file of five bytes in sector 2.\<close>

definition demo_root_contents :: disk_view where
  "demo_root_contents = (\<lambda>_. replicate 512 7)
     (1 := inode_disk_bytes (demo_inode [3] 20), 2 := inode_disk_bytes (demo_inode [4] 5),
      3 := bytes_of_u32 2 @ [97] @ replicate 14 0 @ [1] @ replicate 492 0)"

definition demo_root :: fs where
  "demo_root = \<lparr>bc = cache_init (replicate 64 demo_block) (demo_disk\<lparr>contents := demo_root_contents\<rparr>), inodes = Map.empty,
     open_inodes = [], next_inode = 0, free_map = \<lparr>bit_cnt = 8, bits = [255]\<rparr>, free_map_file = None, running = 1\<rparr>"

lemma demo_root_inodes:
  "inode_at demo_root_contents 1 = demo_inode [3] 20" "inode_at demo_root_contents 2 = demo_inode [4] 5"
  using inode_disk_roundtrip [of "demo_inode [3] 20"] inode_disk_roundtrip [of "demo_inode [4] 5"]
  by (simp_all add: demo_root_contents_def) (simp_all add: demo_inode_def off_t_ok_def inode_consts)

lemma one_sector_inode:
  assumes "inode_at V sec = demo_inode [x] len" and "0 \<le> len" "len \<le> 512" and "sec < lim" "x < lim" "x \<noteq> sec"
  shows "inode_wf V lim sec" "sector_of V (demo_inode [x] len) 0 = x"
proof -
  have len: "0 \<le> len" "len \<le> int INODE_SPAN" using assms(2,3) by (simp_all add: inode_consts)
  have n: "sector_cnt (demo_inode [x] len) = 1"
    using assms(2,3) by (simp add: sector_cnt_def demo_inode_def last_sector_eq [OF len])
  show so: "sector_of V (demo_inode [x] len) 0 = x"
    by (simp_all add: sector_of_def calculate_indices_def inode_consts demo_inode_def)
  have "tables_of V (demo_inode [x] len) 0 = {}" by (simp add: tables_of_def calculate_indices_def inode_consts demo_inode_def)
  then show "inode_wf V lim sec" unfolding inode_wf_def assms(1) Let_def n using so assms len by (simp add: demo_inode_def)
qed

lemma demo_root_cache:
  "cache_inv (bc demo_root)" "fview demo_root = demo_root_contents" "cache_limit (bc demo_root) = 8"
proof -
  have "length (demo_root_contents x) = 512" for x
    using length_inode_disk_bytes [of "demo_inode [3] 20"] length_inode_disk_bytes [of "demo_inode [4] 5"]
      demo_inode_len [of "[3]" 20] demo_inode_len [of "[4]" 5]
    by (simp add: demo_root_contents_def BLOCK_SECTOR_SIZE_def demo_ok_def)
  then have "dev_ok (demo_disk\<lparr>contents := demo_root_contents\<rparr>)"
    by (simp add: dev_ok_def demo_disk_def BLOCK_SECTOR_SIZE_def)
  moreover have "length (replicate 64 demo_block) = CACHE_CNT"
    "\<forall>cb \<in> set (replicate 64 demo_block). length (data cb) = BLOCK_SECTOR_SIZE"
    by (simp_all add: CACHE_CNT_def demo_block_def BLOCK_SECTOR_SIZE_def)
  ultimately show "cache_inv (bc demo_root)" "fview demo_root = demo_root_contents"
    using cache_init_inv by (simp_all add: demo_root_def)
  show "cache_limit (bc demo_root) = 8" by (simp add: demo_root_def cache_init_def demo_disk_def)
qed

lemma demo_root_wf: "root_wf demo_root"
  using one_sector_inode(1) [of demo_root_contents 1 3 20 8] demo_root_inodes(1) demo_root_cache
  by (simp add: root_wf_def ROOT_DIR_SECTOR_def) (simp add: demo_root_def table_ok_def)

lemma demo_root_data:
  "file_data demo_root_contents 1 = take 20 (demo_root_contents 3)" "file_data demo_root_contents 2 = replicate 5 7"
proof -
  have l: "length (demo_root_contents 3) = 512" by (simp add: demo_root_contents_def)
  show "file_data demo_root_contents 1 = take 20 (demo_root_contents 3)"
    using one_sector_inode(2) [of demo_root_contents 1 3 20 8] demo_root_inodes(1) l
    by (intro nth_equalityI) (simp_all add: file_data_def demo_root_inodes file_byte_def, simp_all add: demo_inode_def)
  show "file_data demo_root_contents 2 = replicate 5 7"
    using one_sector_inode(2) [of demo_root_contents 2 4 5 8] demo_root_inodes(2)
    by (intro nth_equalityI) (simp_all add: file_data_def demo_root_inodes file_byte_def demo_root_contents_def, simp_all add: demo_inode_def)
qed

lemma demo_root_map: "dir_map (file_data demo_root_contents 1) [97] = Some 2"
proof -
  have e: "take 20 (demo_root_contents 3) = bytes_of_u32 2 @ [97] @ replicate 14 0 @ [1]"
    by (simp add: demo_root_contents_def bytes_of_u32_def)
  have "entries (take 20 (demo_root_contents 3)) = [take 20 (demo_root_contents 3)]"
    unfolding e by (simp add: entries_def entry_at_def bytes_of_u32_def)
  moreover have "has_name [97] (take 20 (demo_root_contents 3))"
    unfolding e by (simp add: has_name_def e_in_use_def e_name_def bytes_of_u32_def nth_append)
  moreover have "e_sector (take 20 (demo_root_contents 3)) = 2"
    unfolding e e_sector_def by (simp add: u32_of_bytes_def bytes_of_u32_def)
  ultimately show ?thesis unfolding demo_root_data dir_map_def by simp
qed


text \<open>
  C38: creating a file on a full disk stops the kernel. Although the function is documented to return false when it fails, with no free sector the operator \<^verbatim>\<open>&=\<close> goes on to
  create an inode in sector 0, for which there is no data sector either, and \<^verbatim>\<open>inode_create\<close> panics, whatever the name and the size.
\<close>

theorem filesys_create_full_disk_panics:
  assumes "bitmap_inv (free_map s)" and "bitmap_used (free_map s) = {..<bit_cnt (free_map s)}"
    and "dir_open_root s (al 0) (al 1) = Some (Some d, s1)"
  shows "filesys_create s al name initial_size ty junk = None"
proof -
  obtain ino s0 where o: "inode_open s (al 0) ROOT_DIR_SECTOR = Some (ino, s0)" "dir_open s0 (al 1) ino = Some (Some d, s1)"
    using assms(3) by (auto simp: dir_open_root_def split: bind_splits)
  have "s1 = s0" using o(2) by (auto simp: dir_open_def split: option.splits if_splits bind_splits)
  then have fm: "free_map s1 = free_map s" using inode_open_frame(2) [OF o(1)] by simp
  have a: "free_map_alloc1 s1 = Some (None, s1)" by (rule full_map_allocates_nothing) (simp_all add: fm assms)
  then show ?thesis using assms(3) inode_create_needs_a_sector [OF a]
    by (simp add: filesys_create_def create_entry_def)
qed

theorem filesys_create_full_disk_panics_witness:
  "filesys_create demo_root (\<lambda>_. True) [98] 0 FILE_INODE (replicate 20 0) = None"
proof -
  obtain d s1 where d: "dir_open_root demo_root True True = Some (Some d, s1)" using open_root_spec [OF demo_root_wf] by blast
  have "bit (255::u32) i" if "i < 8" for i using that by (simp add: bit_numeral_rec less_numeral_extra eval_nat_numeral less_Suc_eq) auto
  then have "bitmap_used (free_map demo_root) = {..<bit_cnt (free_map demo_root)}"
    by (auto simp: demo_root_def bitmap_used_def bitmap_bit_def)
  moreover have "bitmap_inv (free_map demo_root)"
    by (simp add: demo_root_def bitmap_inv_def elem_cnt_def DIV_ROUND_UP_def ELEM_BITS_def)
  ultimately show ?thesis using filesys_create_full_disk_panics [of demo_root "\<lambda>_. True" d s1] d by simp
qed

end
