(* ===== verification/Pagedir.thy ===== *)
theory Pagedir
  imports Palloc
begin

text \<open>
  Page tables (\<^verbatim>\<open>threads/pte.h\<close>) and page directories (\<^verbatim>\<open>userprog/pagedir.c\<close>): entries are 32-bit words in the
  memory that the page allocator hands out, a directory and its tables are pages of the kernel pool. The
  processor's register CR3 holds the physical address of the active directory; loading it empties the
  TLB, of which \<open>flushes\<close> counts how often that was done. The abstract view of a directory is the map from
  user pages to the frames and rights that its entries describe.
\<close>

section \<open>Entries\<close>

definition PTE_FLAGS :: u32 where "PTE_FLAGS = 0xfff"
definition PTE_ADDR :: u32 where "PTE_ADDR = 0xfffff000"
definition PTE_P :: u32 where "PTE_P = 0x1"
definition PTE_W :: u32 where "PTE_W = 0x2"
definition PTE_U :: u32 where "PTE_U = 0x4"
definition PTE_A :: u32 where "PTE_A = 0x20"
definition PTE_D :: u32 where "PTE_D = 0x40"
definition PTE_G :: u32 where "PTE_G = 0x100"

definition pt_no :: "addr \<Rightarrow> nat" where
  "pt_no va = va div PGSIZE mod 1024"

definition pd_no :: "addr \<Rightarrow> nat" where
  "pd_no va = va div (PGSIZE * 1024)"

definition pde_create_user :: "addr \<Rightarrow> u32 option" where
  "pde_create_user pt = do {
     ASSERT (pg_ofs pt = 0);
     p \<leftarrow> vtop pt;
     Some (word_of_nat p OR PTE_U OR PTE_P OR PTE_W) }"

definition pde_create_kernel :: "addr \<Rightarrow> u32 option" where
  "pde_create_kernel pt = do {
     ASSERT (pg_ofs pt = 0);
     p \<leftarrow> vtop pt;
     Some (word_of_nat p OR PTE_P OR PTE_W OR PTE_G) }"

definition pde_get_pt :: "u32 \<Rightarrow> addr option" where
  "pde_get_pt pde = do { ASSERT (pde AND PTE_P \<noteq> 0); ptov (unat (pde AND PTE_ADDR)) }"

definition pte_create_kernel :: "addr \<Rightarrow> bool \<Rightarrow> u32 option" where
  "pte_create_kernel page writable = do {
     ASSERT (pg_ofs page = 0);
     p \<leftarrow> vtop page;
     Some (word_of_nat p OR PTE_P OR (if writable then PTE_W else 0) OR PTE_G) }"

definition pte_create_user :: "addr \<Rightarrow> bool \<Rightarrow> u32 option" where
  "pte_create_user page writable = do {
     ASSERT (pg_ofs page = 0);
     p \<leftarrow> vtop page;
     Some (word_of_nat p OR PTE_P OR (if writable then PTE_W else 0) OR PTE_U) }"

definition pte_get_page :: "u32 \<Rightarrow> addr option" where
  "pte_get_page pte = ptov (unat (pte AND PTE_ADDR))"

text \<open>A \<^verbatim>\<open>uint32_t\<close> in memory.\<close>

definition load_u32 :: "memory \<Rightarrow> addr \<Rightarrow> u32" where
  "load_u32 m a = u32_of_bytes [m a, m (a + 1), m (a + 2), m (a + 3)]"

definition store_u32 :: "memory \<Rightarrow> addr \<Rightarrow> u32 \<Rightarrow> memory" where
  "store_u32 m a w = m(a := ucast w, a + 1 := ucast (drop_bit 8 w), a + 2 := ucast (drop_bit 16 w), a + 3 := ucast (drop_bit 24 w))"

section \<open>Operations\<close>

record paging =
  pal :: palloc
  cr3 :: addr
  flushes :: nat
  base_page_dir :: addr
  init_ram_pages :: nat

abbreviation mem :: "paging \<Rightarrow> memory" where
  "mem s \<equiv> ram (pal s)"

definition set_mem :: "memory \<Rightarrow> paging \<Rightarrow> paging" where
  "set_mem m s = s\<lparr>pal := (pal s)\<lparr>ram := m\<rparr>\<rparr>"

definition pagedir_create :: "paging \<Rightarrow> (addr \<times> paging) option" where
  "pagedir_create s = do {
     (pd, p) \<leftarrow> palloc_get_page {} (pal s);
     let s = s\<lparr>pal := p\<rparr>;
     if pd \<noteq> NULL then do {
       (_, m) \<leftarrow> memcpy (mem s) pd (base_page_dir s) PGSIZE;
       Some (pd, set_mem m s) }
     else Some (pd, s) }"

text \<open>The address of the entry for \<open>vaddr\<close>, or \<open>NULL\<close>.\<close>

definition lookup_page :: "addr \<Rightarrow> addr \<Rightarrow> bool \<Rightarrow> paging \<Rightarrow> (addr \<times> paging) option" where
  "lookup_page pd vaddr create s = do {
     ASSERT (pd \<noteq> NULL);
     ASSERT (\<not> create \<or> is_user_vaddr vaddr);
     let pde = pd + 4 * pd_no vaddr;
     if load_u32 (mem s) pde = 0 then
       if create then do {
         (pt, p) \<leftarrow> palloc_get_page {PAL_ZERO} (pal s);
         let s = s\<lparr>pal := p\<rparr>;
         if pt = NULL then Some (NULL, s)
         else do {
           e \<leftarrow> pde_create_user pt;
           let s = set_mem (store_u32 (mem s) pde e) s;
           pt \<leftarrow> pde_get_pt (load_u32 (mem s) pde);
           Some (pt + 4 * pt_no vaddr, s) } }
       else Some (NULL, s)
     else do {
       pt \<leftarrow> pde_get_pt (load_u32 (mem s) pde);
       Some (pt + 4 * pt_no vaddr, s) } }"

definition pagedir_set_page :: "addr \<Rightarrow> addr \<Rightarrow> addr \<Rightarrow> bool \<Rightarrow> paging \<Rightarrow> (bool \<times> paging) option" where
  "pagedir_set_page pd upage kpage writable s = do {
     ASSERT (pg_ofs upage = 0);
     ASSERT (pg_ofs kpage = 0);
     ASSERT (is_user_vaddr upage);
     k \<leftarrow> vtop kpage;
     ASSERT (k div PGSIZE < init_ram_pages s);
     ASSERT (pd \<noteq> base_page_dir s);
     (pte, s) \<leftarrow> lookup_page pd upage True s;
     if pte \<noteq> NULL then do {
       ASSERT (load_u32 (mem s) pte AND PTE_P = 0);
       e \<leftarrow> pte_create_user kpage writable;
       Some (True, set_mem (store_u32 (mem s) pte e) s) }
     else Some (False, s) }"

definition pagedir_get_page :: "addr \<Rightarrow> addr \<Rightarrow> paging \<Rightarrow> (addr \<times> paging) option" where
  "pagedir_get_page pd uaddr s = do {
     ASSERT (is_user_vaddr uaddr);
     (pte, s) \<leftarrow> lookup_page pd uaddr False s;
     if pte \<noteq> NULL \<and> load_u32 (mem s) pte AND PTE_P \<noteq> 0 then do {
       p \<leftarrow> pte_get_page (load_u32 (mem s) pte);
       Some (p + pg_ofs uaddr, s) }
     else Some (NULL, s) }"

definition pagedir_activate :: "addr \<Rightarrow> paging \<Rightarrow> paging option" where
  "pagedir_activate pd s = do {
     let pd = (if pd = NULL then base_page_dir s else pd);
     p \<leftarrow> vtop pd;
     Some (s\<lparr>cr3 := p, flushes := flushes s + 1\<rparr>) }"

definition active_pd :: "paging \<Rightarrow> addr option" where
  "active_pd s = ptov (cr3 s)"

definition invalidate_pagedir :: "addr \<Rightarrow> paging \<Rightarrow> paging option" where
  "invalidate_pagedir pd s = do {
     a \<leftarrow> active_pd s;
     if a = pd then pagedir_activate pd s else Some s }"

definition pagedir_clear_page :: "addr \<Rightarrow> addr \<Rightarrow> paging \<Rightarrow> paging option" where
  "pagedir_clear_page pd upage s = do {
     ASSERT (pg_ofs upage = 0);
     ASSERT (is_user_vaddr upage);
     (pte, s) \<leftarrow> lookup_page pd upage False s;
     if pte \<noteq> NULL \<and> load_u32 (mem s) pte AND PTE_P \<noteq> 0 then
       invalidate_pagedir pd (set_mem (store_u32 (mem s) pte (load_u32 (mem s) pte AND NOT PTE_P)) s)
     else Some s }"

definition pagedir_is_dirty :: "addr \<Rightarrow> addr \<Rightarrow> paging \<Rightarrow> (bool \<times> paging) option" where
  "pagedir_is_dirty pd vpage s = do {
     (pte, s) \<leftarrow> lookup_page pd vpage False s;
     Some (pte \<noteq> NULL \<and> load_u32 (mem s) pte AND PTE_D \<noteq> 0, s) }"

definition pagedir_set_dirty :: "addr \<Rightarrow> addr \<Rightarrow> bool \<Rightarrow> paging \<Rightarrow> paging option" where
  "pagedir_set_dirty pd vpage dirty s = do {
     (pte, s) \<leftarrow> lookup_page pd vpage False s;
     if pte \<noteq> NULL then
       if dirty then Some (set_mem (store_u32 (mem s) pte (load_u32 (mem s) pte OR PTE_D)) s)
       else invalidate_pagedir pd (set_mem (store_u32 (mem s) pte (load_u32 (mem s) pte AND NOT PTE_D)) s)
     else Some s }"

definition pagedir_is_accessed :: "addr \<Rightarrow> addr \<Rightarrow> paging \<Rightarrow> (bool \<times> paging) option" where
  "pagedir_is_accessed pd vpage s = do {
     (pte, s) \<leftarrow> lookup_page pd vpage False s;
     Some (pte \<noteq> NULL \<and> load_u32 (mem s) pte AND PTE_A \<noteq> 0, s) }"

definition pagedir_set_accessed :: "addr \<Rightarrow> addr \<Rightarrow> bool \<Rightarrow> paging \<Rightarrow> paging option" where
  "pagedir_set_accessed pd vpage accessed s = do {
     (pte, s) \<leftarrow> lookup_page pd vpage False s;
     if pte \<noteq> NULL then
       if accessed then Some (set_mem (store_u32 (mem s) pte (load_u32 (mem s) pte OR PTE_A)) s)
       else invalidate_pagedir pd (set_mem (store_u32 (mem s) pte (load_u32 (mem s) pte AND NOT PTE_A)) s)
     else Some s }"

text \<open>The loop over the entries of a table, then the loop over the entries of a directory.\<close>

primrec free_entries :: "nat \<Rightarrow> addr \<Rightarrow> palloc \<Rightarrow> palloc option" where
  "free_entries 0 pte p = Some p"
| "free_entries (Suc n) pte p = do {
     p \<leftarrow> (if load_u32 (ram p) pte AND PTE_P \<noteq> 0 then do {
              page \<leftarrow> pte_get_page (load_u32 (ram p) pte);
              palloc_free_page page p }
            else Some p);
     free_entries n (pte + 4) p }"

primrec free_tables :: "nat \<Rightarrow> addr \<Rightarrow> palloc \<Rightarrow> palloc option" where
  "free_tables 0 pde p = Some p"
| "free_tables (Suc n) pde p = do {
     p \<leftarrow> (if load_u32 (ram p) pde AND PTE_P \<noteq> 0 then do {
              pt \<leftarrow> pde_get_pt (load_u32 (ram p) pde);
              p \<leftarrow> free_entries (PGSIZE div 4) pt p;
              palloc_free_page pt p }
            else Some p);
     free_tables n (pde + 4) p }"

definition pagedir_destroy :: "addr \<Rightarrow> paging \<Rightarrow> paging option" where
  "pagedir_destroy pd s =
     (if pd = NULL then Some s
      else do {
        ASSERT (pd \<noteq> base_page_dir s);
        p \<leftarrow> free_tables (pd_no PHYS_BASE) pd (pal s);
        p \<leftarrow> palloc_free_page pd p;
        Some (s\<lparr>pal := p\<rparr>) })"

section \<open>Words\<close>

text \<open>The address and the flags of an entry do not overlap.\<close>

lemma PTE_ADDR_eq: "PTE_ADDR = NOT (mask 12)"
  by (simp add: PTE_ADDR_def mask_eq_exp_minus_1)

lemma word_of_page_low:
  assumes "p mod 4096 = (0::nat)"
  shows "(word_of_nat p :: u32) AND mask 12 = 0"
proof -
  have "take_bit 12 (word_of_nat p :: u32) = word_of_nat (take_bit 12 p)" by (simp add: take_bit_of_nat)
  also have "take_bit 12 p = 0" using assms by (simp add: take_bit_eq_mod)
  finally show ?thesis by (simp add: take_bit_eq_mask)
qed

lemma entry_addr:
  assumes "p mod 4096 = (0::nat)" and "p < 4294967296" and "f AND PTE_ADDR = 0"
  shows "unat ((word_of_nat p OR f) AND PTE_ADDR) = p"
proof -
  let ?w = "word_of_nat p :: u32"
  have "?w AND PTE_ADDR = (?w AND mask 12) OR (?w AND NOT (mask 12))"
    by (simp add: word_of_page_low [OF assms(1)] PTE_ADDR_eq)
  also have "\<dots> = ?w" by (rule bit_word_eqI) (auto simp: bit_simps)
  finally have "(?w OR f) AND PTE_ADDR = ?w" using assms(3) by (simp add: bit.conj_disj_distrib2)
  then show ?thesis using assms(2) by (simp add: unat_of_nat)
qed

lemma entry_flag:
  assumes "p mod 4096 = (0::nat)" and "g AND mask 12 = g"
  shows "(word_of_nat p OR f) AND g = f AND (g :: u32)"
proof -
  have "word_of_nat p AND g = (word_of_nat p AND mask 12) AND g"
    by (metis and.assoc and.commute assms(2))
  then show ?thesis using word_of_page_low [OF assms(1)] by (simp add: bit.conj_disj_distrib2)
qed

lemma u32_of_bytes_zero [simp]: "u32_of_bytes [0, 0, 0, 0] = 0"
  by (simp add: u32_of_bytes_def)

lemma load_store_same [simp]: "load_u32 (store_u32 m a w) a = w"
  using u32_of_bytes_of_u32 [of w] by (simp add: load_u32_def store_u32_def bytes_of_u32_def)

lemma load_store_other: "a mod 4 = 0 \<Longrightarrow> b mod 4 = 0 \<Longrightarrow> a \<noteq> b \<Longrightarrow> load_u32 (store_u32 m a w) b = load_u32 m b"
  unfolding load_u32_def store_u32_def fun_upd_def by (simp, safe; presburger)

lemma load_cong: "(\<And>x. b \<le> x \<Longrightarrow> x < b + 4 \<Longrightarrow> m' x = m x) \<Longrightarrow> load_u32 m' b = load_u32 m b"
  by (simp add: load_u32_def)

lemma store_other: "x < a \<or> a + 4 \<le> x \<Longrightarrow> store_u32 m a w x = m x"
  by (auto simp: store_u32_def)

section \<open>The tree of tables\<close>

text \<open>
  The part of a directory below \<^verbatim>\<open>PHYS_BASE\<close>: its table \<open>i\<close>, and the entry of the user page with number
  \<open>v\<close>. \<open>K\<close> are the numbers of the kernel's pages in use, among which the tables are.
\<close>

definition has_table :: "memory \<Rightarrow> addr \<Rightarrow> nat \<Rightarrow> bool" where
  "has_table m pd i \<longleftrightarrow> load_u32 m (pd + 4 * i) \<noteq> 0"

definition frame_of :: "u32 \<Rightarrow> addr" where
  "frame_of e = unat (e AND PTE_ADDR) + PHYS_BASE"

definition table_at :: "memory \<Rightarrow> addr \<Rightarrow> nat \<Rightarrow> addr" where
  "table_at m pd i = frame_of (load_u32 m (pd + 4 * i))"

definition entry :: "memory \<Rightarrow> addr \<Rightarrow> nat \<Rightarrow> u32" where
  "entry m pd v = (if v < 786432 \<and> has_table m pd (v div 1024)
     then load_u32 m (table_at m pd (v div 1024) + 4 * (v mod 1024)) else 0)"

definition user_map :: "memory \<Rightarrow> addr \<Rightarrow> nat \<rightharpoonup> addr \<times> bool" where
  "user_map m pd v = (if entry m pd v AND PTE_P \<noteq> 0 then Some (frame_of (entry m pd v), entry m pd v AND PTE_W \<noteq> 0) else None)"

definition kernel_pages :: "nat set" where
  "kernel_pages = {786432..<1048576}"

definition pd_wf :: "nat set \<Rightarrow> memory \<Rightarrow> addr \<Rightarrow> bool" where
  "pd_wf K m pd \<longleftrightarrow> K \<subseteq> kernel_pages \<and> pg_ofs pd = 0 \<and> pg_no pd \<in> K
     \<and> (\<forall>i < 768. has_table m pd i \<longrightarrow> load_u32 m (pd + 4 * i) AND PTE_P \<noteq> 0 \<and> pg_no (table_at m pd i) \<in> K - {pg_no pd})
     \<and> (\<forall>i < 768. \<forall>j < 768. has_table m pd i \<and> has_table m pd j \<and> table_at m pd i = table_at m pd j \<longrightarrow> i = j)
     \<and> (\<forall>v. entry m pd v AND PTE_P \<noteq> 0 \<longrightarrow> pg_no (frame_of (entry m pd v)) \<in> kernel_pages)"

lemma frame_aligned: "pg_ofs (frame_of e) = 0"
proof -
  have "take_bit 12 (e AND PTE_ADDR) = 0" unfolding PTE_ADDR_eq by (rule bit_word_eqI) (simp add: bit_simps)
  then have "take_bit 12 (unat (e AND PTE_ADDR)) = 0" by (metis unat_0 unsigned_take_bit_eq)
  then show ?thesis by (simp add: frame_of_def pg_ofs_def PGSIZE_def PHYS_BASE_def take_bit_eq_mod mod_add_left_eq [symmetric])
qed

lemma table_aligned [simp]: "pg_ofs (table_at m pd i) = 0"
  by (simp add: table_at_def frame_aligned)

lemma ptov_frame: "pg_no (frame_of e) \<in> kernel_pages \<Longrightarrow> ptov (unat (e AND PTE_ADDR)) = Some (frame_of e)"
  by (auto simp: ptov_def frame_of_def kernel_pages_def pg_no_def PGSIZE_def PHYS_BASE_def ASSERT_def size_add_def
      div_less_iff_less_mult)

lemma slot_page: "pg_ofs a = 0 \<Longrightarrow> i < 1024 \<Longrightarrow> a + 4 * i \<le> x \<Longrightarrow> x < a + 4 * i + 4 \<Longrightarrow> pg_no x = pg_no a"
  using pg_no_address [of a] unfolding pg_no_def [of x] PGSIZE_def by (intro div_nat_eqI) auto

lemma slot_mod_aux: "4096 * q + 4 * i = 4 * (1024 * q + i) \<and> (4 * (1024 * q + i)) mod 4 = (0::nat)"
  by simp

lemma slot_mod: "pg_ofs a = 0 \<Longrightarrow> (a + 4 * i) mod 4 = 0"
  using pg_no_address [of a] unfolding PGSIZE_def by (metis slot_mod_aux)

lemma slot_inj: "pg_ofs a = 0 \<Longrightarrow> pg_ofs b = 0 \<Longrightarrow> i < 1024 \<Longrightarrow> j < 1024 \<Longrightarrow> a + 4 * i = b + 4 * j \<Longrightarrow> a = b \<and> i = j"
proof -
  assume a: "pg_ofs a = 0" "pg_ofs b = 0" and ij: "i < 1024" "j < 1024" and eq: "a + 4 * i = b + 4 * j"
  have q: "a = 4096 * pg_no a" "b = 4096 * pg_no b" using pg_no_address a by (simp_all add: PGSIZE_def)
  then have e: "1024 * pg_no a + i = 1024 * pg_no b + j" using eq by linarith
  have "pg_no a = pg_no b" using arg_cong [OF e, of "\<lambda>x. x div 1024"] ij by simp
  then show "a = b \<and> i = j" using e q by simp
qed

lemma aligned_eq: "pg_ofs a = 0 \<Longrightarrow> pg_ofs b = 0 \<Longrightarrow> pg_no a = pg_no b \<Longrightarrow> a = b"
  by (metis pg_no_address)

lemma load_slot_other_page:
  assumes "pg_ofs a = 0" "i < 1024" "pg_no a \<in> K" "\<And>x. pg_no x \<in> K \<Longrightarrow> m' x = m x"
  shows "load_u32 m' (a + 4 * i) = load_u32 m (a + 4 * i)"
  by (rule load_cong) (use assms slot_page in metis)

lemma load_store_slot:
  assumes "pg_ofs a = 0" "pg_ofs b = 0" "i < 1024" "j < 1024"
  shows "load_u32 (store_u32 m (a + 4 * i) w) (b + 4 * j) = (if a = b \<and> i = j then w else load_u32 m (b + 4 * j))"
  using assms load_store_other [OF slot_mod slot_mod, of a b i j] slot_inj [OF assms] by auto

lemma pd_wfD:
  assumes "pd_wf K m pd"
  shows "pg_ofs pd = 0" "pg_no pd \<in> K" "K \<subseteq> kernel_pages"
    "i < 768 \<Longrightarrow> has_table m pd i \<Longrightarrow> load_u32 m (pd + 4 * i) AND PTE_P \<noteq> 0"
    "i < 768 \<Longrightarrow> has_table m pd i \<Longrightarrow> pg_no (table_at m pd i) \<in> K"
    "i < 768 \<Longrightarrow> has_table m pd i \<Longrightarrow> table_at m pd i \<noteq> pd"
    "i < 768 \<Longrightarrow> j < 768 \<Longrightarrow> has_table m pd i \<Longrightarrow> has_table m pd j \<Longrightarrow> table_at m pd i = table_at m pd j \<Longrightarrow> i = j"
    "entry m pd v AND PTE_P \<noteq> 0 \<Longrightarrow> pg_no (frame_of (entry m pd v)) \<in> kernel_pages"
proof -
  note wf = assms [unfolded pd_wf_def]
  show "pg_ofs pd = 0" "pg_no pd \<in> K" "K \<subseteq> kernel_pages" using wf by simp_all
  show "load_u32 m (pd + 4 * i) AND PTE_P \<noteq> 0" "pg_no (table_at m pd i) \<in> K" "table_at m pd i \<noteq> pd"
    if "i < 768" "has_table m pd i" using wf that by auto
  show "i = j" if "i < 768" "j < 768" "has_table m pd i" "has_table m pd j" "table_at m pd i = table_at m pd j"
    using wf that by simp
  show "pg_no (frame_of (entry m pd v)) \<in> kernel_pages" if "entry m pd v AND PTE_P \<noteq> 0" using wf that by simp
qed

lemma pd_wf_table:
  "pd_wf K m pd \<Longrightarrow> i < 768 \<Longrightarrow> has_table m pd i \<Longrightarrow> pde_get_pt (load_u32 m (pd + 4 * i)) = Some (table_at m pd i)"
  using ptov_frame [of "load_u32 m (pd + 4 * i)"] pd_wfD [of K m pd]
  by (auto simp: pde_get_pt_def table_at_def)

lemma nonnull: "pg_no a \<in> kernel_pages \<Longrightarrow> a \<noteq> NULL \<and> a + b \<noteq> NULL"
  by (auto simp: pg_no_def kernel_pages_def PGSIZE_def)

text \<open>Memory outside the kernel's used pages does not matter.\<close>

lemma tables_cong:
  assumes wf: "pd_wf K m pd" and eq: "\<And>x. pg_no x \<in> K \<Longrightarrow> m' x = m x"
  shows "i < 768 \<Longrightarrow> has_table m' pd i = has_table m pd i" "i < 768 \<Longrightarrow> table_at m' pd i = table_at m pd i"
    "entry m' pd v = entry m pd v"
proof -
  note D = pd_wfD [OF wf]
  have l: "load_u32 m' (pd + 4 * i) = load_u32 m (pd + 4 * i)" if "i < 768" for i
    using load_slot_other_page [OF D(1) _ D(2) eq] that by simp
  then show t: "has_table m' pd i = has_table m pd i" "table_at m' pd i = table_at m pd i" if "i < 768" for i
    using that by (auto simp: has_table_def table_at_def)
  show "entry m' pd v = entry m pd v"
  proof (cases "v < 786432 \<and> has_table m pd (v div 1024)")
    case True
    then have i: "v div 1024 < 768" "has_table m pd (v div 1024)" by auto
    have "load_u32 m' (table_at m pd (v div 1024) + 4 * (v mod 1024)) = load_u32 m (table_at m pd (v div 1024) + 4 * (v mod 1024))"
      by (rule load_slot_other_page [OF table_aligned _ D(5) [OF i] eq]) simp_all
    then show ?thesis using True t i by (simp add: entry_def)
  next
    case False
    then show ?thesis using t(1) [of "v div 1024"] by (auto simp: entry_def less_mult_imp_div_less)
  qed
qed

lemma pd_wf_cong:
  assumes wf: "pd_wf K m pd" and eq: "\<And>x. pg_no x \<in> K \<Longrightarrow> m' x = m x" and sub: "K \<subseteq> L" "L \<subseteq> kernel_pages"
  shows "pd_wf L m' pd"
proof -
  note D = pd_wfD [OF wf] and t = tables_cong [OF wf eq]
  have l: "load_u32 m' (pd + 4 * i) = load_u32 m (pd + 4 * i)" if "i < 768" for i
    using load_slot_other_page [OF D(1) _ D(2) eq] that by simp
  show ?thesis using wf t sub l unfolding pd_wf_def by (simp add: subset_iff)
qed

text \<open>Storing an entry of a page, and hanging an empty table into the directory.\<close>

lemma store_entry:
  assumes wf: "pd_wf K m pd" and v: "v < 786432" "has_table m pd (v div 1024)"
    and e: "e AND PTE_P \<noteq> 0 \<Longrightarrow> pg_no (frame_of e) \<in> kernel_pages"
  defines "m' \<equiv> store_u32 m (table_at m pd (v div 1024) + 4 * (v mod 1024)) e"
  shows "entry m' pd = (entry m pd)(v := e)" "pd_wf K m' pd"
proof -
  note D = pd_wfD [OF wf]
  have i: "v div 1024 < 768" using v(1) by simp
  have l: "load_u32 m' (pd + 4 * j) = load_u32 m (pd + 4 * j)" if "j < 768" for j
    unfolding m'_def using D(1) D(6) [OF i v(2)] that by (subst load_store_slot) auto
  then have t: "has_table m' pd j = has_table m pd j" "table_at m' pd j = table_at m pd j" if "j < 768" for j
    using that by (auto simp: has_table_def table_at_def)
  show en: "entry m' pd = (entry m pd)(v := e)"
  proof
    fix u
    show "entry m' pd u = ((entry m pd)(v := e)) u"
    proof (cases "u < 786432 \<and> has_table m pd (u div 1024)")
      case True
      then have j: "u div 1024 < 768" "has_table m pd (u div 1024)" by auto
      have "load_u32 m' (table_at m pd (u div 1024) + 4 * (u mod 1024))
          = (if u = v then e else load_u32 m (table_at m pd (u div 1024) + 4 * (u mod 1024)))"
        unfolding m'_def using D(7) [OF i j(1) v(2) j(2)] div_mult_mod_eq [of u 1024] div_mult_mod_eq [of v 1024]
        by (subst load_store_slot) (simp, simp, simp, simp, metis)
      then show ?thesis using True t j by (simp add: entry_def)
    next
      case False
      then have "u \<noteq> v" using v by auto
      then show ?thesis using False t(1) [of "u div 1024"] by (auto simp: entry_def less_mult_imp_div_less)
    qed
  qed
  show "pd_wf K m' pd" using wf e unfolding pd_wf_def by (auto simp: t l en)
qed

lemma vtop_page:
  assumes "pg_ofs k = 0" and "pg_no k \<in> kernel_pages"
  shows "\<exists>p. p mod 4096 = 0 \<and> p < 4294967296 \<and> p + PHYS_BASE = k \<and> vtop k = Some p"
proof (intro exI conjI)
  have k: "k \<ge> PHYS_BASE" "k < 4294967296" using assms(2)
    by (auto simp: pg_no_def kernel_pages_def PGSIZE_def PHYS_BASE_def less_eq_div_iff_mult_less_eq div_less_iff_less_mult)
  have "4096 dvd k" using assms(1) by (simp add: pg_ofs_def PGSIZE_def mod_eq_0_iff_dvd)
  moreover have "4096 dvd PHYS_BASE" by (simp add: PHYS_BASE_def)
  ultimately show "(k - PHYS_BASE) mod 4096 = 0" by (simp only: dvd_diff_nat mod_eq_0_iff_dvd)
  show "k - PHYS_BASE < 4294967296" "k - PHYS_BASE + PHYS_BASE = k" "vtop k = Some (k - PHYS_BASE)"
    using k by (auto simp: vtop_def is_kernel_vaddr_def)
qed

lemma pde_word:
  assumes "pg_ofs t = 0" and "pg_no t \<in> kernel_pages"
  shows "\<exists>e. pde_create_user t = Some e \<and> e \<noteq> 0 \<and> e AND PTE_P \<noteq> 0 \<and> frame_of e = t"
proof -
  define f where "f = PTE_U OR PTE_P OR PTE_W"
  obtain p where p: "p mod 4096 = 0" "p < 4294967296" "p + PHYS_BASE = t" "vtop t = Some p" using vtop_page [OF assms] by metis
  have "f AND PTE_ADDR = 0" by (simp add: f_def PTE_U_def PTE_P_def PTE_W_def PTE_ADDR_def)
  then have "frame_of (word_of_nat p OR f) = t" using entry_addr [OF p(1,2)] p(3) by (simp add: frame_of_def)
  moreover have "(word_of_nat p OR f) AND PTE_P \<noteq> 0"
    by (subst entry_flag [OF p(1)]) (simp_all add: f_def PTE_U_def PTE_P_def PTE_W_def mask_eq_exp_minus_1)
  moreover have "word_of_nat p OR f \<noteq> 0" using calculation(2) by auto
  ultimately show ?thesis using assms(1)
    by (simp add: pde_create_user_def p(4) f_def or.assoc)
qed

lemma pte_word:
  assumes "pg_ofs k = 0" and "pg_no k \<in> kernel_pages"
  shows "\<exists>e. pte_create_user k w = Some e \<and> e AND PTE_P \<noteq> 0 \<and> frame_of e = k \<and> (e AND PTE_W \<noteq> 0 \<longleftrightarrow> w)"
proof -
  define f where "f = PTE_P OR (if w then PTE_W else 0) OR PTE_U"
  obtain p where p: "p mod 4096 = 0" "p < 4294967296" "p + PHYS_BASE = k" "vtop k = Some p" using vtop_page [OF assms] by metis
  have "f AND PTE_ADDR = 0" by (simp add: f_def PTE_U_def PTE_P_def PTE_W_def PTE_ADDR_def)
  then have "frame_of (word_of_nat p OR f) = k" using entry_addr [OF p(1,2)] p(3) by (simp add: frame_of_def)
  moreover have "(word_of_nat p OR f) AND PTE_P \<noteq> 0"
    by (subst entry_flag [OF p(1)]) (simp_all add: f_def PTE_U_def PTE_P_def PTE_W_def mask_eq_exp_minus_1)
  moreover have "(word_of_nat p OR f) AND PTE_W \<noteq> 0 \<longleftrightarrow> w"
    by (subst entry_flag [OF p(1)]) (simp_all add: f_def PTE_U_def PTE_P_def PTE_W_def mask_eq_exp_minus_1)
  ultimately show ?thesis using assms(1)
    by (simp add: pte_create_user_def p(4) f_def or.assoc)
qed

lemma add_table:
  assumes wf: "pd_wf K m pd" and i: "i < 768" "\<not> has_table m pd i"
    and t: "pg_ofs t = 0" "pg_no t \<in> kernel_pages" "pg_no t \<notin> K" and z: "\<And>j. j < 1024 \<Longrightarrow> load_u32 m (t + 4 * j) = 0"
    and e: "frame_of e = t" "e \<noteq> 0" "e AND PTE_P \<noteq> 0"
  defines "m' \<equiv> store_u32 m (pd + 4 * i) e"
  shows "pd_wf (insert (pg_no t) K) m' pd" "entry m' pd = entry m pd" "has_table m' pd i" "table_at m' pd i = t"
proof -
  note D = pd_wfD [OF wf]
  have ne: "t \<noteq> pd" using t D by blast
  have l: "load_u32 m' (pd + 4 * j) = (if j = i then e else load_u32 m (pd + 4 * j))" if "j < 768" for j
    unfolding m'_def using D(1) i that by (subst load_store_slot) auto
  have h: "has_table m' pd j \<longleftrightarrow> j = i \<or> has_table m pd j" if "j < 768" for j using l that e by (simp add: has_table_def)
  have a: "table_at m' pd j = (if j = i then t else table_at m pd j)" if "j < 768" for j using l that e by (simp add: table_at_def)
  show "has_table m' pd i" "table_at m' pd i = t" using h a i by auto
  show en: "entry m' pd = entry m pd"
  proof
    fix u
    have s: "load_u32 m' (b + 4 * k) = load_u32 m (b + 4 * k)" if "pg_ofs b = 0" "b \<noteq> pd" "k < 1024" for b k
      unfolding m'_def using that D(1) i(1) by (subst load_store_slot) auto
    show "entry m' pd u = entry m pd u"
    proof (cases "u < 786432")
      case True
      then have j: "u div 1024 < 768" by simp
      then show ?thesis using True h [OF j] a [OF j] s [of _ "u mod 1024"] ne t(1) z i D(6) [OF j]
        by (auto simp: entry_def)
    qed (simp add: entry_def)
  qed
  have "pg_no (table_at m pd j) \<noteq> pg_no t" if "j < 768" "has_table m pd j" for j using D(5) [OF that] t(3) by auto
  then have "table_at m pd j \<noteq> t" if "j < 768" "has_table m pd j" for j using that by metis
  then show "pd_wf (insert (pg_no t) K) m' pd"
    using wf t e unfolding pd_wf_def by (auto simp: l h a en)
qed

section \<open>The allocator below\<close>

lemma page_range_1 [simp]: "page_range a (Suc 0) = {pg_no a}"
  by (auto simp: page_range_def)

lemma pool_flip_pages:
  "pool_inv p \<Longrightarrow> bitmap_scan_and_flip (used_map p) 0 n False = Some (i, b) \<Longrightarrow> pool_pages (p\<lparr>used_map := b\<rparr>) = pool_pages p"
  using pool_alloc(2) [of p n i b] pool_alloc_fails [of p n b] by (cases "i = BITMAP_ERROR") auto

lemma palloc_get_pools:
  assumes inv: "palloc_inv s" and r: "palloc_get_multiple flags n s = Some (a, s')"
  shows "pool_pages (kernel_pool s') = pool_pages (kernel_pool s)" "pool_pages (user_pool s') = pool_pages (user_pool s)"
    "PAL_USER \<notin> flags \<Longrightarrow> user_pool s' = user_pool s" "PAL_USER \<in> flags \<Longrightarrow> kernel_pool s' = kernel_pool s"
  using inv r pool_flip_pages [of "kernel_pool s" n] pool_flip_pages [of "user_pool s" n]
  by (auto simp: palloc_get_multiple_def palloc_inv_def Let_def PANIC_def split: if_splits bind_splits prod.splits)

text \<open>What is true of a page \<open>a\<close> from the allocator in state \<open>s\<close>, which then is \<open>s'\<close>.\<close>

definition got_page :: "palloc_flags set \<Rightarrow> palloc \<Rightarrow> addr \<Rightarrow> palloc \<Rightarrow> bool" where
  "got_page flags s a s' \<longleftrightarrow> palloc_inv s' \<and> (a = NULL \<longrightarrow> s' = s)
     \<and> (a \<noteq> NULL \<longrightarrow> pg_ofs a = 0 \<and> pg_no a \<notin> used_pages s
          \<and> pg_no a \<in> pool_pages (if PAL_USER \<in> flags then user_pool s else kernel_pool s))
     \<and> pool_used (kernel_pool s') = pool_used (kernel_pool s) \<union> (if PAL_USER \<in> flags \<or> a = NULL then {} else {pg_no a})
     \<and> pool_used (user_pool s') = pool_used (user_pool s) \<union> (if PAL_USER \<notin> flags \<or> a = NULL then {} else {pg_no a})
     \<and> (PAL_USER \<notin> flags \<longrightarrow> user_pool s' = user_pool s) \<and> (PAL_USER \<in> flags \<longrightarrow> kernel_pool s' = kernel_pool s)
     \<and> pool_pages (kernel_pool s') = pool_pages (kernel_pool s) \<and> pool_pages (user_pool s') = pool_pages (user_pool s)
     \<and> (\<forall>x. a = NULL \<or> pg_no x \<noteq> pg_no a \<longrightarrow> ram s' x = ram s x)
     \<and> (\<forall>x. a \<noteq> NULL \<and> PAL_ZERO \<in> flags \<and> pg_no x = pg_no a \<longrightarrow> ram s' x = 0)"

lemma palloc_get_page_spec:
  assumes inv: "palloc_inv s" and fl: "PAL_ASSERT \<notin> flags"
  shows "\<exists>a s'. palloc_get_page flags s = Some (a, s') \<and> got_page flags s a s'"
proof -
  obtain a s' where r: "palloc_get_multiple flags 1 s = Some (a, s')" "palloc_inv s'" "if a = NULL then s' = s
       else pg_ofs a = 0 \<and> page_range a 1 \<inter> used_pages s = {} \<and> used_pages s' = used_pages s \<union> page_range a 1
         \<and> page_range a 1 \<subseteq> pool_pages (if PAL_USER \<in> flags then user_pool s else kernel_pool s)
         \<and> pool_used (if PAL_USER \<in> flags then user_pool s' else kernel_pool s')
             = pool_used (if PAL_USER \<in> flags then user_pool s else kernel_pool s) \<union> page_range a 1
         \<and> ram s' = (if PAL_ZERO \<in> flags then (\<lambda>x. if a \<le> x \<and> x < a + PGSIZE * 1 then 0 else ram s x) else ram s)"
    using palloc_get_multiple_spec [OF inv _ fl, of 1] by auto
  note P = palloc_get_pools [OF inv r(1)]
  have pg: "a \<le> x \<and> x < a + PGSIZE \<longleftrightarrow> pg_no x = pg_no a" if "pg_ofs a = 0" for x
    using that pg_no_address [of a] by (auto simp: pg_no_def PGSIZE_def intro!: div_nat_eqI)
  show ?thesis
  proof (intro exI conjI)
    show "palloc_get_page flags s = Some (a, s')" using r(1) by (simp add: palloc_get_page_def)
    have k: "pool_used (kernel_pool s') = pool_used (kernel_pool s) \<union> (if PAL_USER \<in> flags \<or> a = NULL then {} else {pg_no a})"
      using r(3) P(4) by (auto split: if_splits)
    have u: "pool_used (user_pool s') = pool_used (user_pool s) \<union> (if PAL_USER \<notin> flags \<or> a = NULL then {} else {pg_no a})"
      using r(3) P(3) by (auto split: if_splits)
    have "ram s' x = ram s x" if "a = NULL \<or> pg_no x \<noteq> pg_no a" for x using r(3) pg [of x] that by (auto split: if_splits)
    moreover have "ram s' x = 0" if "a \<noteq> NULL" "PAL_ZERO \<in> flags" "pg_no x = pg_no a" for x
      using r(3) pg [of x] that by (auto split: if_splits)
    ultimately show "got_page flags s a s'" unfolding got_page_def using r(2,3) P k u by (auto split: if_splits)
  qed
qed

section \<open>Refinement\<close>

definition pagedir_inv :: "addr \<Rightarrow> paging \<Rightarrow> bool" where
  "pagedir_inv pd s \<longleftrightarrow> palloc_inv (pal s) \<and> pd \<noteq> base_page_dir s
     \<and> pool_pages (kernel_pool (pal s)) \<subseteq> kernel_pages \<and> pool_pages (user_pool (pal s)) \<subseteq> kernel_pages
     \<and> pd_wf (pool_used (kernel_pool (pal s))) (mem s) pd"

text \<open>What an operation on a directory leaves alone: memory outside the kernel's pool, the user's pool, the settings.\<close>

definition same_user :: "paging \<Rightarrow> paging \<Rightarrow> bool" where
  "same_user s s' \<longleftrightarrow> user_pool (pal s') = user_pool (pal s) \<and> base_page_dir s' = base_page_dir s \<and> init_ram_pages s' = init_ram_pages s
     \<and> (\<forall>x. pg_no x \<notin> pool_pages (kernel_pool (pal s)) \<longrightarrow> mem s' x = mem s x)
     \<and> pool_pages (kernel_pool (pal s')) = pool_pages (kernel_pool (pal s))"

lemma same_user_refl [simp]: "same_user s s"
  by (simp add: same_user_def)

lemma same_user_trans: "same_user s t \<Longrightarrow> same_user t u \<Longrightarrow> same_user s u"
  by (simp add: same_user_def)

lemma pd_pt_no: "pd_no va = pg_no va div 1024" "pt_no va = pg_no va mod 1024"
  by (simp_all add: pd_no_def pt_no_def pg_no_def div_mult2_eq)

lemma user_page: "is_user_vaddr va \<longleftrightarrow> pg_no va < 786432"
  by (simp add: is_user_vaddr_def pg_no_def PHYS_BASE_def PGSIZE_def div_less_iff_less_mult)

lemma set_mem_simps [simp]:
  "pal (set_mem m s) = (pal s)\<lparr>ram := m\<rparr>" "cr3 (set_mem m s) = cr3 s" "flushes (set_mem m s) = flushes s"
  "base_page_dir (set_mem m s) = base_page_dir s" "init_ram_pages (set_mem m s) = init_ram_pages s"
  by (simp_all add: set_mem_def)

lemma palloc_inv_ram [simp]: "palloc_inv (p\<lparr>ram := m\<rparr>) = palloc_inv p"
  by (simp add: palloc_inv_def)

lemma lookup_missing:
  assumes "pagedir_inv pd s" and "is_user_vaddr va" and "\<not> has_table (mem s) pd (pg_no va div 1024)"
  shows "lookup_page pd va False s = Some (NULL, s)"
proof -
  have "pd \<noteq> NULL" using assms(1) pd_wfD(2,3) nonnull [of pd 0] unfolding pagedir_inv_def by blast
  then show ?thesis using assms by (simp add: lookup_page_def pd_pt_no has_table_def)
qed

lemma lookup_present:
  assumes "pagedir_inv pd s" and "is_user_vaddr va" and "has_table (mem s) pd (pg_no va div 1024)"
  shows "lookup_page pd va c s = Some (table_at (mem s) pd (pg_no va div 1024) + 4 * (pg_no va mod 1024), s)"
    "table_at (mem s) pd (pg_no va div 1024) + 4 * (pg_no va mod 1024) \<noteq> NULL"
    "load_u32 (mem s) (table_at (mem s) pd (pg_no va div 1024) + 4 * (pg_no va mod 1024)) = entry (mem s) pd (pg_no va)"
proof -
  have wf: "pd_wf (pool_used (kernel_pool (pal s))) (mem s) pd" using assms(1) by (simp add: pagedir_inv_def)
  have v: "pg_no va < 786432" using assms(2) by (simp add: user_page)
  have i: "pg_no va div 1024 < 768" using v by simp
  have n: "pd \<noteq> NULL" using pd_wfD(2,3) [OF wf] nonnull [of pd 0] by blast
  show "lookup_page pd va c s = Some (table_at (mem s) pd (pg_no va div 1024) + 4 * (pg_no va mod 1024), s)"
    using assms(2,3) n pd_wf_table [OF wf i] by (simp add: lookup_page_def pd_pt_no has_table_def)
  show "table_at (mem s) pd (pg_no va div 1024) + 4 * (pg_no va mod 1024) \<noteq> NULL"
    using nonnull pd_wfD(3) [OF wf] pd_wfD(5) [OF wf i assms(3)] by blast
  show "load_u32 (mem s) (table_at (mem s) pd (pg_no va div 1024) + 4 * (pg_no va mod 1024)) = entry (mem s) pd (pg_no va)"
    using v assms(3) by (simp add: entry_def)
qed

lemma lookup_create:
  assumes inv: "pagedir_inv pd s" and va: "is_user_vaddr va" and no: "\<not> has_table (mem s) pd (pg_no va div 1024)"
  obtains "lookup_page pd va True s = Some (NULL, s)"
  | s' where "lookup_page pd va True s
      = Some (table_at (mem s') pd (pg_no va div 1024) + 4 * (pg_no va mod 1024), s')"
    "pagedir_inv pd s'" "entry (mem s') pd = entry (mem s) pd" "has_table (mem s') pd (pg_no va div 1024)" "same_user s s'"
proof -
  let ?K = "pool_used (kernel_pool (pal s))" and ?i = "pg_no va div 1024"
  have wf: "pd_wf ?K (mem s) pd" and pi: "palloc_inv (pal s)" and sub: "pool_pages (kernel_pool (pal s)) \<subseteq> kernel_pages"
    using inv by (auto simp: pagedir_inv_def)
  have i: "?i < 768" using va by (auto simp: user_page)
  have n: "pd \<noteq> NULL" using pd_wfD(2,3) [OF wf] nonnull [of pd 0] by blast
  have z: "load_u32 (mem s) (pd + 4 * ?i) = 0" using no by (simp add: has_table_def)
  obtain t p where g: "palloc_get_page {PAL_ZERO} (pal s) = Some (t, p)" and got: "got_page {PAL_ZERO} (pal s) t p"
    using palloc_get_page_spec [OF pi, of "{PAL_ZERO}"] by auto
  note got' = got [unfolded got_page_def]
  have r: "ram p x = mem s x" if "t = NULL \<or> pg_no x \<noteq> pg_no t" for x using got' that by blast
  show thesis
  proof (cases "t = NULL")
    case True
    then have "lookup_page pd va True s = Some (NULL, s)" using g got' va n z by (simp add: lookup_page_def pd_pt_no)
    then show thesis by (rule that(1))
  next
    case False
    then have t': "pg_ofs t = 0" "pg_no t \<in> kernel_pages" "pg_no t \<notin> ?K" using got' sub by (auto simp: used_pages_def)
    obtain e where e: "pde_create_user t = Some e" "e \<noteq> 0" "e AND PTE_P \<noteq> 0" "frame_of e = t" using pde_word [OF t'(1,2)] by blast
    have eq: "\<And>x. pg_no x \<in> ?K \<Longrightarrow> ram p x = mem s x" using r t'(3) by metis
    have wf1: "pd_wf ?K (ram p) pd" using pd_wf_cong [OF wf eq order_refl pd_wfD(3) [OF wf]] by simp
    have no1: "\<not> has_table (ram p) pd ?i" using tables_cong(1) [OF wf eq i] no by simp
    have ze: "load_u32 (ram p) (t + 4 * j) = 0" if "j < 1024" for j
      using got' False slot_page [OF t'(1) that] by (simp add: load_u32_def)
    let ?m = "store_u32 (ram p) (pd + 4 * ?i) e"
    let ?s = "set_mem ?m (s\<lparr>pal := p\<rparr>)"
    note a = add_table [OF wf1 i no1 t' ze e(4,2,3)]
    have inv': "pagedir_inv pd ?s" using inv got' a(1) False by (simp add: pagedir_inv_def)
    have "entry (mem ?s) pd v = entry (mem s) pd v" for v using a(2) tables_cong(3) [OF wf eq] by simp
    then have en: "entry (mem ?s) pd = entry (mem s) pd" by (rule ext)
    have "?m x = mem s x" if "pg_no x \<notin> pool_pages (kernel_pool (pal s))" for x
    proof -
      have "pg_no x \<noteq> pg_no t" "pg_no x \<noteq> pg_no pd" using that got' False pd_wfD(2) [OF wf] pool_used_sub [of "kernel_pool (pal s)"] by auto
      then have "x < pd + 4 * ?i \<or> pd + 4 * ?i + 4 \<le> x" using slot_page [OF pd_wfD(1) [OF wf], of ?i x] i by force
      then have "?m x = ram p x" by (rule store_other)
      then show ?thesis using r \<open>pg_no x \<noteq> pg_no t\<close> by simp
    qed
    then have su: "same_user s ?s" using got' by (simp add: same_user_def)
    have "pde_get_pt e = Some t"
      using pd_wf_table [OF a(1) i a(3)] a(4) by simp
    then have "lookup_page pd va True s = Some (table_at (mem ?s) pd ?i + 4 * (pg_no va mod 1024), ?s)"
      using g va n z False e(1) a(4) by (simp add: lookup_page_def pd_pt_no Let_def)
    then show thesis using inv' en a(3) su by (intro that(2)) simp_all
  qed
qed

text \<open>Every operation that stores one entry.\<close>

lemma store_entry_inv:
  assumes inv: "pagedir_inv pd s" and v: "is_user_vaddr va" "has_table (mem s) pd (pg_no va div 1024)"
    and e: "e AND PTE_P \<noteq> 0 \<Longrightarrow> pg_no (frame_of e) \<in> kernel_pages"
  defines "s' \<equiv> set_mem (store_u32 (mem s) (table_at (mem s) pd (pg_no va div 1024) + 4 * (pg_no va mod 1024)) e) s"
  shows "pagedir_inv pd s'" "entry (mem s') pd = (entry (mem s) pd)(pg_no va := e)" "same_user s s'"
proof -
  let ?K = "pool_used (kernel_pool (pal s))" and ?t = "table_at (mem s) pd (pg_no va div 1024)"
  have wf: "pd_wf ?K (mem s) pd" using inv by (simp add: pagedir_inv_def)
  have u: "pg_no va < 786432" using v(1) by (simp add: user_page)
  then have i: "pg_no va div 1024 < 768" by simp
  note st = store_entry [OF wf u v(2) e]
  show "pagedir_inv pd s'" using inv st(2) by (simp add: pagedir_inv_def s'_def)
  show "entry (mem s') pd = (entry (mem s) pd)(pg_no va := e)" using st(1) by (simp add: s'_def)
  have "store_u32 (mem s) (?t + 4 * (pg_no va mod 1024)) e x = mem s x" if "pg_no x \<notin> pool_pages (kernel_pool (pal s))" for x
  proof (rule store_other)
    have "pg_no x \<noteq> pg_no ?t" using that pd_wfD(5) [OF wf i v(2)] pool_used_sub [of "kernel_pool (pal s)"] by auto
    then show "x < ?t + 4 * (pg_no va mod 1024) \<or> ?t + 4 * (pg_no va mod 1024) + 4 \<le> x"
      using slot_page [of ?t "pg_no va mod 1024" x] by force
  qed
  then show "same_user s s'" by (simp add: same_user_def s'_def)
qed

lemma pagedir_set_page_spec:
  assumes inv: "pagedir_inv pd s" and up: "pg_ofs upage = 0" "is_user_vaddr upage" and kp: "pg_ofs kpage = 0" "pg_no kpage \<in> kernel_pages"
    and ram: "pg_no kpage - 786432 < init_ram_pages s" and free: "user_map (mem s) pd (pg_no upage) = None"
  shows "\<exists>ok s'. pagedir_set_page pd upage kpage w s = Some (ok, s') \<and> pagedir_inv pd s' \<and> same_user s s'
    \<and> user_map (mem s') pd = (if ok then (user_map (mem s) pd)(pg_no upage \<mapsto> (kpage, w)) else user_map (mem s) pd)
    \<and> (\<not> ok \<longrightarrow> s' = s)"
proof -
  let ?i = "pg_no upage div 1024" and ?j = "pg_no upage mod 1024"
  obtain e where e: "pte_create_user kpage w = Some e" "e AND PTE_P \<noteq> 0" "frame_of e = kpage" "e AND PTE_W \<noteq> 0 \<longleftrightarrow> w"
    using pte_word [OF kp] by blast
  obtain p where p: "vtop kpage = Some p" "p + PHYS_BASE = kpage" using vtop_page [OF kp] by metis
  have "pg_no kpage = p div PGSIZE + 786432" using p(2) by (simp add: pg_no_def PHYS_BASE_def PGSIZE_def)
  then have lim: "p div PGSIZE < init_ram_pages s" using ram by simp
  have store: "\<exists>s'. pagedir_set_page pd upage kpage w s = Some (True, s') \<and> pagedir_inv pd s' \<and> same_user s s'
      \<and> user_map (mem s') pd = (user_map (mem s) pd)(pg_no upage \<mapsto> (kpage, w))"
    if l: "lookup_page pd upage True s = Some (table_at (mem t) pd ?i + 4 * ?j, t)" and t: "pagedir_inv pd t"
      "entry (mem t) pd = entry (mem s) pd" "has_table (mem t) pd ?i" "same_user s t" for t
  proof -
    note pr = lookup_present(2,3) [OF t(1) up(2) t(3)]
    have "entry (mem s) pd (pg_no upage) AND PTE_P = 0" using free by (simp add: user_map_def split: if_splits)
    then have z: "load_u32 (mem t) (table_at (mem t) pd ?i + 4 * ?j) AND PTE_P = 0" using pr(2) t(2) by simp
    note st = store_entry_inv [OF t(1) up(2) t(3), of e]
    let ?s = "set_mem (store_u32 (mem t) (table_at (mem t) pd ?i + 4 * ?j) e) t"
    have en: "entry (mem ?s) pd = (entry (mem s) pd)(pg_no upage := e)" using st(2) e(3) kp(2) t(2) by simp
    have um: "user_map (mem ?s) pd = (user_map (mem s) pd)(pg_no upage \<mapsto> (kpage, w))"
      unfolding user_map_def en using e by (auto simp: fun_eq_iff)
    have "pagedir_set_page pd upage kpage w s = Some (True, ?s)"
      using l z pr(1) up kp(1) p(1) lim e(1) inv by (simp add: pagedir_set_page_def pagedir_inv_def)
    moreover have "pagedir_inv pd ?s" "same_user s ?s" using st(1,3) e(3) kp(2) same_user_trans [OF t(4)] by simp_all
    ultimately show ?thesis using um by blast
  qed
  show ?thesis
  proof (cases "has_table (mem s) pd ?i")
    case True
    then show ?thesis using store [OF lookup_present(1) [OF inv up(2) True] inv refl True same_user_refl] by auto
  next
    case False
    then show ?thesis
    proof (rule lookup_create [OF inv up(2)])
      assume "lookup_page pd upage True s = Some (NULL, s)"
      then have "pagedir_set_page pd upage kpage w s = Some (False, s)"
        using up kp(1) p(1) lim inv by (simp add: pagedir_set_page_def pagedir_inv_def)
      then show ?thesis using inv by auto
    qed (use store in fastforce)
  qed
qed

lemma pagedir_get_page_spec:
  assumes inv: "pagedir_inv pd s" and ua: "is_user_vaddr uaddr"
  shows "pagedir_get_page pd uaddr s = Some (case user_map (mem s) pd (pg_no uaddr) of None \<Rightarrow> NULL | Some (k, _) \<Rightarrow> k + pg_ofs uaddr, s)"
proof (cases "has_table (mem s) pd (pg_no uaddr div 1024)")
  case True
  note l = lookup_present [OF inv ua True]
  have "pg_no (frame_of (entry (mem s) pd (pg_no uaddr))) \<in> kernel_pages" if "entry (mem s) pd (pg_no uaddr) AND PTE_P \<noteq> 0"
    using pd_wfD(8) inv that unfolding pagedir_inv_def by blast
  then show ?thesis using l ua ptov_frame [of "entry (mem s) pd (pg_no uaddr)"]
    by (simp add: pagedir_get_page_def user_map_def pte_get_page_def)
next
  case False
  then have "user_map (mem s) pd (pg_no uaddr) = None" by (simp add: user_map_def entry_def)
  then show ?thesis using lookup_missing [OF inv ua False] ua by (simp add: pagedir_get_page_def)
qed

text \<open>The TLB is emptied if the directory is the active one.\<close>

definition cr3_valid :: "paging \<Rightarrow> bool" where
  "cr3_valid s \<longleftrightarrow> cr3 s < 1073741824"

definition flushed :: "addr \<Rightarrow> paging \<Rightarrow> paging" where
  "flushed pd s = (if cr3 s + PHYS_BASE = pd then s\<lparr>flushes := flushes s + 1\<rparr> else s)"

lemma invalidate_spec:
  assumes "cr3_valid s" and "pg_ofs pd = 0" "pg_no pd \<in> kernel_pages"
  shows "invalidate_pagedir pd s = Some (flushed pd s)"
proof -
  obtain p where p: "vtop pd = Some p" "p + PHYS_BASE = pd" using vtop_page [OF assms(2,3)] by metis
  have "active_pd s = Some (cr3 s + PHYS_BASE)" using assms(1) by (simp add: active_pd_def ptov_def cr3_valid_def PHYS_BASE_def)
  moreover have "pd \<noteq> NULL" using nonnull [OF assms(3)] by blast
  ultimately show ?thesis using p by (auto simp: invalidate_pagedir_def pagedir_activate_def flushed_def)
qed

lemma flushed_inv [simp]: "pagedir_inv pd (flushed pd' s) = pagedir_inv pd s" "pal (flushed pd' s) = pal s"
  "same_user t (flushed pd' s) = same_user t s"
  by (simp_all add: flushed_def pagedir_inv_def same_user_def)

lemma pagedir_page: "pagedir_inv pd s \<Longrightarrow> pg_ofs pd = 0 \<and> pg_no pd \<in> kernel_pages"
  unfolding pagedir_inv_def using pd_wfD(1-3) by blast

lemma NOT_present: "(e AND NOT PTE_P) AND PTE_P = (0::u32)"
  by (simp add: and.assoc)

lemma pagedir_clear_page_spec:
  assumes inv: "pagedir_inv pd s" and cr: "cr3_valid s" and up: "pg_ofs upage = 0" "is_user_vaddr upage"
  shows "\<exists>s'. pagedir_clear_page pd upage s = Some (if user_map (mem s) pd (pg_no upage) = None then s else flushed pd s')
    \<and> pagedir_inv pd s' \<and> same_user s s' \<and> cr3 s' = cr3 s \<and> user_map (mem s') pd = (user_map (mem s) pd)(pg_no upage := None)"
proof (cases "user_map (mem s) pd (pg_no upage)")
  case None
  have "pagedir_clear_page pd upage s = Some s"
  proof (cases "has_table (mem s) pd (pg_no upage div 1024)")
    case True
    then show ?thesis using None lookup_present [OF inv up(2) True] up
      by (simp add: pagedir_clear_page_def user_map_def split: if_splits)
  next
    case False
    then show ?thesis using lookup_missing [OF inv up(2) False] up by (simp add: pagedir_clear_page_def)
  qed
  then show ?thesis using None inv by (intro exI [of _ s]) (auto simp: fun_eq_iff)
next
  case (Some kw)
  let ?e = "entry (mem s) pd (pg_no upage)" and ?i = "pg_no upage div 1024"
  have P: "?e AND PTE_P \<noteq> 0" using Some by (simp add: user_map_def split: if_splits)
  then have t: "has_table (mem s) pd ?i" by (simp add: entry_def split: if_splits)
  note l = lookup_present [OF inv up(2) t]
  let ?s = "set_mem (store_u32 (mem s) (table_at (mem s) pd ?i + 4 * (pg_no upage mod 1024)) (?e AND NOT PTE_P)) s"
  note st = store_entry_inv [OF inv up(2) t, of "?e AND NOT PTE_P"]
  have "invalidate_pagedir pd ?s = Some (flushed pd ?s)"
    by (rule invalidate_spec) (use pagedir_page [OF inv] cr in \<open>simp_all add: cr3_valid_def\<close>)
  then have "pagedir_clear_page pd upage s = Some (flushed pd ?s)" using l P up by (simp add: pagedir_clear_page_def)
  moreover have "user_map (mem ?s) pd = (user_map (mem s) pd)(pg_no upage := None)"
    using st(2) unfolding user_map_def by (auto simp: fun_eq_iff NOT_present)
  moreover have "pagedir_inv pd ?s" "same_user s ?s" using st(1,3) by (simp_all add: NOT_present)
  ultimately show ?thesis using Some by (intro exI [of _ ?s]) simp
qed

section \<open>The interface\<close>

text \<open>
  What the loader of processes relies on: a state with a map from user pages to frames, whose pages can
  be looked up, added and removed one at a time.
\<close>

locale page_map =
  fixes inv :: "'s \<Rightarrow> bool" and view :: "'s \<Rightarrow> nat \<rightharpoonup> addr \<times> bool" and frame_ok :: "'s \<Rightarrow> addr \<Rightarrow> bool"
    and get :: "addr \<Rightarrow> 's \<Rightarrow> (addr \<times> 's) option" and put :: "addr \<Rightarrow> addr \<Rightarrow> bool \<Rightarrow> 's \<Rightarrow> (bool \<times> 's) option"
    and same :: "'s \<Rightarrow> 's \<Rightarrow> bool"
  assumes view_frame: "inv s \<Longrightarrow> view s v = Some (k, w) \<Longrightarrow> k \<noteq> NULL"
    and get: "inv s \<Longrightarrow> is_user_vaddr u \<Longrightarrow> get u s = Some (case view s (pg_no u) of None \<Rightarrow> NULL | Some (k, _) \<Rightarrow> k + pg_ofs u, s)"
    and put: "inv s \<Longrightarrow> pg_ofs u = 0 \<Longrightarrow> is_user_vaddr u \<Longrightarrow> frame_ok s k \<Longrightarrow> view s (pg_no u) = None
      \<Longrightarrow> \<exists>ok s'. put u k w s = Some (ok, s') \<and> inv s' \<and> same s s'
        \<and> view s' = (if ok then (view s)(pg_no u \<mapsto> (k, w)) else view s) \<and> (\<not> ok \<longrightarrow> s' = s)"
    and same_refl: "same s s"
begin

lemma install:
  assumes "inv s" and "pg_ofs u = 0" "is_user_vaddr u" and "frame_ok s k"
  shows "\<exists>ok s'. (do { (p, s) \<leftarrow> get u s; if p = NULL then put u k w s else Some (False, s) }) = Some (ok, s')
    \<and> inv s' \<and> same s s' \<and> (if ok then view s (pg_no u) = None \<and> view s' = (view s)(pg_no u \<mapsto> (k, w)) else s' = s)"
proof (cases "view s (pg_no u)")
  case None
  then have "get u s = Some (NULL, s)" using get [OF assms(1,3)] by simp
  then show ?thesis using put [OF assms None, of w] None by (simp cong: if_cong) metis
next
  case (Some kw)
  then have "get u s = Some (fst kw + pg_ofs u, s)" "fst kw \<noteq> NULL"
    using get [OF assms(1,3)] view_frame [OF assms(1), of "pg_no u" "fst kw" "snd kw"] by (simp_all add: case_prod_unfold)
  then show ?thesis using assms(1) same_refl by (intro exI [of _ False] exI [of _ s]) simp
qed

lemma get_after_put:
  assumes "inv s" "pg_ofs u = 0" "is_user_vaddr u" "frame_ok s k" "view s (pg_no u) = None" "put u k w s = Some (True, s')"
    and "is_user_vaddr a"
  shows "get a s' = (if pg_no a = pg_no u then Some (k + pg_ofs a, s') else do { (p, _) \<leftarrow> get a s; Some (p, s') })"
proof -
  have "inv s'" and v: "view s' = (view s)(pg_no u \<mapsto> (k, w))" using put [OF assms(1-5), of w] assms(6) by auto
  then show ?thesis using get [OF \<open>inv s'\<close> assms(7)] get [OF assms(1,7)] by simp
qed

end

lemma frame_of_nonnull: "frame_of e \<noteq> NULL"
  by (simp add: frame_of_def PHYS_BASE_def)

definition frame_fits :: "paging \<Rightarrow> addr \<Rightarrow> bool" where
  "frame_fits s k \<longleftrightarrow> pg_ofs k = 0 \<and> pg_no k \<in> kernel_pages \<and> pg_no k - 786432 < init_ram_pages s"

interpretation pm: page_map "pagedir_inv pd" "\<lambda>s. user_map (mem s) pd" frame_fits "pagedir_get_page pd" "pagedir_set_page pd" same_user
  for pd
proof unfold_locales
  show "k \<noteq> NULL" if "user_map (mem s) pd v = Some (k, w)" for s v k w
    using that frame_of_nonnull [of "entry (mem s) pd v"] by (auto simp: user_map_def split: if_splits)
qed (use pagedir_get_page_spec pagedir_set_page_spec in \<open>auto simp: frame_fits_def\<close>)

section \<open>Creation\<close>

text \<open>The kernel's own directory maps nothing below \<^verbatim>\<open>PHYS_BASE\<close>.\<close>

definition base_ok :: "paging \<Rightarrow> bool" where
  "base_ok s \<longleftrightarrow> palloc_inv (pal s) \<and> pool_pages (kernel_pool (pal s)) \<subseteq> kernel_pages
     \<and> pool_pages (user_pool (pal s)) \<subseteq> kernel_pages \<and> pg_ofs (base_page_dir s) = 0
     \<and> pg_no (base_page_dir s) \<in> pool_used (kernel_pool (pal s))
     \<and> (\<forall>i < 768. load_u32 (mem s) (base_page_dir s + 4 * i) = 0)"

lemma page_disjoint: "pg_ofs a = 0 \<Longrightarrow> pg_ofs b = 0 \<Longrightarrow> a \<noteq> b \<Longrightarrow> a + PGSIZE \<le> b \<or> b + PGSIZE \<le> a"
proof -
  assume "pg_ofs a = 0" "pg_ofs b = 0" "a \<noteq> b"
  moreover then have "a = 4096 * pg_no a" "b = 4096 * pg_no b" using pg_no_address by (simp_all add: PGSIZE_def)
  ultimately show ?thesis unfolding PGSIZE_def by (cases "pg_no a" "pg_no b" rule: linorder_cases) linarith+
qed

lemma empty_pd_wf:
  assumes "K \<subseteq> kernel_pages" "pg_ofs pd = 0" "pg_no pd \<in> K" and z: "\<And>i. i < 768 \<Longrightarrow> load_u32 m (pd + 4 * i) = 0"
  shows "pd_wf K m pd" "user_map m pd = Map.empty"
proof -
  have h: "\<not> has_table m pd i" if "i < 768" for i using z that by (simp add: has_table_def)
  then have "entry m pd v = 0" for v by (cases "v < 786432") (auto simp: entry_def less_mult_imp_div_less)
  then show "pd_wf K m pd" "user_map m pd = Map.empty" using h assms by (auto simp: pd_wf_def user_map_def)
qed

lemma pagedir_create_spec:
  assumes base: "base_ok s"
  shows "\<exists>pd s'. pagedir_create s = Some (pd, s') \<and> base_ok s' \<and> user_pool (pal s') = user_pool (pal s)
    \<and> (pd = NULL \<longrightarrow> s' = s)
    \<and> (pd \<noteq> NULL \<longrightarrow> pagedir_inv pd s' \<and> user_map (mem s') pd = Map.empty \<and> pg_no pd \<notin> used_pages (pal s)
        \<and> (\<forall>i < 1024. load_u32 (mem s') (pd + 4 * i) = load_u32 (mem s) (base_page_dir s + 4 * i)))"
proof -
  let ?b = "base_page_dir s" and ?K = "pool_used (kernel_pool (pal s))"
  have pi: "palloc_inv (pal s)" and sub: "pool_pages (kernel_pool (pal s)) \<subseteq> kernel_pages" and b: "pg_ofs ?b = 0" "pg_no ?b \<in> ?K"
    using base by (auto simp: base_ok_def)
  obtain pd p where g: "palloc_get_page {} (pal s) = Some (pd, p)" and got: "got_page {} (pal s) pd p"
    using palloc_get_page_spec [OF pi, of "{}"] by auto
  note got' = got [unfolded got_page_def]
  show ?thesis
  proof (cases "pd = NULL")
    case True
    then show ?thesis using g got' base by (simp add: pagedir_create_def)
  next
    case False
    have a: "pg_ofs pd = 0" "pg_no pd \<in> pool_pages (kernel_pool (pal s))" "pg_no pd \<notin> used_pages (pal s)" using got' False by auto
    have ne: "pd \<noteq> ?b" using a(3) b(2) by (auto simp: used_pages_def)
    let ?m = "copied (ram p) pd ?b PGSIZE"
    have nb: "?b \<noteq> NULL" using nonnull [of ?b 0] b(2) sub pool_used_sub by blast
    have "pagedir_create s = Some (pd, set_mem ?m (s\<lparr>pal := p\<rparr>))"
      using g False nb copy_up_eq [of pd ?b PGSIZE "ram p"] page_disjoint [OF a(1) b(1) ne]
      by (auto simp: pagedir_create_def memcpy_def)
    moreover have keep: "?m x = mem s x" if "pg_no x \<noteq> pg_no pd" for x
    proof -
      have "ram p x = mem s x" using got' that by blast
      moreover have "\<not> (pd \<le> x \<and> x < pd + PGSIZE)"
        using that a(1) pg_no_address [of pd] by (auto simp: pg_no_def PGSIZE_def intro!: div_nat_eqI)
      ultimately show ?thesis by (auto simp: copied_def)
    qed
    moreover have same: "load_u32 ?m (pd + 4 * i) = load_u32 (mem s) (?b + 4 * i)" if "i < 1024" for i
    proof -
      have c: "?m (pd + k) = mem s (?b + k)" if k: "k < PGSIZE" for k
      proof -
        have "pg_no (?b + k) = pg_no ?b"
          using k pg_no_address [OF b(1)] by (auto simp: pg_no_def [of "?b + k"] PGSIZE_def intro!: div_nat_eqI)
        moreover have "pg_no pd \<noteq> pg_no ?b" using aligned_eq [OF a(1) b(1)] ne by blast
        ultimately have "ram p (?b + k) = mem s (?b + k)" using got' by (metis (no_types))
        then show ?thesis using k by (simp add: copied_def)
      qed
      show ?thesis using that c [of "4 * i"] c [of "4 * i + 1"] c [of "4 * i + 2"] c [of "4 * i + 3"]
        by (simp add: load_u32_def PGSIZE_def ac_simps)
    qed
    moreover have wf: "pd_wf (pool_used (kernel_pool p)) ?m pd" "user_map ?m pd = Map.empty"
      by (rule empty_pd_wf; use got' False a same base sub pool_used_sub in \<open>auto simp: base_ok_def\<close>)+
    moreover have "load_u32 ?m (?b + 4 * i) = load_u32 (mem s) (?b + 4 * i)" if "i < 768" for i
    proof (rule load_slot_other_page [of ?b i "{pg_no ?b}"])
      show "?m x = mem s x" if "pg_no x \<in> {pg_no ?b}" for x using that keep aligned_eq [OF a(1) b(1)] ne by (metis singletonD)
    qed (use b that in simp_all)
    ultimately show ?thesis using got' False ne base a(3)
      by (intro exI [of _ pd] exI [of _ "set_mem ?m (s\<lparr>pal := p\<rparr>)"]) (auto simp: base_ok_def pagedir_inv_def)
  qed
qed

section \<open>Dirty and accessed\<close>

text \<open>The bits of an entry that the processor sets do not change what it maps.\<close>

lemma set_bit_spec:
  assumes inv: "pagedir_inv pd s" and va: "is_user_vaddr va" and t: "has_table (mem s) pd (pg_no va div 1024)"
    and e: "e AND PTE_P = entry (mem s) pd (pg_no va) AND PTE_P" "e AND PTE_W = entry (mem s) pd (pg_no va) AND PTE_W"
      "e AND PTE_ADDR = entry (mem s) pd (pg_no va) AND PTE_ADDR"
  defines "s' \<equiv> set_mem (store_u32 (mem s) (table_at (mem s) pd (pg_no va div 1024) + 4 * (pg_no va mod 1024)) e) s"
  shows "pagedir_inv pd s' \<and> same_user s s' \<and> user_map (mem s') pd = user_map (mem s) pd
    \<and> entry (mem s') pd = (entry (mem s) pd)(pg_no va := e) \<and> has_table (mem s') pd (pg_no va div 1024)"
proof -
  have wf: "pd_wf (pool_used (kernel_pool (pal s))) (mem s) pd" using inv by (simp add: pagedir_inv_def)
  have f: "frame_of e = frame_of (entry (mem s) pd (pg_no va))" using e(3) by (simp add: frame_of_def)
  then have k: "e AND PTE_P \<noteq> 0 \<Longrightarrow> pg_no (frame_of e) \<in> kernel_pages" using pd_wfD(8) [OF wf] e(1) by simp
  note st = store_entry_inv [OF inv va t, of e, folded s'_def, OF k]
  have um: "user_map (mem s') pd = user_map (mem s) pd"
    using st(2) e f unfolding user_map_def by (auto simp: fun_eq_iff)
  have i: "pg_no va div 1024 < 768" using va by (auto simp: user_page)
  have "load_u32 (mem s') (pd + 4 * (pg_no va div 1024)) = load_u32 (mem s) (pd + 4 * (pg_no va div 1024))"
    using pd_wfD(1) [OF wf] pd_wfD(6) [OF wf i t] i by (simp add: s'_def load_store_slot)
  then show ?thesis using st um t by (simp add: has_table_def)
qed

lemma bits_apart:
  "(e OR PTE_D) AND PTE_P = e AND PTE_P" "(e OR PTE_D) AND PTE_W = e AND PTE_W" "(e OR PTE_D) AND PTE_ADDR = e AND PTE_ADDR"
  "(e AND NOT PTE_D) AND PTE_P = e AND PTE_P" "(e AND NOT PTE_D) AND PTE_W = e AND PTE_W" "(e AND NOT PTE_D) AND PTE_ADDR = e AND PTE_ADDR"
  "(e OR PTE_A) AND PTE_P = e AND PTE_P" "(e OR PTE_A) AND PTE_W = e AND PTE_W" "(e OR PTE_A) AND PTE_ADDR = e AND PTE_ADDR"
  "(e AND NOT PTE_A) AND PTE_P = e AND PTE_P" "(e AND NOT PTE_A) AND PTE_W = e AND PTE_W" "(e AND NOT PTE_A) AND PTE_ADDR = e AND PTE_ADDR"
  "(e OR PTE_D) AND PTE_D \<noteq> 0" "(e AND NOT PTE_D) AND PTE_D = 0" "(e OR PTE_A) AND PTE_A \<noteq> 0" "(e AND NOT PTE_A) AND PTE_A = 0"
  by (simp_all add: bit.conj_disj_distrib2 and.assoc PTE_D_def PTE_A_def PTE_P_def PTE_W_def PTE_ADDR_def)

lemma bits_nonzero: "PTE_D \<noteq> 0" "PTE_A \<noteq> 0"
  by (simp_all add: PTE_D_def PTE_A_def)

lemma is_dirty_eq:
  "pagedir_inv pd s \<Longrightarrow> is_user_vaddr va \<Longrightarrow> has_table (mem s) pd (pg_no va div 1024)
    \<Longrightarrow> pagedir_is_dirty pd va s = Some (entry (mem s) pd (pg_no va) AND PTE_D \<noteq> 0, s)"
  using lookup_present [of pd s va] by (simp add: pagedir_is_dirty_def)

lemma pagedir_dirty_spec:
  assumes inv: "pagedir_inv pd s" and cr: "cr3_valid s" and va: "is_user_vaddr va"
  shows "\<exists>s'. pagedir_set_dirty pd va d s = Some s' \<and> pagedir_inv pd s' \<and> same_user s s' \<and> user_map (mem s') pd = user_map (mem s) pd
    \<and> (has_table (mem s) pd (pg_no va div 1024) \<longrightarrow> pagedir_is_dirty pd va s' = Some (d, s'))"
proof (cases "has_table (mem s) pd (pg_no va div 1024)")
  case True
  let ?e = "if d then entry (mem s) pd (pg_no va) OR PTE_D else entry (mem s) pd (pg_no va) AND NOT PTE_D"
  let ?s = "set_mem (store_u32 (mem s) (table_at (mem s) pd (pg_no va div 1024) + 4 * (pg_no va mod 1024)) ?e) s"
  have b: "pagedir_inv pd ?s \<and> same_user s ?s \<and> user_map (mem ?s) pd = user_map (mem s) pd
      \<and> entry (mem ?s) pd = (entry (mem s) pd)(pg_no va := ?e) \<and> has_table (mem ?s) pd (pg_no va div 1024)"
    by (rule set_bit_spec [OF inv va True]) (simp_all add: bits_apart)
  note l = lookup_present [OF inv va True]
  let ?r = "if d then ?s else flushed pd ?s"
  have "invalidate_pagedir pd ?s = Some (flushed pd ?s)"
    by (rule invalidate_spec) (use pagedir_page [OF inv] cr in \<open>simp_all add: cr3_valid_def\<close>)
  then have r: "pagedir_set_dirty pd va d s = Some ?r" using l by (cases d) (simp_all add: pagedir_set_dirty_def)
  have r': "pagedir_inv pd ?r" "mem ?r = mem ?s" "same_user s ?r" using b by (auto simp del: set_mem_simps)
  have "entry (mem ?r) pd (pg_no va) AND PTE_D \<noteq> 0 \<longleftrightarrow> d" "has_table (mem ?r) pd (pg_no va div 1024)"
    unfolding r'(2) using b by (simp_all add: bits_apart bits_nonzero del: set_mem_simps)
  then have "pagedir_is_dirty pd va ?r = Some (d, ?r)" using is_dirty_eq [OF r'(1) va] by (simp del: set_mem_simps)
  then show ?thesis using r r' b by (metis (no_types, lifting))
next
  case False
  then show ?thesis using lookup_missing [OF inv va False] inv by (simp add: pagedir_set_dirty_def)
qed

lemma is_accessed_eq:
  "pagedir_inv pd s \<Longrightarrow> is_user_vaddr va \<Longrightarrow> has_table (mem s) pd (pg_no va div 1024)
    \<Longrightarrow> pagedir_is_accessed pd va s = Some (entry (mem s) pd (pg_no va) AND PTE_A \<noteq> 0, s)"
  using lookup_present [of pd s va] by (simp add: pagedir_is_accessed_def)

lemma pagedir_accessed_spec:
  assumes inv: "pagedir_inv pd s" and cr: "cr3_valid s" and va: "is_user_vaddr va"
  shows "\<exists>s'. pagedir_set_accessed pd va d s = Some s' \<and> pagedir_inv pd s' \<and> same_user s s' \<and> user_map (mem s') pd = user_map (mem s) pd
    \<and> (has_table (mem s) pd (pg_no va div 1024) \<longrightarrow> pagedir_is_accessed pd va s' = Some (d, s'))"
proof (cases "has_table (mem s) pd (pg_no va div 1024)")
  case True
  let ?e = "if d then entry (mem s) pd (pg_no va) OR PTE_A else entry (mem s) pd (pg_no va) AND NOT PTE_A"
  let ?s = "set_mem (store_u32 (mem s) (table_at (mem s) pd (pg_no va div 1024) + 4 * (pg_no va mod 1024)) ?e) s"
  have b: "pagedir_inv pd ?s \<and> same_user s ?s \<and> user_map (mem ?s) pd = user_map (mem s) pd
      \<and> entry (mem ?s) pd = (entry (mem s) pd)(pg_no va := ?e) \<and> has_table (mem ?s) pd (pg_no va div 1024)"
    by (rule set_bit_spec [OF inv va True]) (simp_all add: bits_apart)
  note l = lookup_present [OF inv va True]
  let ?r = "if d then ?s else flushed pd ?s"
  have "invalidate_pagedir pd ?s = Some (flushed pd ?s)"
    by (rule invalidate_spec) (use pagedir_page [OF inv] cr in \<open>simp_all add: cr3_valid_def\<close>)
  then have r: "pagedir_set_accessed pd va d s = Some ?r" using l by (cases d) (simp_all add: pagedir_set_accessed_def)
  have r': "pagedir_inv pd ?r" "mem ?r = mem ?s" "same_user s ?r" using b by (auto simp del: set_mem_simps)
  have "entry (mem ?r) pd (pg_no va) AND PTE_A \<noteq> 0 \<longleftrightarrow> d" "has_table (mem ?r) pd (pg_no va div 1024)"
    unfolding r'(2) using b by (simp_all add: bits_apart bits_nonzero del: set_mem_simps)
  then have "pagedir_is_accessed pd va ?r = Some (d, ?r)" using is_accessed_eq [OF r'(1) va] by (simp del: set_mem_simps)
  then show ?thesis using r r' b by (metis (no_types, lifting))
next
  case False
  then show ?thesis using lookup_missing [OF inv va False] inv by (simp add: pagedir_set_accessed_def)
qed

section \<open>Destruction\<close>

text \<open>The frames a directory maps are pages of the user's pool in use, no two pages share one.\<close>

definition frames_inv :: "addr \<Rightarrow> palloc \<Rightarrow> bool" where
  "frames_inv pd p \<longleftrightarrow>
     (\<forall>v. entry (ram p) pd v AND PTE_P \<noteq> 0 \<longrightarrow> pg_no (frame_of (entry (ram p) pd v)) \<in> pool_used (user_pool p))
     \<and> (\<forall>u v. entry (ram p) pd u AND PTE_P \<noteq> 0 \<and> entry (ram p) pd v AND PTE_P \<noteq> 0
          \<and> frame_of (entry (ram p) pd u) = frame_of (entry (ram p) pd v) \<longrightarrow> u = v)"

definition tables_below :: "memory \<Rightarrow> addr \<Rightarrow> nat \<Rightarrow> nat set" where
  "tables_below m pd i = {pg_no (table_at m pd k) | k. k < i \<and> has_table m pd k}"

definition frames_below :: "memory \<Rightarrow> addr \<Rightarrow> nat \<Rightarrow> nat set" where
  "frames_below m pd v = {pg_no (frame_of (entry m pd u)) | u. u < v \<and> entry m pd u AND PTE_P \<noteq> 0}"

text \<open>The pages \<open>U\<close> have been given back between \<open>p\<close> and \<open>p'\<close>.\<close>

definition gave :: "nat set \<Rightarrow> palloc \<Rightarrow> palloc \<Rightarrow> bool" where
  "gave U p p' \<longleftrightarrow> palloc_inv p' \<and> pool_used (kernel_pool p') = pool_used (kernel_pool p) - U
     \<and> pool_used (user_pool p') = pool_used (user_pool p) - U
     \<and> pool_pages (kernel_pool p') = pool_pages (kernel_pool p) \<and> pool_pages (user_pool p') = pool_pages (user_pool p)
     \<and> (\<forall>x. pg_no x \<notin> U \<longrightarrow> ram p' x = ram p x)"

lemma gave_refl: "palloc_inv p \<Longrightarrow> gave {} p p"
  by (simp add: gave_def)

lemma gave_trans: "gave U p q \<Longrightarrow> gave V q r \<Longrightarrow> gave (U \<union> V) p r"
  by (auto simp: gave_def)

lemma palloc_free_page_gave:
  assumes "palloc_inv p" and "pg_ofs a = 0" and "pg_no a \<in> used_pages p" and "pg_no a \<in> kernel_pages"
  shows "\<exists>p'. palloc_free_page a p = Some p' \<and> gave {pg_no a} p p'"
proof -
  have "page_range a 1 \<subseteq> pool_used (kernel_pool p) \<or> page_range a 1 \<subseteq> pool_used (user_pool p)"
    using assms(3) by (auto simp: used_pages_def page_range_def)
  then obtain p' where p': "palloc_free_multiple a 1 p = Some p'" "palloc_inv p'"
    "pool_used (kernel_pool p') = pool_used (kernel_pool p) - page_range a 1"
    "pool_used (user_pool p') = pool_used (user_pool p) - page_range a 1"
    "pool_pages (kernel_pool p') = pool_pages (kernel_pool p)" "pool_pages (user_pool p') = pool_pages (user_pool p)"
    "ram p' = (\<lambda>x. if a \<le> x \<and> x < a + PGSIZE * 1 then 204 else ram p x)"
    using palloc_free_pools [OF assms(1,2), of 1] nonnull [OF assms(4), of 0] by auto
  have "\<not> (a \<le> x \<and> x < a + PGSIZE)" if "pg_no x \<noteq> pg_no a" for x
    using that pg_no_address [OF assms(2)] by (auto simp: pg_no_def PGSIZE_def intro!: div_nat_eqI)
  then show ?thesis using p' by (auto simp: gave_def palloc_free_page_def)
qed

lemma frames_below_Suc:
  "frames_below m pd (Suc v)
    = (if entry m pd v AND PTE_P \<noteq> 0 then insert (pg_no (frame_of (entry m pd v))) (frames_below m pd v) else frames_below m pd v)"
  by (auto simp: frames_below_def less_Suc_eq)

lemma tables_below_Suc:
  "tables_below m pd (Suc i)
    = (if has_table m pd i then insert (pg_no (table_at m pd i)) (tables_below m pd i) else tables_below m pd i)"
  by (auto simp: tables_below_def less_Suc_eq)

text \<open>The state \<open>p\<close> is the one before; \<open>q\<close> is reached when the tables below \<open>i\<close> are gone.\<close>

lemma frames_disjoint:
  assumes wf: "pd_wf (pool_used (kernel_pool p)) (ram p) pd" and fr: "frames_inv pd p" and pi: "palloc_inv p"
  shows "frames_below (ram p) pd v \<subseteq> pool_used (user_pool p)" "i \<le> 768 \<Longrightarrow> tables_below (ram p) pd i \<subseteq> pool_used (kernel_pool p)"
    "pool_used (kernel_pool p) \<inter> pool_used (user_pool p) = {}"
    "entry (ram p) pd v AND PTE_P \<noteq> 0 \<Longrightarrow> pg_no (frame_of (entry (ram p) pd v)) \<notin> frames_below (ram p) pd v"
    "i < 768 \<Longrightarrow> has_table (ram p) pd i \<Longrightarrow> pg_no (table_at (ram p) pd i) \<notin> tables_below (ram p) pd i"
    "i \<le> 768 \<Longrightarrow> pg_no pd \<notin> tables_below (ram p) pd i"
proof -
  note D = pd_wfD [OF wf] and F = fr [unfolded frames_inv_def]
  show "frames_below (ram p) pd v \<subseteq> pool_used (user_pool p)" using F by (auto simp: frames_below_def)
  show "tables_below (ram p) pd i \<subseteq> pool_used (kernel_pool p)" if "i \<le> 768" using D(5) that by (auto simp: tables_below_def)
  show "pool_used (kernel_pool p) \<inter> pool_used (user_pool p) = {}"
    using pi pool_used_sub [of "kernel_pool p"] pool_used_sub [of "user_pool p"] unfolding palloc_inv_def by blast
  show "pg_no (frame_of (entry (ram p) pd v)) \<notin> frames_below (ram p) pd v" if P: "entry (ram p) pd v AND PTE_P \<noteq> 0"
  proof
    assume "pg_no (frame_of (entry (ram p) pd v)) \<in> frames_below (ram p) pd v"
    then obtain u where "u < v" "entry (ram p) pd u AND PTE_P \<noteq> 0" "frame_of (entry (ram p) pd v) = frame_of (entry (ram p) pd u)"
      using aligned_eq [OF frame_aligned frame_aligned] by (auto simp: frames_below_def)
    then have "v = u" using F P by simp
    then show False using \<open>u < v\<close> by simp
  qed
  show "pg_no (table_at (ram p) pd i) \<notin> tables_below (ram p) pd i" if "i < 768" "has_table (ram p) pd i"
  proof
    assume "pg_no (table_at (ram p) pd i) \<in> tables_below (ram p) pd i"
    then obtain k where k: "k < i" "has_table (ram p) pd k" "table_at (ram p) pd i = table_at (ram p) pd k"
      using aligned_eq [OF table_aligned table_aligned] by (auto simp: tables_below_def)
    then show False using D(7) [OF that(1) _ that(2) k(2,3)] that(1) by simp
  qed
  show "pg_no pd \<notin> tables_below (ram p) pd i" if "i \<le> 768"
  proof
    assume "pg_no pd \<in> tables_below (ram p) pd i"
    then obtain k where k: "k < i" "has_table (ram p) pd k" "pd = table_at (ram p) pd k"
      using aligned_eq [OF D(1) table_aligned] by (auto simp: tables_below_def)
    then show False using D(6) [OF _ k(2)] that by simp
  qed
qed

lemma free_entries_gave:
  assumes wf: "pd_wf (pool_used (kernel_pool p)) (ram p) pd" and fr: "frames_inv pd p" and pi: "palloc_inv p"
    and i: "i < 768" "has_table (ram p) pd i"
  shows "j + n = 1024 \<Longrightarrow> gave (tables_below (ram p) pd i \<union> frames_below (ram p) pd (1024 * i + j)) p q
    \<Longrightarrow> \<exists>q'. free_entries n (table_at (ram p) pd i + 4 * j) q = Some q'
      \<and> gave (tables_below (ram p) pd i \<union> frames_below (ram p) pd (1024 * i + 1024)) p q'"
proof (induction n arbitrary: j q)
  case 0
  then show ?case by simp
next
  case (Suc n)
  let ?v = "1024 * i + j" and ?t = "table_at (ram p) pd i"
  let ?U = "tables_below (ram p) pd i \<union> frames_below (ram p) pd ?v"
  note dis = frames_disjoint [OF wf fr pi]
  have j: "j < 1024" using Suc.prems(1) by simp
  have "pg_no ?t \<notin> ?U" using dis(1) [of ?v] dis(3) dis(5) [OF i] pd_wfD(5) [OF wf i] by blast
  then have "load_u32 (ram q) (?t + 4 * j) = load_u32 (ram p) (?t + 4 * j)"
    using load_slot_other_page [OF table_aligned j, of _ pd i "{pg_no ?t}" "ram q" "ram p"] Suc.prems(2) by (auto simp: gave_def)
  moreover have "?v div 1024 = i" "?v mod 1024 = j" "?v < 786432" using j i(1) by auto
  ultimately have e: "load_u32 (ram q) (?t + 4 * j) = entry (ram p) pd ?v" using i(2) by (simp add: entry_def)
  have next_j: "Suc j + n = 1024" "1024 * i + Suc j = Suc ?v" using Suc.prems(1) by auto
  show ?case
  proof (cases "entry (ram p) pd ?v AND PTE_P = 0")
    case True
    then have "gave (tables_below (ram p) pd i \<union> frames_below (ram p) pd (1024 * i + Suc j)) p q"
      using Suc.prems(2) by (simp add: frames_below_Suc)
    from Suc.IH [OF next_j(1) this] show ?thesis using True e by (simp add: ac_simps)
  next
    case False
    let ?f = "frame_of (entry (ram p) pd ?v)"
    have u: "pg_no ?f \<in> pool_used (user_pool p)" using fr False by (simp add: frames_inv_def)
    have "pg_no ?f \<notin> ?U" using dis(2) [of i] i(1) dis(3,4) False u by auto
    then have "pg_no ?f \<in> used_pages q" using u Suc.prems(2) by (auto simp: gave_def used_pages_def)
    then obtain q' where q': "palloc_free_page ?f q = Some q'" "gave {pg_no ?f} q q'"
      using palloc_free_page_gave [of q ?f] frame_aligned pd_wfD(8) [OF wf False] Suc.prems(2) by (auto simp: gave_def)
    have "gave (?U \<union> {pg_no ?f}) p q'" by (rule gave_trans [OF Suc.prems(2) q'(2)])
    then have "gave (tables_below (ram p) pd i \<union> frames_below (ram p) pd (1024 * i + Suc j)) p q'"
      using False by (simp add: frames_below_Suc)
    from Suc.IH [OF next_j(1) this] show ?thesis
      using False e q'(1) ptov_frame [OF pd_wfD(8) [OF wf False]] by (simp add: pte_get_page_def ac_simps)
  qed
qed

lemma free_tables_gave:
  assumes wf: "pd_wf (pool_used (kernel_pool p)) (ram p) pd" and fr: "frames_inv pd p" and pi: "palloc_inv p"
  shows "i + n = 768 \<Longrightarrow> gave (tables_below (ram p) pd i \<union> frames_below (ram p) pd (1024 * i)) p q
    \<Longrightarrow> \<exists>q'. free_tables n (pd + 4 * i) q = Some q'
      \<and> gave (tables_below (ram p) pd 768 \<union> frames_below (ram p) pd 786432) p q'"
proof (induction n arbitrary: i q)
  case 0
  then show ?case by simp
next
  case (Suc n)
  let ?U = "tables_below (ram p) pd i \<union> frames_below (ram p) pd (1024 * i)" and ?t = "table_at (ram p) pd i"
  note dis = frames_disjoint [OF wf fr pi] and D = pd_wfD [OF wf]
  have i: "i < 768" "i \<le> 768" using Suc.prems(1) by auto
  have "pg_no pd \<notin> ?U" using dis(1) [of "1024 * i"] dis(3) dis(6) [OF i(2)] D(2) by blast
  then have l: "load_u32 (ram q) (pd + 4 * i) = load_u32 (ram p) (pd + 4 * i)"
    using load_slot_other_page [OF D(1), of i "{pg_no pd}" "ram q" "ram p"] Suc.prems(2) i(1) by (auto simp: gave_def)
  have next_i: "Suc i + n = 768" "1024 * Suc i = 1024 * i + 1024" using Suc.prems(1) by auto
  show ?case
  proof (cases "has_table (ram p) pd i")
    case False
    have "entry (ram p) pd v AND PTE_P = 0" if "v \<ge> 1024 * i" "v < 1024 * i + 1024" for v
    proof -
      have "v div 1024 = i" using that by (intro div_nat_eqI) auto
      then show ?thesis using False by (simp add: entry_def)
    qed
    then have "u < 1024 * i + 1024 \<and> entry (ram p) pd u AND PTE_P \<noteq> 0 \<longleftrightarrow> u < 1024 * i \<and> entry (ram p) pd u AND PTE_P \<noteq> 0" for u
      by (meson linorder_not_less trans_less_add1)
    then have "frames_below (ram p) pd (1024 * Suc i) = frames_below (ram p) pd (1024 * i)"
      unfolding frames_below_def next_i(2) by simp
    then have "gave (tables_below (ram p) pd (Suc i) \<union> frames_below (ram p) pd (1024 * Suc i)) p q"
      using Suc.prems(2) False by (simp add: tables_below_Suc)
    from Suc.IH [OF next_i(1) this] show ?thesis using False l by (simp add: has_table_def ac_simps)
  next
    case True
    have g0: "gave (tables_below (ram p) pd i \<union> frames_below (ram p) pd (1024 * i + 0)) p q" using Suc.prems(2) by simp
    obtain r where "free_entries 1024 (?t + 4 * 0) q = Some r"
      and r2: "gave (tables_below (ram p) pd i \<union> frames_below (ram p) pd (1024 * i + 1024)) p r"
      using free_entries_gave [OF wf fr pi i(1) True add_0 g0] by blast
    then have r: "free_entries 1024 ?t q = Some r" "gave (tables_below (ram p) pd i \<union> frames_below (ram p) pd (1024 * i + 1024)) p r"
      by simp_all
    have k: "pg_no ?t \<in> pool_used (kernel_pool p)" using D(5) [OF i(1) True] .
    then have "pg_no ?t \<notin> tables_below (ram p) pd i \<union> frames_below (ram p) pd (1024 * i + 1024)"
      using dis(1) [of "1024 * i + 1024"] dis(3) dis(5) [OF i(1) True] by blast
    then have u: "pg_no ?t \<in> used_pages r" using k r(2) by (auto simp: gave_def used_pages_def)
    have ri: "palloc_inv r" using r(2) by (simp add: gave_def)
    obtain q' where q': "palloc_free_page ?t r = Some q'" "gave {pg_no ?t} r q'"
      using palloc_free_page_gave [OF ri table_aligned u subsetD [OF D(3) k]] by blast
    have "gave (tables_below (ram p) pd (Suc i) \<union> frames_below (ram p) pd (1024 * Suc i)) p q'"
      unfolding next_i(2) using gave_trans [OF r(2) q'(2)] True by (simp add: tables_below_Suc)
    from Suc.IH [OF next_i(1) this] show ?thesis
      using True l r(1) q'(1) D(4) [OF i(1) True] pd_wf_table [OF wf i(1) True] by (simp add: PGSIZE_def ac_simps)
  qed
qed

lemma pagedir_destroy_spec:
  assumes inv: "pagedir_inv pd s" and fr: "frames_inv pd (pal s)"
  shows "\<exists>s'. pagedir_destroy pd s = Some s' \<and> cr3 s' = cr3 s
    \<and> gave (insert (pg_no pd) (tables_below (mem s) pd 768 \<union> frames_below (mem s) pd 786432)) (pal s) (pal s')"
proof -
  have wf: "pd_wf (pool_used (kernel_pool (pal s))) (mem s) pd" and pi: "palloc_inv (pal s)" and b: "pd \<noteq> base_page_dir s"
    using inv by (auto simp: pagedir_inv_def)
  note dis = frames_disjoint [OF wf fr pi] and D = pd_wfD [OF wf]
  have "gave (tables_below (mem s) pd 0 \<union> frames_below (mem s) pd (1024 * 0)) (pal s) (pal s)"
    using gave_refl [OF pi] by (simp add: tables_below_def frames_below_def)
  from free_tables_gave [OF wf fr pi _ this, of 768] obtain q where q: "free_tables 768 pd (pal s) = Some q"
    "gave (tables_below (mem s) pd 768 \<union> frames_below (mem s) pd 786432) (pal s) q" by auto
  have "pg_no pd \<notin> tables_below (mem s) pd 768 \<union> frames_below (mem s) pd 786432"
    using dis(1) [of 786432] dis(3) dis(6) [of 768] D(2) by auto
  then have "pg_no pd \<in> used_pages q" using D(2) q(2) by (auto simp: gave_def used_pages_def)
  then obtain q' where q': "palloc_free_page pd q = Some q'" "gave {pg_no pd} q q'"
    using palloc_free_page_gave [of q pd] D(1) subsetD [OF D(3) D(2)] q(2) [unfolded gave_def] by blast
  have "pd_no PHYS_BASE = 768" by (simp add: pd_no_def PHYS_BASE_def PGSIZE_def)
  then have "pagedir_destroy pd s = Some (s\<lparr>pal := q'\<rparr>)"
    using b q(1) q'(1) nonnull [of pd 0] D(2,3) by (auto simp: pagedir_destroy_def)
  then show ?thesis using gave_trans [OF q(2) q'(2)] by simp
qed

section \<open>Properties\<close>

text \<open>
  C35: a page directory is a map from user pages to frames. Mapping a user page that is not mapped always
  returns: either it reports that no page table could be allocated and nothing has changed, or from then on every address in the page is
  translated to the frame plus the offset in the page and every other user address as before; the tables stay well formed.
\<close>

theorem pagedir_maps_pages:
  assumes "pagedir_inv pd s" and "pg_ofs upage = 0" and "is_user_vaddr upage" and "frame_fits s kpage"
    and "pagedir_get_page pd upage s = Some (NULL, s)"
  shows "\<exists>ok s'. pagedir_set_page pd upage kpage writable s = Some (ok, s') \<and> pagedir_inv pd s' \<and> (\<not> ok \<longrightarrow> s' = s)
    \<and> (ok \<longrightarrow> (\<forall>a. is_user_vaddr a \<longrightarrow> pagedir_get_page pd a s'
          = (if pg_no a = pg_no upage then Some (kpage + pg_ofs a, s') else do { (p, _) \<leftarrow> pagedir_get_page pd a s; Some (p, s') })))"
proof -
  have free: "user_map (mem s) pd (pg_no upage) = None"
  proof (cases "user_map (mem s) pd (pg_no upage)")
    case (Some kw)
    then show ?thesis using pm.get [OF assms(1,3)] pm.view_frame [OF assms(1)] assms(5) by (cases kw) fastforce
  qed
  obtain ok s' where r: "pagedir_set_page pd upage kpage writable s = Some (ok, s')" "pagedir_inv pd s'" "\<not> ok \<longrightarrow> s' = s"
    using pm.put [OF assms(1-4) free, of writable] by blast
  have "pagedir_set_page pd upage kpage writable s = Some (True, s')" if ok using r(1) that by simp
  then have g: "pagedir_get_page pd a s'
      = (if pg_no a = pg_no upage then Some (kpage + pg_ofs a, s') else do { (p, _) \<leftarrow> pagedir_get_page pd a s; Some (p, s') })"
    if ok "is_user_vaddr a" for a using pm.get_after_put [OF assms(1-4) free _ that(2)] that(1) by simp
  show ?thesis by (intro exI [of _ ok] exI [of _ s'] conjI impI allI g r) (use r(3) in simp)
qed

text \<open>A kernel's pool with two pages in use, of which the first is the kernel's own directory and the second is empty.\<close>

definition demo_paging :: paging where
  "demo_paging = \<lparr>pal = \<lparr>kernel_pool = \<lparr>used_map = \<lparr>bit_cnt = 32, bits = [3]\<rparr>, pool_base = 3222278144\<rparr>,
     user_pool = \<lparr>used_map = \<lparr>bit_cnt = 8, bits = [0]\<rparr>, pool_base = 3223326720\<rparr>, ram = (\<lambda>_. 0)\<rparr>,
     cr3 = 1052672, flushes = 0, base_page_dir = 3222278144, init_ram_pages = 2048\<rparr>"

lemma demo_paging_inv: "pagedir_inv 3222282240 demo_paging"
proof -
  have "pg_no 3222282240 \<in> pool_used (kernel_pool (pal demo_paging))"
    by (auto simp: pool_used_def demo_paging_def bitmap_used_def bitmap_bit_def elem_idx_def bit_mask_def ELEM_BITS_def pg_no_def PGSIZE_def
        intro!: image_eqI [of _ _ 1])
  moreover have "pool_pages (kernel_pool (pal demo_paging)) \<subseteq> kernel_pages"
    by (auto simp: demo_paging_def pool_pages_def kernel_pages_def pg_no_def PGSIZE_def)
  ultimately have "pd_wf (pool_used (kernel_pool (pal demo_paging))) (mem demo_paging) 3222282240"
    using pool_used_sub by (intro empty_pd_wf(1)) (auto simp: demo_paging_def pg_ofs_def PGSIZE_def load_u32_def)
  then show ?thesis
    by (auto simp: pagedir_inv_def demo_paging_def palloc_inv_def pool_inv_def bitmap_inv_def elem_cnt_def DIV_ROUND_UP_def ELEM_BITS_def
      pg_ofs_def pg_no_def PGSIZE_def pool_pages_def kernel_pages_def)
qed

theorem pagedir_maps_pages_witness:
  "\<exists>ok s'. pagedir_set_page 3222282240 134512640 3223326720 True demo_paging = Some (ok, s') \<and> pagedir_inv 3222282240 s'"
proof -
  have "user_map (mem demo_paging) 3222282240 v = None" for v
    by (simp add: user_map_def entry_def has_table_def demo_paging_def load_u32_def)
  then have "pagedir_get_page 3222282240 134512640 demo_paging = Some (NULL, demo_paging)"
    using pm.get [OF demo_paging_inv, of 134512640] by (simp add: is_user_vaddr_def PHYS_BASE_def)
  then show ?thesis using pagedir_maps_pages [OF demo_paging_inv, of 134512640 3223326720 True]
    by (auto simp: frame_fits_def pg_ofs_def pg_no_def PGSIZE_def kernel_pages_def is_user_vaddr_def PHYS_BASE_def demo_paging_def)
qed

text \<open>
  C36: destroying a page directory frees exactly what belongs to it. If its frames are pages of the user's pool in use and no two pages share one,
  the loops reach no assertion, and the pages in use afterwards are those before without the directory, its page tables and the frames it maps; memory outside the
  freed pages is untouched.
\<close>

theorem pagedir_destroy_frees:
  assumes "pagedir_inv pd s" and "frames_inv pd (pal s)"
  shows "\<exists>s'. pagedir_destroy pd s = Some s' \<and> palloc_inv (pal s')
    \<and> used_pages (pal s') = used_pages (pal s) - {pg_no pd} - {pg_no (table_at (mem s) pd i) | i. i < 768 \<and> has_table (mem s) pd i}
        - pg_no ` fst ` ran (user_map (mem s) pd)
    \<and> (\<forall>x. pg_no x \<notin> used_pages (pal s) \<or> pg_no x \<in> used_pages (pal s') \<longrightarrow> mem s' x = mem s x)"
proof -
  let ?T = "tables_below (mem s) pd 768" and ?F = "frames_below (mem s) pd 786432"
  obtain s' where s': "pagedir_destroy pd s = Some s'" "gave (insert (pg_no pd) (?T \<union> ?F)) (pal s) (pal s')"
    using pagedir_destroy_spec [OF assms] by blast
  have wf: "pd_wf (pool_used (kernel_pool (pal s))) (mem s) pd" and pi: "palloc_inv (pal s)" using assms(1) by (auto simp: pagedir_inv_def)
  note dis = frames_disjoint [OF wf assms(2) pi]
  have "entry (mem s) pd v AND PTE_P = 0" if "\<not> v < 786432" for v using that by (simp add: entry_def)
  then have F: "?F = pg_no ` fst ` ran (user_map (mem s) pd)"
    unfolding frames_below_def ran_def user_map_def image_def by (simp, blast)
  have sub: "insert (pg_no pd) (?T \<union> ?F) \<subseteq> used_pages (pal s)"
    using dis(1) [of 786432] dis(2) [of 768] pd_wfD(2) [OF wf] by (auto simp: used_pages_def)
  have used: "used_pages (pal s') = used_pages (pal s) - insert (pg_no pd) (?T \<union> ?F)"
    using s'(2) unfolding gave_def used_pages_def by blast
  have "\<forall>x. pg_no x \<notin> used_pages (pal s) \<or> pg_no x \<in> used_pages (pal s') \<longrightarrow> mem s' x = mem s x"
    using s'(2) sub used unfolding gave_def by blast
  moreover have "used_pages (pal s') = used_pages (pal s) - {pg_no pd} - ?T - ?F" using used by blast
  moreover have "palloc_inv (pal s')" using s'(2) by (simp add: gave_def)
  ultimately show ?thesis using s'(1) unfolding F tables_below_def by blast
qed

theorem pagedir_destroy_frees_witness:
  "\<exists>s'. pagedir_destroy 3222282240 demo_paging = Some s' \<and> 786689 \<in> used_pages (pal s') \<and> 786690 \<notin> used_pages (pal s')"
proof -
  have "entry (mem demo_paging) 3222282240 v = 0" "\<not> has_table (mem demo_paging) 3222282240 i" for v i
    by (simp_all add: entry_def has_table_def demo_paging_def load_u32_def)
  then have e: "frames_inv 3222282240 (pal demo_paging)" "user_map (mem demo_paging) 3222282240 = Map.empty"
      "{pg_no (table_at (mem demo_paging) 3222282240 i) | i. i < 768 \<and> has_table (mem demo_paging) 3222282240 i} = {}"
    by (auto simp: frames_inv_def user_map_def)
  have "pg_no 3222278144 \<in> used_pages (pal demo_paging)"
    by (auto simp: used_pages_def pool_used_def demo_paging_def bitmap_used_def bitmap_bit_def elem_idx_def bit_mask_def ELEM_BITS_def pg_no_def
        PGSIZE_def intro!: image_eqI [of _ _ 0])
  then show ?thesis using pagedir_destroy_frees [OF demo_paging_inv e(1)] unfolding e(2,3) by (auto simp: pg_no_def PGSIZE_def)
qed

end
