(* ===== verification/Loader.thy ===== *)
theory Loader
  imports Filesys Pagedir
begin

text \<open>
  The loader of user programs (\<^verbatim>\<open>userprog/process.c\<close>): the segments of an ELF file become pages of the
  process. It stands on the file system below \<^verbatim>\<open>file_read\<close> and on the page directory and the page
  allocator. What the process sees of its memory is \<open>user_byte\<close>: the byte at a user address, translated by
  its page directory.
\<close>

section \<open>ELF headers\<close>

definition u16_at :: "bytes \<Rightarrow> nat \<Rightarrow> nat" where
  "u16_at bs i = unat (bs ! i) + 256 * unat (bs ! (i + 1))"

definition u32_at :: "bytes \<Rightarrow> nat \<Rightarrow> u32" where
  "u32_at bs i = u32_of_bytes (take 4 (drop i bs))"

record Elf32_Ehdr =
  e_ident :: bytes
  e_type :: nat
  e_machine :: nat
  e_version :: u32
  e_entry :: u32
  e_phoff :: u32
  e_shoff :: u32
  e_flags :: u32
  e_ehsize :: nat
  e_phentsize :: nat
  e_phnum :: nat
  e_shentsize :: nat
  e_shnum :: nat
  e_shstrndx :: nat

record Elf32_Phdr =
  p_type :: u32
  p_offset :: u32
  p_vaddr :: u32
  p_paddr :: u32
  p_filesz :: u32
  p_memsz :: u32
  p_flags :: u32
  p_align :: u32

definition EHDR_SIZE :: nat where "EHDR_SIZE = 52"
definition PHDR_SIZE :: nat where "PHDR_SIZE = 32"

text \<open>The structures as they lie in memory.\<close>

definition ehdr_of_bytes :: "bytes \<Rightarrow> Elf32_Ehdr" where
  "ehdr_of_bytes bs = \<lparr>e_ident = take 16 bs, e_type = u16_at bs 16, e_machine = u16_at bs 18, e_version = u32_at bs 20,
     e_entry = u32_at bs 24, e_phoff = u32_at bs 28, e_shoff = u32_at bs 32, e_flags = u32_at bs 36, e_ehsize = u16_at bs 40,
     e_phentsize = u16_at bs 42, e_phnum = u16_at bs 44, e_shentsize = u16_at bs 46, e_shnum = u16_at bs 48, e_shstrndx = u16_at bs 50\<rparr>"

definition phdr_of_bytes :: "bytes \<Rightarrow> Elf32_Phdr" where
  "phdr_of_bytes bs = \<lparr>p_type = u32_at bs 0, p_offset = u32_at bs 4, p_vaddr = u32_at bs 8, p_paddr = u32_at bs 12,
     p_filesz = u32_at bs 16, p_memsz = u32_at bs 20, p_flags = u32_at bs 24, p_align = u32_at bs 28\<rparr>"

definition PT_NULL :: u32 where "PT_NULL = 0"
definition PT_LOAD :: u32 where "PT_LOAD = 1"
definition PT_DYNAMIC :: u32 where "PT_DYNAMIC = 2"
definition PT_INTERP :: u32 where "PT_INTERP = 3"
definition PT_NOTE :: u32 where "PT_NOTE = 4"
definition PT_SHLIB :: u32 where "PT_SHLIB = 5"
definition PT_PHDR :: u32 where "PT_PHDR = 6"
definition PT_STACK :: u32 where "PT_STACK = 0x6474e551"
definition PF_X :: u32 where "PF_X = 1"
definition PF_W :: u32 where "PF_W = 2"
definition PF_R :: u32 where "PF_R = 4"

lemmas elf_types = PT_NULL_def PT_LOAD_def PT_DYNAMIC_def PT_INTERP_def PT_NOTE_def PT_SHLIB_def PT_PHDR_def PT_STACK_def

definition PGMASK :: u32 where "PGMASK = 0xfff"

text \<open>The checks of the executable header.\<close>

definition ehdr_ok :: "Elf32_Ehdr \<Rightarrow> bool" where
  "ehdr_ok h \<longleftrightarrow> take 7 (e_ident h) = [0x7f, 0x45, 0x4c, 0x46, 1, 1, 1] \<and> e_type h = 2 \<and> e_machine h = 3 \<and> e_version h = 1
     \<and> e_phentsize h = PHDR_SIZE \<and> e_phnum h \<le> 1024"

section \<open>Segments\<close>

text \<open>Comparisons and sums of the fields are those of 32-bit words; \<open>len\<close> is the length of the file.\<close>

definition validate_segment :: "Elf32_Phdr \<Rightarrow> off_t \<Rightarrow> bool" where
  "validate_segment phdr len =
     (if p_offset phdr AND PGMASK \<noteq> p_vaddr phdr AND PGMASK then False
      else if p_offset phdr > word_of_int len then False
      else if p_memsz phdr < p_filesz phdr then False
      else if p_memsz phdr = 0 then False
      else if \<not> is_user_vaddr (unat (p_vaddr phdr)) then False
      else if \<not> is_user_vaddr (unat (p_vaddr phdr + p_memsz phdr)) then False
      else if p_vaddr phdr + p_memsz phdr < p_vaddr phdr then False
      else if unat (p_vaddr phdr) < PGSIZE then False
      else True)"

definition install_page :: "addr \<Rightarrow> addr \<Rightarrow> addr \<Rightarrow> bool \<Rightarrow> paging \<Rightarrow> (bool \<times> paging) option" where
  "install_page pd upage kpage writable p = do {
     (k, p) \<leftarrow> pagedir_get_page pd upage p;
     if k = NULL then pagedir_set_page pd upage kpage writable p else Some (False, p) }"

definition free_page :: "addr \<Rightarrow> paging \<Rightarrow> paging option" where
  "free_page a p = do { q \<leftarrow> palloc_free_page a (pal p); Some (p\<lparr>pal := q\<rparr>) }"

text \<open>One round of the loop: a page for the next bytes of the file.\<close>

definition load_page ::
  "addr \<Rightarrow> fs \<Rightarrow> open_file \<Rightarrow> paging \<Rightarrow> addr \<Rightarrow> nat \<Rightarrow> nat \<Rightarrow> bool \<Rightarrow> (bool \<times> fs \<times> open_file \<times> paging) option" where
  "load_page pd s f p upage page_read_bytes page_zero_bytes writable = do {
     (kpage, q) \<leftarrow> palloc_get_page {PAL_USER} (pal p);
     let p = p\<lparr>pal := q\<rparr>;
     if kpage = NULL then Some (False, s, f, p)
     else do {
       (bs, f, s) \<leftarrow> file_read s f (int page_read_bytes);
       let p = set_mem (poke kpage bs (mem p)) p;
       if length bs \<noteq> page_read_bytes then do {
         p \<leftarrow> free_page kpage p;
         Some (False, s, f, p) }
       else do {
         (_, m) \<leftarrow> memset (mem p) (kpage + page_read_bytes) 0 page_zero_bytes;
         let p = set_mem m p;
         (ok, p) \<leftarrow> install_page pd upage kpage writable p;
         if ok then Some (True, s, f, p)
         else do {
           p \<leftarrow> free_page kpage p;
           Some (False, s, f, p) } } } }"

partial_function (option) load_segment_loop ::
  "addr \<Rightarrow> fs \<Rightarrow> open_file \<Rightarrow> paging \<Rightarrow> addr \<Rightarrow> u32 \<Rightarrow> u32 \<Rightarrow> bool \<Rightarrow> (bool \<times> fs \<times> open_file \<times> paging) option" where
  "load_segment_loop pd s f p upage read_bytes zero_bytes writable =
     (if read_bytes > 0 \<or> zero_bytes > 0 then do {
        let page_read_bytes = (if unat read_bytes < PGSIZE then unat read_bytes else PGSIZE);
        let page_zero_bytes = PGSIZE - page_read_bytes;
        r \<leftarrow> load_page pd s f p upage page_read_bytes page_zero_bytes writable;
        case r of (ok, s, f, p) \<Rightarrow>
          if \<not> ok then Some (False, s, f, p)
          else load_segment_loop pd s f p (size_add upage PGSIZE) (read_bytes - word_of_nat page_read_bytes)
            (zero_bytes - word_of_nat page_zero_bytes) writable }
      else Some (True, s, f, p))"

definition load_segment ::
  "addr \<Rightarrow> fs \<Rightarrow> open_file \<Rightarrow> paging \<Rightarrow> off_t \<Rightarrow> addr \<Rightarrow> u32 \<Rightarrow> u32 \<Rightarrow> bool \<Rightarrow> (bool \<times> fs \<times> open_file \<times> paging) option" where
  "load_segment pd s f p ofs upage read_bytes zero_bytes writable = do {
     ASSERT (unat (read_bytes + zero_bytes) mod PGSIZE = 0);
     ASSERT (pg_ofs upage = 0);
     ASSERT (ofs mod int PGSIZE = 0);
     f \<leftarrow> file_seek f ofs;
     load_segment_loop pd s f p upage read_bytes zero_bytes writable }"

text \<open>The case \<^verbatim>\<open>PT_LOAD\<close> of \<^verbatim>\<open>load\<close>.\<close>

definition segment_sizes :: "Elf32_Phdr \<Rightarrow> u32 \<times> u32" where
  "segment_sizes phdr =
     (let page_offset = p_vaddr phdr AND PGMASK;
          up = word_of_nat (ROUND_UP (unat (page_offset + p_memsz phdr)) PGSIZE)
      in if p_filesz phdr > 0 then (page_offset + p_filesz phdr, up - (page_offset + p_filesz phdr)) else (0, up))"

definition load_pt_load ::
  "addr \<Rightarrow> fs \<Rightarrow> open_file \<Rightarrow> paging \<Rightarrow> Elf32_Phdr \<Rightarrow> (bool \<times> fs \<times> open_file \<times> paging) option" where
  "load_pt_load pd s f p phdr = do {
     (len, s) \<leftarrow> file_length s f;
     if validate_segment phdr len then do {
       let writable = (p_flags phdr AND PF_W \<noteq> 0);
       let file_page = p_offset phdr AND NOT PGMASK;
       let mem_page = p_vaddr phdr AND NOT PGMASK;
       let (read_bytes, zero_bytes) = segment_sizes phdr;
       load_segment pd s f p (sint file_page) (unat mem_page) read_bytes zero_bytes writable }
     else Some (False, s, f, p) }"

text \<open>The switch on the type of a header.\<close>

definition load_header ::
  "addr \<Rightarrow> fs \<Rightarrow> open_file \<Rightarrow> paging \<Rightarrow> Elf32_Phdr \<Rightarrow> (bool \<times> fs \<times> open_file \<times> paging) option" where
  "load_header pd s f p phdr =
     (if p_type phdr \<in> {PT_NULL, PT_NOTE, PT_PHDR, PT_STACK} then Some (True, s, f, p)
      else if p_type phdr \<in> {PT_DYNAMIC, PT_INTERP, PT_SHLIB} then Some (False, s, f, p)
      else if p_type phdr = PT_LOAD then load_pt_load pd s f p phdr
      else Some (True, s, f, p))"

text \<open>The loop over the program headers; \<^verbatim>\<open>off_t\<close> is a signed 32-bit number.\<close>

primrec load_headers ::
  "nat \<Rightarrow> off_t \<Rightarrow> addr \<Rightarrow> fs \<Rightarrow> open_file \<Rightarrow> paging \<Rightarrow> (bool \<times> fs \<times> open_file \<times> paging) option" where
  "load_headers 0 file_ofs pd s f p = Some (True, s, f, p)"
| "load_headers (Suc n) file_ofs pd s f p = do {
     (len, s) \<leftarrow> file_length s f;
     if file_ofs < 0 \<or> file_ofs > len then Some (False, s, f, p)
     else do {
       f \<leftarrow> file_seek f file_ofs;
       (bs, f, s) \<leftarrow> file_read s f (int PHDR_SIZE);
       if length bs \<noteq> PHDR_SIZE then Some (False, s, f, p)
       else do {
         let phdr = phdr_of_bytes bs;
         (ok, s, f, p) \<leftarrow> load_header pd s f p phdr;
         if \<not> ok then Some (False, s, f, p)
         else load_headers n (off_add file_ofs (int PHDR_SIZE)) pd s f p } } }"

section \<open>User memory\<close>

definition user_byte :: "paging \<Rightarrow> addr \<Rightarrow> addr \<Rightarrow> u8 option" where
  "user_byte p pd a = map_option (\<lambda>(k, _). mem p (k + pg_ofs a)) (user_map (mem p) pd (pg_no a))"

definition ram_fits :: "paging \<Rightarrow> bool" where
  "ram_fits p \<longleftrightarrow> (\<forall>v \<in> pool_pages (user_pool (pal p)). v - 786432 < init_ram_pages p)"

definition proc_inv :: "addr \<Rightarrow> paging \<Rightarrow> bool" where
  "proc_inv pd p \<longleftrightarrow> pagedir_inv pd p \<and> frames_inv pd (pal p) \<and> ram_fits p"

lemma frames_inv_iff:
  "frames_inv pd p \<longleftrightarrow> (\<forall>v k w. user_map (ram p) pd v = Some (k, w) \<longrightarrow> pg_no k \<in> pool_used (user_pool p))
     \<and> (\<forall>u v k w w'. user_map (ram p) pd u = Some (k, w) \<and> user_map (ram p) pd v = Some (k, w') \<longrightarrow> u = v)"
  unfolding frames_inv_def user_map_def by (simp split: if_splits) blast

lemma user_frame_aligned: "user_map m pd v = Some (k, w) \<Longrightarrow> pg_ofs k = 0"
  by (auto simp: user_map_def frame_aligned split: if_splits)

lemma page_address: "pg_ofs k = 0 \<Longrightarrow> pg_no (k + pg_ofs a) = pg_no k"
  using slot_page [of k "pg_ofs a div 4" "k + pg_ofs a"] by (simp add: pg_ofs_def PGSIZE_def)

text \<open>Bytes of mapped pages stay as they are when memory changes only in pages that are no frames.\<close>

lemma user_byte_cong:
  assumes "user_map (mem p') pd = user_map (mem p) pd"
    and "\<And>v k w x. user_map (mem p) pd v = Some (k, w) \<Longrightarrow> pg_no x = pg_no k \<Longrightarrow> mem p' x = mem p x"
  shows "user_byte p' pd a = user_byte p pd a"
proof (cases "user_map (mem p) pd (pg_no a)")
  case (Some kw)
  obtain k w where kw: "kw = (k, w)" by fastforce
  have "pg_no (k + pg_ofs a) = pg_no k" using page_address [OF user_frame_aligned] Some kw by blast
  then show ?thesis using assms Some kw by (simp add: user_byte_def)
qed (use assms(1) in \<open>simp add: user_byte_def\<close>)

text \<open>A new page of the user's pool, filled with whatever the kernel puts there.\<close>

lemma new_user_page:
  assumes inv: "proc_inv pd p" and got: "got_page {PAL_USER} (pal p) k q" "k \<noteq> NULL"
    and m: "\<forall>x. pg_no x \<noteq> pg_no k \<longrightarrow> m x = ram q x"
  defines "p' \<equiv> p\<lparr>pal := q\<lparr>ram := m\<rparr>\<rparr>"
  shows "proc_inv pd p'" "user_map m pd = user_map (mem p) pd" "user_byte p' pd a = user_byte p pd a" "frame_fits p' k"
    "pg_no k \<in> pool_used (user_pool (pal p'))" "\<forall>v k' w. user_map (mem p') pd v = Some (k', w) \<longrightarrow> pg_no k' \<noteq> pg_no k"
proof -
  note g = got(1) [unfolded got_page_def]
  have pi: "pagedir_inv pd p" and fr: "frames_inv pd (pal p)" and rf: "ram_fits p" using inv by (auto simp: proc_inv_def)
  let ?K = "pool_used (kernel_pool (pal p))"
  have wf: "pd_wf ?K (mem p) pd" and sub: "pool_pages (user_pool (pal p)) \<subseteq> kernel_pages" using pi by (auto simp: pagedir_inv_def)
  have k: "pg_ofs k = 0" "pg_no k \<notin> used_pages (pal p)" "pg_no k \<in> pool_pages (user_pool (pal p))" using g got(2) by auto
  have eq: "m x = mem p x" if "pg_no x \<noteq> pg_no k" for x using m g that by metis
  have eqK: "\<And>x. pg_no x \<in> ?K \<Longrightarrow> m x = mem p x" using eq k(2) by (metis UnI1 used_pages_def)
  have kp: "kernel_pool q = kernel_pool (pal p)" using g by simp
  show um: "user_map m pd = user_map (mem p) pd"
    using tables_cong(3) [OF wf eqK] by (simp add: user_map_def fun_eq_iff)
  have "pd_wf ?K m pd" using pd_wf_cong [OF wf eqK order_refl pd_wfD(3) [OF wf]] by simp
  then have pi': "pagedir_inv pd p'" using pi g kp by (simp add: pagedir_inv_def p'_def)
  have used: "pool_used (user_pool q) = insert (pg_no k) (pool_used (user_pool (pal p)))" using g got(2) by simp
  have fr': "frames_inv pd (pal p')" using fr um used unfolding frames_inv_iff by (simp add: p'_def)
  have rf': "ram_fits p'" using rf g by (simp add: ram_fits_def p'_def)
  show "proc_inv pd p'" using pi' fr' rf' by (simp add: proc_inv_def)
  show "frame_fits p' k" using k(1,3) sub rf by (auto simp: frame_fits_def ram_fits_def p'_def)
  show "pg_no k \<in> pool_used (user_pool (pal p'))" using used by (simp add: p'_def)
  have ne: "pg_no k' \<noteq> pg_no k" if "user_map m pd v = Some (k', w)" for v k' w
  proof -
    have "pg_no k' \<in> pool_used (user_pool (pal p))" using that um fr unfolding frames_inv_iff by metis
    then show ?thesis using k(2) by (metis UnI2 used_pages_def)
  qed
  then show "\<forall>v k' w. user_map (mem p') pd v = Some (k', w) \<longrightarrow> pg_no k' \<noteq> pg_no k" by (simp add: p'_def)
  show "user_byte p' pd a = user_byte p pd a"
  proof (rule user_byte_cong)
    show "user_map (mem p') pd = user_map (mem p) pd" using um by (simp add: p'_def)
    show "mem p' x = mem p x" if "user_map (mem p) pd v = Some (k', w)" "pg_no x = pg_no k'" for v k' w x
      using ne [of v k' w] that um eq by (simp add: p'_def)
  qed
qed

text \<open>Giving such a page back.\<close>

lemma free_user_page:
  assumes inv: "proc_inv pd p" and k: "pg_ofs k = 0" "pg_no k \<in> pool_used (user_pool (pal p))"
    and ne: "\<forall>v k' w. user_map (mem p) pd v = Some (k', w) \<longrightarrow> pg_no k' \<noteq> pg_no k"
  shows "\<exists>p'. free_page k p = Some p' \<and> proc_inv pd p' \<and> user_map (mem p') pd = user_map (mem p) pd \<and> (\<forall>a. user_byte p' pd a = user_byte p pd a)
    \<and> used_pages (pal p') = used_pages (pal p) - {pg_no k}"
proof -
  have pi: "pagedir_inv pd p" and fr: "frames_inv pd (pal p)" and rf: "ram_fits p" using inv by (auto simp: proc_inv_def)
  let ?K = "pool_used (kernel_pool (pal p))"
  have wf: "pd_wf ?K (mem p) pd" and sub: "pool_pages (user_pool (pal p)) \<subseteq> kernel_pages" and al: "palloc_inv (pal p)"
    using pi by (auto simp: pagedir_inv_def)
  have kk: "pg_no k \<in> kernel_pages" using k(2) sub pool_used_sub by blast
  have notK: "pg_no k \<notin> ?K" using frames_disjoint(3) [OF wf fr al] k(2) by blast
  obtain q where q: "palloc_free_page k (pal p) = Some q" "gave {pg_no k} (pal p) q"
    using palloc_free_page_gave [OF al k(1) _ kk] k(2) by (auto simp: used_pages_def)
  note g = q(2) [unfolded gave_def]
  let ?p = "p\<lparr>pal := q\<rparr>"
  have eqK: "\<And>x. pg_no x \<in> ?K \<Longrightarrow> ram q x = mem p x" using g notK by (metis singletonD)
  have um: "user_map (ram q) pd = user_map (mem p) pd"
    using tables_cong(3) [OF wf eqK] by (simp add: user_map_def fun_eq_iff)
  have "pd_wf ?K (ram q) pd" using pd_wf_cong [OF wf eqK order_refl pd_wfD(3) [OF wf]] by simp
  then have pi': "pagedir_inv pd ?p" using pi g notK by (simp add: pagedir_inv_def)
  have fr': "frames_inv pd (pal ?p)" using fr um g ne unfolding frames_inv_iff by simp
  have "ram_fits ?p" using rf g by (simp add: ram_fits_def)
  then have "proc_inv pd ?p" using pi' fr' by (simp add: proc_inv_def)
  moreover have "user_byte ?p pd a = user_byte p pd a" for a
  proof (rule user_byte_cong)
    show "mem ?p x = mem p x" if "user_map (mem p) pd v = Some (k', w)" "pg_no x = pg_no k'" for v k' w x
      using g ne that by (metis paging.select_convs(1) paging.surjective paging.update_convs(1) singletonD)
  qed (use um in simp)
  moreover have "used_pages q = used_pages (pal p) - {pg_no k}" using g by (auto simp: used_pages_def)
  ultimately show ?thesis using q(1) um by (simp add: free_page_def)
qed

text \<open>Mapping it.\<close>

lemma map_user_page:
  assumes inv: "proc_inv pd p" and up: "pg_ofs upage = 0" "is_user_vaddr upage" and fits: "frame_fits p k"
    and k: "pg_no k \<in> pool_used (user_pool (pal p))" and ne: "\<forall>v k' w. user_map (mem p) pd v = Some (k', w) \<longrightarrow> pg_no k' \<noteq> pg_no k"
  shows "\<exists>ok p'. install_page pd upage k w p = Some (ok, p') \<and> (\<not> ok \<longrightarrow> p' = p)
    \<and> (ok \<longrightarrow> proc_inv pd p' \<and> user_map (mem p) pd (pg_no upage) = None \<and> user_map (mem p') pd = (user_map (mem p) pd)(pg_no upage \<mapsto> (k, w))
      \<and> (\<forall>a. user_byte p' pd a = (if pg_no a = pg_no upage then Some (mem p (k + pg_ofs a)) else user_byte p pd a)))"
proof -
  have pi: "pagedir_inv pd p" and fr: "frames_inv pd (pal p)" and rf: "ram_fits p" using inv by (auto simp: proc_inv_def)
  obtain ok p' where r: "(do { (kp, p) \<leftarrow> pagedir_get_page pd upage p; if kp = NULL then pagedir_set_page pd upage k w p else Some (False, p) })
      = Some (ok, p')" "pagedir_inv pd p'" "same_user p p'"
    "if ok then user_map (mem p) pd (pg_no upage) = None \<and> user_map (mem p') pd = (user_map (mem p) pd)(pg_no upage \<mapsto> (k, w)) else p' = p"
    using pm.install [OF pi up fits, of w] by blast
  have i: "install_page pd upage k w p = Some (ok, p')" using r(1) by (simp add: install_page_def)
  show ?thesis
  proof (cases ok)
    case True
    then have um: "user_map (mem p) pd (pg_no upage) = None" "user_map (mem p') pd = (user_map (mem p) pd)(pg_no upage \<mapsto> (k, w))" using r(4) by auto
    note su = r(3) [unfolded same_user_def]
    have fr': "frames_inv pd (pal p')" unfolding frames_inv_iff
    proof (intro conjI allI impI)
      show "pg_no k' \<in> pool_used (user_pool (pal p'))" if "user_map (mem p') pd v = Some (k', w')" for v k' w'
        using that um(2) k fr su unfolding frames_inv_iff by (auto split: if_splits)
      show "u = v" if h: "user_map (mem p') pd u = Some (k', w1) \<and> user_map (mem p') pd v = Some (k', w2)" for u v k' w1 w2
      proof -
        have "u = v" if "u \<noteq> pg_no upage" "v \<noteq> pg_no upage" using that h um(2) fr unfolding frames_inv_iff by auto
        moreover have False if "u = pg_no upage" "v \<noteq> pg_no upage" using that h um(2) ne by auto
        moreover have False if "v = pg_no upage" "u \<noteq> pg_no upage" using that h um(2) ne by auto
        ultimately show ?thesis by metis
      qed
    qed
    have dis: "pg_no x \<notin> pool_pages (kernel_pool (pal p))" if "pg_no x \<in> pool_used (user_pool (pal p))" for x
      using that pool_used_sub [of "user_pool (pal p)"] pi by (auto simp: pagedir_inv_def palloc_inv_def)
    have keep: "mem p' x = mem p x" if "pg_no x \<in> pool_used (user_pool (pal p))" for x using su dis [OF that] by simp
    have "user_byte p' pd a = (if pg_no a = pg_no upage then Some (mem p (k + pg_ofs a)) else user_byte p pd a)" for a
    proof (cases "pg_no a = pg_no upage")
      case True
      have "pg_no (k + pg_ofs a) = pg_no k" using page_address fits by (simp add: frame_fits_def)
      then show ?thesis using True um(2) keep k by (simp add: user_byte_def)
    next
      case False
      show ?thesis
      proof (cases "user_map (mem p) pd (pg_no a)")
        case None
        then show ?thesis using False um(2) by (simp add: user_byte_def)
      next
        case (Some kw)
        obtain k' w' where kw: "kw = (k', w')" by fastforce
        have "pg_no (k' + pg_ofs a) = pg_no k'" using page_address [OF user_frame_aligned] Some kw by blast
        moreover have "pg_no k' \<in> pool_used (user_pool (pal p))" using fr Some kw unfolding frames_inv_iff by blast
        ultimately have "mem p' (k' + pg_ofs a) = mem p (k' + pg_ofs a)" using keep by simp
        then show ?thesis using Some kw False um(2) by (simp add: user_byte_def)
      qed
    qed
    moreover have "proc_inv pd p'" using r(2) fr' rf su by (simp add: proc_inv_def ram_fits_def)
    ultimately show ?thesis using i True um by blast
  next
    case False
    then show ?thesis using i r(4) by auto
  qed
qed

section \<open>Loading a page\<close>

lemma in_page: "pg_ofs k = 0 \<Longrightarrow> pg_no x = pg_no k \<longleftrightarrow> k \<le> x \<and> x < k + PGSIZE"
  using pg_no_address [of k] by (auto simp: pg_no_def PGSIZE_def intro!: div_nat_eqI)

lemma file_read_spec:
  assumes "open_wf s (f_inode f) sec" and "0 \<le> f_pos f"
  shows "\<exists>s'. file_read s f (int n) = Some (take n (drop (nat (f_pos f)) (file_data (fview s) sec)),
      f\<lparr>f_pos := f_pos f + int (length (take n (drop (nat (f_pos f)) (file_data (fview s) sec))))\<rparr>, s')
    \<and> fview s' = fview s \<and> open_wf s' (f_inode f) sec"
proof -
  obtain s' where s': "inode_read_at s (f_inode f) (int n) (f_pos f) = Some (take n (drop (nat (f_pos f)) (file_data (fview s) sec)), s')" "same_files s s'"
    using inode_read_at_spec [OF assms, of "int n"] by auto
  then show ?thesis using same_filesD(2) [OF s'(2)] open_wf_same_files [OF assms(1) s'(2)] by (simp add: file_read_def)
qed

lemma load_page_spec:
  assumes inv: "proc_inv pd p" and f: "open_wf s (f_inode f) sec" "0 \<le> f_pos f" and up: "pg_ofs upage = 0" "is_user_vaddr upage"
    and r: "r \<le> PGSIZE"
  defines "D \<equiv> drop (nat (f_pos f)) (file_data (fview s) sec)"
  shows "\<exists>ok s' f' p'. load_page pd s f p upage r (PGSIZE - r) w = Some (ok, s', f', p') \<and> proc_inv pd p' \<and> fview s' = fview s
    \<and> open_wf s' (f_inode f) sec \<and> f_inode f' = f_inode f
    \<and> (\<not> ok \<longrightarrow> user_map (mem p') pd = user_map (mem p) pd \<and> (\<forall>a. user_byte p' pd a = user_byte p pd a) \<and> used_pages (pal p') = used_pages (pal p))
    \<and> (ok \<longrightarrow> r \<le> length D \<and> f_pos f' = f_pos f + int r \<and> user_map (mem p) pd (pg_no upage) = None
        \<and> (\<exists>k. user_map (mem p') pd = (user_map (mem p) pd)(pg_no upage \<mapsto> (k, w)))
        \<and> (\<forall>a. user_byte p' pd a = (if pg_no a = pg_no upage then Some (if pg_ofs a < r then D ! pg_ofs a else 0) else user_byte p pd a)))"
proof -
  have pi: "palloc_inv (pal p)" using inv by (simp add: proc_inv_def pagedir_inv_def)
  obtain k q where g: "palloc_get_page {PAL_USER} (pal p) = Some (k, q)" and got: "got_page {PAL_USER} (pal p) k q"
    using palloc_get_page_spec [OF pi, of "{PAL_USER}"] by auto
  obtain s' where rd: "file_read s f (int r) = Some (take r D, f\<lparr>f_pos := f_pos f + int (length (take r D))\<rparr>, s')"
    "fview s' = fview s" "open_wf s' (f_inode f) sec" using file_read_spec [OF f, of r] unfolding D_def by blast
  show ?thesis
  proof (cases "k = NULL")
    case True
    then have "q = pal p" using got by (simp add: got_page_def)
    then have "load_page pd s f p upage r (PGSIZE - r) w = Some (False, s, f, p)" using g True by (simp add: load_page_def)
    then show ?thesis using inv f by (intro exI [of _ False] exI [of _ s] exI [of _ f] exI [of _ p]) simp
  next
    case False
    have k: "pg_ofs k = 0" "pg_no k \<notin> used_pages (pal p)" using got False by (auto simp: got_page_def)
    have giveback: "\<exists>p'. free_page k (p\<lparr>pal := q\<lparr>ram := m\<rparr>\<rparr>) = Some p' \<and> proc_inv pd p' \<and> user_map (mem p') pd = user_map (mem p) pd
        \<and> (\<forall>a. user_byte p' pd a = user_byte p pd a) \<and> used_pages (pal p') = used_pages (pal p)"
      if m: "\<forall>x. pg_no x \<noteq> pg_no k \<longrightarrow> m x = ram q x" for m
    proof -
      note n = new_user_page [OF inv got False m]
      let ?p = "p\<lparr>pal := q\<lparr>ram := m\<rparr>\<rparr>"
      obtain p' where p': "free_page k ?p = Some p'" "proc_inv pd p'" "user_map (mem p') pd = user_map (mem ?p) pd"
        "\<forall>a. user_byte p' pd a = user_byte ?p pd a" "used_pages (pal p') = used_pages (pal ?p) - {pg_no k}"
        using free_user_page [OF n(1) k(1) n(5,6)] by blast
      have "used_pages q = insert (pg_no k) (used_pages (pal p))" using got False by (auto simp: got_page_def used_pages_def)
      then have "used_pages (pal p') = used_pages (pal p)" using p'(5) k(2) by (simp add: used_pages_def)
      then show ?thesis using p'(1-4) n(2,3) by simp
    qed
    let ?m1 = "poke k (take r D) (ram q)"
    have m1: "\<forall>x. pg_no x \<noteq> pg_no k \<longrightarrow> ?m1 x = ram q x" 
    proof (intro allI impI)
      fix x
      assume "pg_no x \<noteq> pg_no k"
      then have "\<not> (k \<le> x \<and> x < k + PGSIZE)" using in_page [OF k(1), of x] by simp
      then show "?m1 x = ram q x" using r by (auto simp: poke_def)
    qed
    show ?thesis
    proof (cases "r \<le> length D")
      case False
      obtain p' where p': "free_page k (p\<lparr>pal := q\<lparr>ram := ?m1\<rparr>\<rparr>) = Some p'" "proc_inv pd p'" "user_map (mem p') pd = user_map (mem p) pd"
        "\<forall>a. user_byte p' pd a = user_byte p pd a" "used_pages (pal p') = used_pages (pal p)" using giveback [OF m1] by blast
      then have "load_page pd s f p upage r (PGSIZE - r) w = Some (False, s', f\<lparr>f_pos := f_pos f + int (length (take r D))\<rparr>, p')"
        using g \<open>k \<noteq> NULL\<close> rd(1) False by (simp add: load_page_def set_mem_def)
      then show ?thesis using p' rd(2,3) 
        by (intro exI [of _ False] exI [of _ s'] exI [of _ "f\<lparr>f_pos := f_pos f + int (length (take r D))\<rparr>"] exI [of _ p']) simp
    next
      case True
      let ?m2 = "\<lambda>x. if k + r \<le> x \<and> x < k + r + (PGSIZE - r) then 0 else ?m1 x"
      have m2: "\<forall>x. pg_no x \<noteq> pg_no k \<longrightarrow> ?m2 x = ram q x" 
      proof (intro allI impI)
        fix x
        assume x: "pg_no x \<noteq> pg_no k"
        then have "\<not> (k \<le> x \<and> x < k + PGSIZE)" using in_page [OF k(1), of x] by simp
        then show "?m2 x = ram q x" using r m1 [rule_format, OF x] by auto
      qed
      let ?p2 = "p\<lparr>pal := q\<lparr>ram := ?m2\<rparr>\<rparr>"
      note n = new_user_page [OF inv got \<open>k \<noteq> NULL\<close> m2]
      have ms: "memset ?m1 (k + r) 0 (PGSIZE - r) = Some (k + r, ?m2)" using \<open>k \<noteq> NULL\<close> by (simp add: memset_def memset_loop_eq)
      obtain ok p' where i: "install_page pd upage k w ?p2 = Some (ok, p')" "\<not> ok \<longrightarrow> p' = ?p2"
        "ok \<longrightarrow> proc_inv pd p' \<and> user_map (mem ?p2) pd (pg_no upage) = None \<and> user_map (mem p') pd = (user_map (mem ?p2) pd)(pg_no upage \<mapsto> (k, w))
          \<and> (\<forall>a. user_byte p' pd a = (if pg_no a = pg_no upage then Some (mem ?p2 (k + pg_ofs a)) else user_byte ?p2 pd a))"
        using map_user_page [OF n(1) up n(4) n(5,6), of w] by blast
      let ?f = "f\<lparr>f_pos := f_pos f + int (length (take r D))\<rparr>"
      have run: "load_page pd s f p upage r (PGSIZE - r) w = (if ok then Some (True, s', ?f, p') else do { p \<leftarrow> free_page k p'; Some (False, s', ?f, p) })"
        using g \<open>k \<noteq> NULL\<close> rd(1) True ms i(1) by (simp add: load_page_def set_mem_def)
      show ?thesis
      proof (cases ok)
        case True
        have c: "mem ?p2 (k + pg_ofs a) = (if pg_ofs a < r then D ! pg_ofs a else 0)" for a
          using \<open>r \<le> length D\<close> by (auto simp: poke_def pg_ofs_def PGSIZE_def)
        have "user_byte p' pd a = (if pg_no a = pg_no upage then Some (if pg_ofs a < r then D ! pg_ofs a else 0) else user_byte p pd a)" for a
          using i(3) True n(3) c by simp
        then show ?thesis using run True i(3) rd(2,3) \<open>r \<le> length D\<close> n(2)
          by (intro exI [of _ True] exI [of _ s'] exI [of _ ?f] exI [of _ p']) auto
      next
        case False
        obtain p3 where "free_page k ?p2 = Some p3" "proc_inv pd p3" "user_map (mem p3) pd = user_map (mem p) pd"
          "\<forall>a. user_byte p3 pd a = user_byte p pd a" "used_pages (pal p3) = used_pages (pal p)" using giveback [OF m2] by blast
        then show ?thesis using run False i(2) rd(2,3)
          by (intro exI [of _ False] exI [of _ s'] exI [of _ ?f] exI [of _ p3]) simp
      qed
    qed
  qed
qed

section \<open>Loading a segment\<close>

lemma page_of_segment:
  assumes "pg_ofs upage = 0"
  shows "pg_no a = pg_no upage \<longleftrightarrow> upage \<le> a \<and> a < upage + PGSIZE" "pg_no a = pg_no upage \<Longrightarrow> pg_ofs a = a - upage"
proof -
  show "pg_no a = pg_no upage \<longleftrightarrow> upage \<le> a \<and> a < upage + PGSIZE" by (rule in_page [OF assms])
  assume "pg_no a = pg_no upage"
  then show "pg_ofs a = a - upage"
    using pg_no_address [OF assms] unfolding pg_ofs_def pg_no_def by (metis minus_mult_div_eq_mod)
qed

text \<open>What a successful load of \<open>n\<close> pages at \<open>upage\<close> does: \<open>D\<close> is the file from its position on.\<close>

definition loaded :: "addr \<Rightarrow> bytes \<Rightarrow> addr \<Rightarrow> nat \<Rightarrow> nat \<Rightarrow> bool \<Rightarrow> paging \<Rightarrow> paging \<Rightarrow> bool" where
  "loaded pd D upage n r w p p' \<longleftrightarrow> r \<le> length D
     \<and> (\<forall>v. pg_no upage \<le> v \<and> v < pg_no upage + n \<longrightarrow> user_map (mem p) pd v = None \<and> (\<exists>k. user_map (mem p') pd v = Some (k, w)))
     \<and> (\<forall>v. \<not> (pg_no upage \<le> v \<and> v < pg_no upage + n) \<longrightarrow> user_map (mem p') pd v = user_map (mem p) pd v)
     \<and> (\<forall>a. user_byte p' pd a
          = (if upage \<le> a \<and> a < upage + n * PGSIZE then Some (if a - upage < r then D ! (a - upage) else 0) else user_byte p pd a))"

lemma pg_no_next: "pg_ofs u = 0 \<Longrightarrow> pg_no (u + PGSIZE) = pg_no u + 1 \<and> pg_ofs (u + PGSIZE) = 0"
  using pg_no_at [of u 1] by simp

lemma loaded_keeps:
  assumes "loaded pd D upage n r w p p'" and "pg_ofs upage = 0" and "user_byte p pd a = Some b"
  shows "user_byte p' pd a = Some b"
proof -
  note L = assms(1) [unfolded loaded_def]
  obtain q where q: "upage = 4096 * q" using assms(2) unfolding pg_ofs_def PGSIZE_def by (metis mod_0_imp_dvd dvdE)
  have "user_map (mem p) pd (pg_no a) \<noteq> None" using assms(3) by (auto simp: user_byte_def)
  then have "\<not> (pg_no upage \<le> pg_no a \<and> pg_no a < pg_no upage + n)"
    using L [THEN conjunct2, THEN conjunct1, THEN spec, of "pg_no a"] by (simp only: simp_thms)
  then have "\<not> (q \<le> a div 4096 \<and> a div 4096 < q + n)" by (simp add: q pg_no_def PGSIZE_def)
  moreover have "upage + n * PGSIZE = 4096 * (q + n)" by (simp add: q PGSIZE_def algebra_simps)
  ultimately have "\<not> (upage \<le> a \<and> a < upage + n * PGSIZE)"
    unfolding q PGSIZE_def by (simp add: div_less_iff_less_mult less_eq_div_iff_mult_less_eq mult.commute)
  moreover have "user_byte p' pd a
      = (if upage \<le> a \<and> a < upage + n * PGSIZE then Some (if a - upage < r then D ! (a - upage) else 0) else user_byte p pd a)" using L by blast
  ultimately show ?thesis using assms(3) by (simp only: if_False)
qed

lemma loaded_step:
  assumes up: "pg_ofs upage = 0" and R: "R \<le> Suc n * PGSIZE"
    and one: "min R PGSIZE \<le> length D" "user_map (mem p) pd (pg_no upage) = None"
      "user_map (mem q) pd = (user_map (mem p) pd)(pg_no upage \<mapsto> (k, w))"
      "\<And>a. user_byte q pd a = (if pg_no a = pg_no upage then Some (if pg_ofs a < min R PGSIZE then D ! pg_ofs a else 0) else user_byte p pd a)"
    and more: "loaded pd (drop (min R PGSIZE) D) (upage + PGSIZE) n (R - min R PGSIZE) w q p'"
  shows "loaded pd D upage (Suc n) R w p p'"
  unfolding loaded_def
proof (intro conjI allI impI)
  note m = more [unfolded loaded_def]
  note nx = pg_no_next [OF up]
  show len: "R \<le> length D" using m one(1) by auto
  fix v
  show "user_map (mem p) pd v = None" if h: "pg_no upage \<le> v \<and> v < pg_no upage + Suc n"
  proof (cases "v = pg_no upage")
    case False
    then have "user_map (mem q) pd v = None" using m h nx by auto
    then show ?thesis using one(3) False by simp
  qed (use one(2) in simp)
  show "\<exists>k. user_map (mem p') pd v = Some (k, w)" if h: "pg_no upage \<le> v \<and> v < pg_no upage + Suc n"
  proof (cases "v = pg_no upage")
    case True
    then have "user_map (mem p') pd v = user_map (mem q) pd v" using m nx by auto
    then show ?thesis using one(3) True by simp
  qed (use m h nx in auto)
  show "user_map (mem p') pd v = user_map (mem p) pd v" if h: "\<not> (pg_no upage \<le> v \<and> v < pg_no upage + Suc n)"
  proof -
    have "user_map (mem p') pd v = user_map (mem q) pd v" using m h nx by auto
    then show ?thesis using one(3) h by auto
  qed
next
  note m = more [unfolded loaded_def]
  fix a
  have later: "user_byte p' pd a = (if upage + PGSIZE \<le> a \<and> a < upage + PGSIZE + n * PGSIZE
      then Some (if a - (upage + PGSIZE) < R - min R PGSIZE then drop (min R PGSIZE) D ! (a - (upage + PGSIZE)) else 0) else user_byte q pd a)"
    using m by blast
  have first: "user_byte q pd a = (if upage \<le> a \<and> a < upage + PGSIZE then Some (if a - upage < min R PGSIZE then D ! (a - upage) else 0) else user_byte p pd a)"
    using one(4) [of a] page_of_segment [OF up, of a] by simp
  have "R - min R PGSIZE > 0 \<Longrightarrow> min R PGSIZE = PGSIZE" by simp
  then show "user_byte p' pd a = (if upage \<le> a \<and> a < upage + Suc n * PGSIZE then Some (if a - upage < R then D ! (a - upage) else 0) else user_byte p pd a)"
    using later first m one(1) by (auto simp: PGSIZE_def)
qed

lemma load_segment_loop_spec:
  assumes "proc_inv pd p" and "open_wf s (f_inode f) sec" "0 \<le> f_pos f" and "pg_ofs upage = 0" "upage + n * PGSIZE \<le> PHYS_BASE"
    and "unat rb + unat zb = n * PGSIZE"
  shows "\<exists>ok s' f' p'. load_segment_loop pd s f p upage rb zb w = Some (ok, s', f', p') \<and> proc_inv pd p' \<and> fview s' = fview s
    \<and> open_wf s' (f_inode f) sec \<and> f_inode f' = f_inode f
    \<and> (ok \<longrightarrow> loaded pd (drop (nat (f_pos f)) (file_data (fview s) sec)) upage n (unat rb) w p p')
    \<and> (\<forall>a. \<not> (upage \<le> a \<and> a < upage + n * PGSIZE) \<longrightarrow> user_byte p' pd a = user_byte p pd a)"
  using assms
proof (induction n arbitrary: p s f upage rb zb)
  case 0
  then have "rb = 0" "zb = 0" by (auto simp: unat_eq_0)
  then show ?case using 0 by (intro exI [of _ True] exI [of _ s] exI [of _ f] exI [of _ p]) (auto simp: load_segment_loop.simps loaded_def)
next
  case (Suc n)
  let ?r = "min (unat rb) PGSIZE"
  let ?D = "drop (nat (f_pos f)) (file_data (fview s) sec)"
  have usr: "is_user_vaddr upage" using Suc.prems(5) by (simp add: is_user_vaddr_def PGSIZE_def)
  have r: "(if unat rb < PGSIZE then unat rb else PGSIZE) = ?r" by auto
  have pos: "rb > 0 \<or> zb > 0" using Suc.prems(6) by (auto simp: PGSIZE_def word_gt_0)
  obtain ok s1 f1 q where l: "load_page pd s f p upage ?r (PGSIZE - ?r) w = Some (ok, s1, f1, q)" "proc_inv pd q" "fview s1 = fview s"
      "open_wf s1 (f_inode f) sec" "f_inode f1 = f_inode f"
    and no: "\<not> ok \<longrightarrow> user_map (mem q) pd = user_map (mem p) pd \<and> (\<forall>a. user_byte q pd a = user_byte p pd a) \<and> used_pages (pal q) = used_pages (pal p)"
    and yes: "ok \<longrightarrow> ?r \<le> length ?D \<and> f_pos f1 = f_pos f + int ?r \<and> user_map (mem p) pd (pg_no upage) = None
        \<and> (\<exists>k. user_map (mem q) pd = (user_map (mem p) pd)(pg_no upage \<mapsto> (k, w)))
        \<and> (\<forall>a. user_byte q pd a = (if pg_no a = pg_no upage then Some (if pg_ofs a < ?r then ?D ! pg_ofs a else 0) else user_byte p pd a))"
    using load_page_spec [OF Suc.prems(1-4) usr min.cobounded2, of "unat rb" w] by (elim exE conjE)
  show ?case
  proof (cases ok)
    case False
    then have "load_segment_loop pd s f p upage rb zb w = Some (False, s1, f1, q)"
      using l(1) pos r by (subst load_segment_loop.simps) simp
    then show ?thesis using l no False by auto
  next
    case True
    have yes': "?r \<le> length ?D" "f_pos f1 = f_pos f + int ?r" using yes True by auto
    have up': "size_add upage PGSIZE = upage + PGSIZE" using Suc.prems(5) by (simp add: PGSIZE_def PHYS_BASE_def)
    have rb': "unat (rb - word_of_nat ?r) = unat rb - ?r" by (simp add: unat_sub word_le_nat_alt unat_of_nat PGSIZE_def)
    have z: "PGSIZE - ?r \<le> unat zb" using Suc.prems(6) by auto
    have zb': "unat (zb - word_of_nat (PGSIZE - ?r)) = unat zb - (PGSIZE - ?r)"
      using z by (simp add: unat_sub word_le_nat_alt unat_of_nat PGSIZE_def)
    have sum: "unat (rb - word_of_nat ?r) + unat (zb - word_of_nat (PGSIZE - ?r)) = n * PGSIZE"
      unfolding rb' zb' using Suc.prems(6) z by (auto simp: min_def)
    have pos1: "0 \<le> f_pos f1" using yes'(2) Suc.prems(3) by simp
    have wf1: "open_wf s1 (f_inode f1) sec" using l(4,5) by simp
    have D1: "drop (nat (f_pos f1)) (file_data (fview s1) sec) = drop ?r ?D"
      using yes'(2) Suc.prems(3) l(3) by (simp add: nat_add_distrib add.commute)
    have b1: "pg_ofs (upage + PGSIZE) = 0" "upage + PGSIZE + n * PGSIZE \<le> PHYS_BASE"
      using pg_no_next [OF Suc.prems(4)] Suc.prems(5) by (simp_all add: ac_simps)
    obtain ok' s' f' p' where t: "load_segment_loop pd s1 f1 q (upage + PGSIZE) (rb - word_of_nat ?r) (zb - word_of_nat (PGSIZE - ?r)) w = Some (ok', s', f', p')"
        "proc_inv pd p'" "fview s' = fview s1" "open_wf s' (f_inode f1) sec" "f_inode f' = f_inode f1"
      and ld: "ok' \<longrightarrow> loaded pd (drop ?r ?D) (upage + PGSIZE) n (unat rb - ?r) w q p'"
      and out: "\<forall>a. \<not> (upage + PGSIZE \<le> a \<and> a < upage + PGSIZE + n * PGSIZE) \<longrightarrow> user_byte p' pd a = user_byte q pd a"
      using Suc.IH [OF l(2) wf1 pos1 b1 sum] unfolding D1 rb' by blast
    have run: "load_segment_loop pd s f p upage rb zb w = Some (ok', s', f', p')"
      using l(1) pos r t(1) True up' by (subst load_segment_loop.simps) simp
    obtain k where k: "user_map (mem q) pd = (user_map (mem p) pd)(pg_no upage \<mapsto> (k, w))" using yes True by blast
    have yes'': "user_map (mem p) pd (pg_no upage) = None" "\<And>a. user_byte q pd a
        = (if pg_no a = pg_no upage then Some (if pg_ofs a < ?r then ?D ! pg_ofs a else 0) else user_byte p pd a)" using yes True by auto
    have R: "unat rb \<le> Suc n * PGSIZE" using Suc.prems(6) by simp
    have "loaded pd ?D upage (Suc n) (unat rb) w p p'" if ok'
      using loaded_step [OF Suc.prems(4) R yes'(1) yes''(1) k yes''(2)] ld that by blast
    moreover have "user_byte p' pd a = user_byte p pd a" if "\<not> (upage \<le> a \<and> a < upage + Suc n * PGSIZE)" for a
    proof -
      have "pg_no a \<noteq> pg_no upage" using that page_of_segment(1) [OF Suc.prems(4), of a] by auto
      moreover have "user_byte p' pd a = user_byte q pd a" using out that by auto
      ultimately show ?thesis using yes True by simp
    qed
    ultimately show ?thesis using run t(2-5) l(3,5) by (intro exI [of _ ok'] exI [of _ s'] exI [of _ f'] exI [of _ p']) auto
  qed
qed

section \<open>Loadable segments\<close>

lemma unat_low: "unat (x AND PGMASK) = unat x mod 4096" for x :: u32
proof -
  have "x AND PGMASK = take_bit 12 x" by (simp add: PGMASK_def take_bit_eq_mask mask_eq_exp_minus_1)
  then have "unat (x AND PGMASK) = take_bit 12 (unat x)" by (simp only: unsigned_take_bit_eq)
  then show ?thesis by (simp add: take_bit_eq_mod)
qed

lemma unat_high: "unat (x AND NOT PGMASK) = unat x - unat x mod 4096" for x :: u32
proof -
  have "(x AND PGMASK) + (x AND NOT PGMASK) = (x AND PGMASK) OR (x AND NOT PGMASK)"
    by (rule disjunctive_add) (simp add: bit_simps)
  also have "\<dots> = x" by (rule bit_word_eqI) (auto simp: bit_simps)
  finally have e: "x AND NOT PGMASK = x - (x AND PGMASK)" by (simp add: algebra_simps)
  have "x AND PGMASK \<le> x" by (simp add: word_le_nat_alt unat_low)
  then show ?thesis unfolding e by (simp add: unat_sub unat_low)
qed

lemma sint_small: "unat (x :: u32) < 2147483648 \<Longrightarrow> sint x = int (unat x)"
proof -
  assume "unat x < 2147483648"
  then have "int (unat x) < 2147483648" by linarith
  then have "uint x < 2147483648" by simp
  then have "signed_take_bit 31 (uint x) = uint x"
    by (intro signed_take_bit_int_eq_self) (simp_all add: order_trans [of _ 0])
  then show ?thesis by (simp add: sint_uint)
qed

lemma unat_of_int_len: "0 \<le> len \<Longrightarrow> len < 4294967296 \<Longrightarrow> unat (word_of_int len :: u32) = nat len"
  by (simp add: unsigned_of_int take_bit_int_eq_self)

text \<open>The checks of a header over the numbers: no sum wraps around.\<close>

lemma validate_segment_iff:
  assumes "0 \<le> len" "len < 2147483648"
  shows "validate_segment phdr len \<longleftrightarrow> unat (p_offset phdr) mod 4096 = unat (p_vaddr phdr) mod 4096 \<and> int (unat (p_offset phdr)) \<le> len
    \<and> unat (p_filesz phdr) \<le> unat (p_memsz phdr) \<and> 0 < unat (p_memsz phdr) \<and> PGSIZE \<le> unat (p_vaddr phdr)
    \<and> unat (p_vaddr phdr) + unat (p_memsz phdr) < PHYS_BASE"
proof -
  let ?v = "p_vaddr phdr" and ?m = "p_memsz phdr"
  have a: "p_offset phdr AND PGMASK = ?v AND PGMASK \<longleftrightarrow> unat (p_offset phdr) mod 4096 = unat ?v mod 4096"
    unfolding unat_low [symmetric] by (auto intro: unsigned_word_eqI)
  have l: "unat (word_of_int len :: u32) = nat len" using assms by (simp add: unat_of_int_len)
  have b: "p_offset phdr > word_of_int len \<longleftrightarrow> \<not> int (unat (p_offset phdr)) \<le> len"
    unfolding word_less_nat_alt l using assms(1) by linarith
  have sum: "unat (?v + ?m) = (unat ?v + unat ?m) mod 4294967296" by (simp add: unat_word_ariths)
  have bnd: "unat ?v < 4294967296" "unat ?m < 4294967296" using unsigned_less [of ?v] unsigned_less [of ?m] by simp_all
  have c: "(is_user_vaddr (unat ?v) \<and> is_user_vaddr (unat (?v + ?m)) \<and> \<not> ?v + ?m < ?v) \<longleftrightarrow> unat ?v + unat ?m < PHYS_BASE" if "unat ?m > 0"
    unfolding word_less_nat_alt sum is_user_vaddr_def PHYS_BASE_def using bnd that
    by (cases "unat ?v + unat ?m < 4294967296") (auto simp: mod_if le_mod_geq)
  show ?thesis unfolding validate_segment_def using a b c by (auto simp: word_less_nat_alt unat_eq_0 [symmetric] not_less)
qed

lemma round_up_bounds: "x \<le> (x + 4095) div 4096 * 4096 \<and> (x + 4095) div 4096 * 4096 < x + 4096" for x :: nat
  using div_mult_mod_eq [of "x + 4095" 4096] mod_less_divisor [of 4096 "x + 4095"] by linarith

lemma pages_le: "4096 * k < x + 4097 \<Longrightarrow> k \<le> x div 4096 + 1" for k x :: nat
proof -
  assume "4096 * k < x + 4097"
  then have "k \<le> (x + 4096) div 4096" by (simp add: less_eq_div_iff_mult_less_eq)
  then show ?thesis by simp
qed

lemma segment_sizes_spec:
  assumes fm: "unat (p_filesz phdr) \<le> unat (p_memsz phdr)" and end_: "unat (p_vaddr phdr) + unat (p_memsz phdr) < PHYS_BASE"
  defines "po \<equiv> unat (p_vaddr phdr) mod 4096"
  defines "n \<equiv> (po + unat (p_memsz phdr) + 4095) div 4096"
  shows "\<exists>r z. segment_sizes phdr = (r, z) \<and> unat r = (if unat (p_filesz phdr) > 0 then po + unat (p_filesz phdr) else 0)
    \<and> unat r + unat z = n * PGSIZE \<and> unat (r + z) = n * PGSIZE \<and> unat (p_vaddr phdr) - po + n * PGSIZE \<le> PHYS_BASE"
proof -
  let ?v = "p_vaddr phdr" and ?m = "p_memsz phdr" and ?f = "p_filesz phdr"
  let ?po = "?v AND PGMASK"
  have po: "unat ?po = po" by (simp add: po_def unat_low)
  have pole: "po \<le> unat ?v" "po < 4096" by (simp_all add: po_def)
  have m: "unat (?po + ?m) = po + unat ?m" using pole end_ by (simp add: unat_word_ariths po PHYS_BASE_def)
  have f: "unat (?po + ?f) = po + unat ?f" using pole end_ fm by (simp add: unat_word_ariths po PHYS_BASE_def)
  have ru: "ROUND_UP (unat (?po + ?m)) PGSIZE = n * PGSIZE"
    using pole end_ unfolding m by (simp add: ROUND_UP_def PGSIZE_def n_def PHYS_BASE_def)
  have n: "n * PGSIZE < po + unat ?m + 4096" "po + unat ?m \<le> n * PGSIZE"
    unfolding n_def PGSIZE_def using round_up_bounds [of "po + unat ?m"] by simp_all
  have up: "unat (word_of_nat (n * PGSIZE) :: u32) = n * PGSIZE" using n(1) pole end_ by (subst unat_of_nat) (simp add: PHYS_BASE_def)
  obtain q where q: "unat ?v - po = 4096 * q" using pole(1) unfolding po_def by (metis minus_mod_eq_mult_div)
  have "4096 * q + n * PGSIZE < PHYS_BASE + 4096" using n(1) q pole end_ by linarith
  then have "4096 * (q + n) < 4096 * 786433" by (simp add: PGSIZE_def PHYS_BASE_def algebra_simps)
  then have "q + n \<le> 786432" by simp
  then have fit: "unat ?v - po + n * PGSIZE \<le> PHYS_BASE" unfolding q PGSIZE_def PHYS_BASE_def by linarith
  show ?thesis
  proof (cases "?f > 0")
    case True
    have le: "?po + ?f \<le> word_of_nat (n * PGSIZE)" unfolding word_le_nat_alt f up using fm n(2) by simp
    have "unat (word_of_nat (n * PGSIZE) - (?po + ?f)) = n * PGSIZE - (po + unat ?f)" using le f up by (simp only: unat_sub)
    then have z: "unat (?po + ?f) + unat (word_of_nat (n * PGSIZE) - (?po + ?f)) = n * PGSIZE" using f fm n(2) by simp
    have "segment_sizes phdr = (?po + ?f, word_of_nat (n * PGSIZE) - (?po + ?f))" using True ru by (simp add: segment_sizes_def Let_def)
    moreover have "0 < unat ?f" using True by (simp add: word_gt_0 unat_gt_0)
    moreover have "(?po + ?f) + (word_of_nat (n * PGSIZE) - (?po + ?f)) = word_of_nat (n * PGSIZE)" by simp
    ultimately show ?thesis using f z up fit by (intro exI [of _ "?po + ?f"] exI [of _ "word_of_nat (n * PGSIZE) - (?po + ?f)"]) simp
  next
    case False
    then have "segment_sizes phdr = (0, word_of_nat (n * PGSIZE))" using ru by (simp add: segment_sizes_def Let_def)
    then show ?thesis using False up fit by (intro exI [of _ 0] exI [of _ "word_of_nat (n * PGSIZE)"]) (simp add: word_gt_0)
  qed
qed

lemma file_length_spec:
  assumes "open_wf s (f_inode f) sec"
  shows "\<exists>s'. file_length s f = Some (int (length (file_data (fview s) sec)), s') \<and> fview s' = fview s \<and> open_wf s' (f_inode f) sec
    \<and> length (file_data (fview s) sec) < 2147483648"
proof -
  obtain s' where s': "inode_length s (f_inode f) = Some (ilength (inode_at (fview s) sec), s')" "same_files s s'"
    using inode_length_spec [OF assms] .
  have "0 \<le> ilength (inode_at (fview s) sec)" "ilength (inode_at (fview s) sec) \<le> int INODE_SPAN"
    using assms by (auto simp: open_wf_def inode_wf_def Let_def)
  then show ?thesis using s' same_filesD(2) [OF s'(2)] open_wf_same_files [OF assms s'(2)]
    by (simp add: file_length_def file_data_def inode_consts)
qed

text \<open>
  The contents of a loaded segment: the bytes of the file, then zeros up to the size in memory; nothing outside its pages changes.
\<close>

definition segment_in_memory :: "addr \<Rightarrow> bytes \<Rightarrow> Elf32_Phdr \<Rightarrow> paging \<Rightarrow> paging \<Rightarrow> bool" where
  "segment_in_memory pd F phdr p p' \<longleftrightarrow>
     (\<forall>i < unat (p_memsz phdr). user_byte p' pd (unat (p_vaddr phdr) + i)
        = Some (if i < unat (p_filesz phdr) then F ! (unat (p_offset phdr) + i) else 0))
     \<and> (\<forall>a. pg_no a < pg_no (unat (p_vaddr phdr)) \<or> pg_no (unat (p_vaddr phdr) + unat (p_memsz phdr) - 1) < pg_no a
          \<longrightarrow> user_byte p' pd a = user_byte p pd a)"

lemma load_pt_load_spec:
  assumes inv: "proc_inv pd p" and f: "open_wf s (f_inode f) sec"
  defines "F \<equiv> file_data (fview s) sec"
  shows "\<exists>ok s' f' p'. load_pt_load pd s f p phdr = Some (ok, s', f', p') \<and> proc_inv pd p' \<and> fview s' = fview s \<and> open_wf s' (f_inode f) sec
    \<and> f_inode f' = f_inode f
    \<and> (ok \<longrightarrow> PGSIZE \<le> unat (p_vaddr phdr) \<and> unat (p_vaddr phdr) + unat (p_memsz phdr) < PHYS_BASE
        \<and> unat (p_offset phdr) + unat (p_filesz phdr) \<le> length F \<and> segment_in_memory pd F phdr p p'
        \<and> (\<forall>a b. user_byte p pd a = Some b \<longrightarrow> user_byte p' pd a = Some b))"
proof -
  let ?v = "unat (p_vaddr phdr)" and ?m = "unat (p_memsz phdr)" and ?fs = "unat (p_filesz phdr)" and ?o = "unat (p_offset phdr)"
  obtain s1 where s1: "file_length s f = Some (int (length F), s1)" "fview s1 = fview s" "open_wf s1 (f_inode f) sec" "length F < 2147483648"
    using file_length_spec [OF f] unfolding F_def by blast
  show ?thesis
  proof (cases "validate_segment phdr (int (length F))")
    case False
    then show ?thesis using s1 inv by (intro exI [of _ False] exI [of _ s1] exI [of _ f] exI [of _ p]) (simp add: load_pt_load_def)
  next
    case True
    have len31: "0 \<le> int (length F)" "int (length F) < 2147483648" using s1(4) by simp_all
    have V: "?o mod 4096 = ?v mod 4096" "?o \<le> length F" "?fs \<le> ?m" "0 < ?m" "PGSIZE \<le> ?v" "?v + ?m < PHYS_BASE"
      using True unfolding validate_segment_iff [OF len31] of_nat_le_iff by auto
    define po where "po = ?v mod 4096"
    define n where "n = (po + ?m + 4095) div 4096"
    obtain r z where rz: "segment_sizes phdr = (r, z)" "unat r = (if ?fs > 0 then po + ?fs else 0)" "unat r + unat z = n * PGSIZE"
      "unat (r + z) = n * PGSIZE" "?v - po + n * PGSIZE \<le> PHYS_BASE"
      using segment_sizes_spec [OF V(3,6)] unfolding po_def n_def by blast
    let ?u = "?v - po"
    have u: "pg_ofs ?u = 0" by (simp add: po_def pg_ofs_def PGSIZE_def minus_mod_eq_mult_div)
    have fp: "sint (p_offset phdr AND NOT PGMASK) = int (?o - po)"
    proof -
      have h: "unat (p_offset phdr AND NOT PGMASK) = ?o - po" using V(1) by (simp add: unat_high po_def)
      have "?o - po < 2147483648" using V(2) s1(4) by simp
      then show ?thesis using h sint_small [of "p_offset phdr AND NOT PGMASK"] by simp
    qed
    have om: "(?o - po) mod 4096 = 0" unfolding po_def V(1) [symmetric] by (simp add: minus_mod_eq_mult_div)
    then have om': "int (?o - po) mod int PGSIZE = 0" 
      unfolding PGSIZE_def by (simp only: of_nat_mod [symmetric] of_nat_0)
    let ?f = "f\<lparr>f_pos := int (?o - po)\<rparr>"
    have wf: "open_wf s1 (f_inode ?f) sec" "0 \<le> f_pos ?f" using s1(3) by simp_all
    obtain ok s' f' p' where l: "load_segment_loop pd s1 ?f p ?u r z (p_flags phdr AND PF_W \<noteq> 0) = Some (ok, s', f', p')" "proc_inv pd p'"
        "fview s' = fview s1" "open_wf s' (f_inode ?f) sec" "f_inode f' = f_inode ?f"
      and ld: "ok \<longrightarrow> loaded pd (drop (nat (f_pos ?f)) (file_data (fview s1) sec)) ?u n (unat r) (p_flags phdr AND PF_W \<noteq> 0) p p'"
      using load_segment_loop_spec [OF inv wf u rz(5,3)] by blast
    have "load_segment pd s1 f p (sint (p_offset phdr AND NOT PGMASK)) (unat (p_vaddr phdr AND NOT PGMASK)) r z (p_flags phdr AND PF_W \<noteq> 0)
        = Some (ok, s', f', p')"
      using l(1) u om' unfolding fp by (simp add: load_segment_def unat_high po_def [symmetric] file_seek_def rz(4))
    then have run: "load_pt_load pd s f p phdr = Some (ok, s', f', p')" using s1(1) True rz(1) by (simp add: load_pt_load_def)
    have "?o + ?fs \<le> length F \<and> segment_in_memory pd F phdr p p' \<and> (\<forall>a b. user_byte p pd a = Some b \<longrightarrow> user_byte p' pd a = Some b)" if ok
    proof -
      let ?D = "drop (?o - po) F"
      note L = ld [rule_format, OF that, unfolded loaded_def]
      have D: "drop (nat (f_pos ?f)) (file_data (fview s1) sec) = ?D" using s1(2) by (simp add: F_def)
      have len: "unat r \<le> length ?D" using L unfolding D by blast
      have po: "po \<le> ?o" "po \<le> ?v" "po < 4096" using V(1) unfolding po_def by (metis mod_less_eq_dividend, simp_all)
      have fit: "?o + ?fs \<le> length F" using len rz(2) po V(2) by (auto split: if_splits)
      have n: "po + ?m \<le> n * PGSIZE" "n * PGSIZE < po + ?m + 4096"
        unfolding n_def PGSIZE_def using round_up_bounds [of "po + ?m"] by simp_all
      have B: "user_byte p' pd a = (if ?u \<le> a \<and> a < ?u + n * PGSIZE then Some (if a - ?u < unat r then ?D ! (a - ?u) else 0) else user_byte p pd a)" for a
        using L unfolding D by blast
      have "user_byte p' pd (?v + i) = Some (if i < ?fs then F ! (?o + i) else 0)" if i: "i < ?m" for i
      proof -
        have "?v + i - ?u = po + i" "?u \<le> ?v + i" "?v + i < ?u + n * PGSIZE" using po n i by auto
        then show ?thesis using B [of "?v + i"] rz(2) fit po by (auto simp: ac_simps)
      qed
      moreover have "user_byte p' pd a = user_byte p pd a" if a: "pg_no a < pg_no ?v \<or> pg_no (?v + ?m - 1) < pg_no a" for a
      proof -
        have uv: "pg_no ?u = pg_no ?v" using u po_def by (simp add: pg_no_def PGSIZE_def po_def minus_mod_eq_mult_div)
        obtain q where q: "?u = 4096 * q" using u unfolding pg_ofs_def PGSIZE_def by (metis mod_0_imp_dvd dvdE)
        have e: "?u + n * PGSIZE = 4096 * (q + n)" by (simp add: q PGSIZE_def algebra_simps)
        have "4096 * (q + n) < ?v + ?m - 1 + 4097" using n(2) po e V(4) by linarith
        then have "q + n \<le> pg_no (?v + ?m - 1) + 1" unfolding pg_no_def PGSIZE_def by (rule pages_le)
        moreover have "pg_no ?v = q" using uv q by (simp add: pg_no_def PGSIZE_def)
        ultimately have "a div 4096 < q \<or> q + n \<le> a div 4096" using a unfolding pg_no_def PGSIZE_def by linarith
        then have "\<not> (?u \<le> a \<and> a < ?u + n * PGSIZE)" unfolding e q
          by (auto simp: div_less_iff_less_mult less_eq_div_iff_mult_less_eq PGSIZE_def)
        then show ?thesis unfolding B [of a] by (rule if_not_P)
      qed
      ultimately have "segment_in_memory pd F phdr p p'" unfolding segment_in_memory_def by blast
      moreover have "\<forall>a b. user_byte p pd a = Some b \<longrightarrow> user_byte p' pd a = Some b"
        using loaded_keeps [OF ld [rule_format, OF that] u] by blast
      ultimately show ?thesis using fit by blast
    qed
    then show ?thesis using run l(2-5) s1(2) V(5,6) by (intro exI [of _ ok] exI [of _ s'] exI [of _ f'] exI [of _ p']) simp
  qed
qed

section \<open>The program headers\<close>

text \<open>Header number \<open>j\<close> of a table that starts at \<open>ofs\<close> in the file.\<close>

definition header_at :: "bytes \<Rightarrow> nat \<Rightarrow> nat \<Rightarrow> Elf32_Phdr" where
  "header_at F ofs j = phdr_of_bytes (take PHDR_SIZE (drop (ofs + j * PHDR_SIZE) F))"

text \<open>What a loaded program promises of one header.\<close>

definition header_served :: "addr \<Rightarrow> bytes \<Rightarrow> paging \<Rightarrow> Elf32_Phdr \<Rightarrow> bool" where
  "header_served pd F p h \<longleftrightarrow> p_type h \<notin> {PT_DYNAMIC, PT_INTERP, PT_SHLIB} \<and> (p_type h = PT_LOAD \<longrightarrow>
     PGSIZE \<le> unat (p_vaddr h) \<and> unat (p_vaddr h) + unat (p_memsz h) < PHYS_BASE \<and> unat (p_offset h) + unat (p_filesz h) \<le> length F
     \<and> (\<forall>i < unat (p_memsz h). user_byte p pd (unat (p_vaddr h) + i)
          = Some (if i < unat (p_filesz h) then F ! (unat (p_offset h) + i) else 0)))"

lemma header_served_mono:
  "header_served pd F p h \<Longrightarrow> \<forall>a b. user_byte p pd a = Some b \<longrightarrow> user_byte p' pd a = Some b \<Longrightarrow> header_served pd F p' h"
  by (simp add: header_served_def)

lemma one_header_spec:
  assumes inv: "proc_inv pd p" and f: "open_wf s (f_inode f) sec"
  defines "F \<equiv> file_data (fview s) sec"
  shows "\<exists>ok s' f' p'. load_header pd s f p h = Some (ok, s', f', p')
    \<and> proc_inv pd p' \<and> fview s' = fview s \<and> open_wf s' (f_inode f) sec \<and> f_inode f' = f_inode f
    \<and> (ok \<longrightarrow> header_served pd F p' h \<and> (\<forall>a b. user_byte p pd a = Some b \<longrightarrow> user_byte p' pd a = Some b))"
proof (cases "p_type h = PT_LOAD")
  case True
  have t: "PT_LOAD \<notin> {PT_NULL, PT_NOTE, PT_PHDR, PT_STACK}" "PT_LOAD \<notin> {PT_DYNAMIC, PT_INTERP, PT_SHLIB}" by (simp_all add: elf_types)
  obtain ok s' f' p' where l: "load_pt_load pd s f p h = Some (ok, s', f', p')" "proc_inv pd p'" "fview s' = fview s" "open_wf s' (f_inode f) sec"
      "f_inode f' = f_inode f" and k: "ok \<longrightarrow> PGSIZE \<le> unat (p_vaddr h) \<and> unat (p_vaddr h) + unat (p_memsz h) < PHYS_BASE
        \<and> unat (p_offset h) + unat (p_filesz h) \<le> length F \<and> segment_in_memory pd F h p p'
        \<and> (\<forall>a b. user_byte p pd a = Some b \<longrightarrow> user_byte p' pd a = Some b)"
    using load_pt_load_spec [OF inv f, of h] unfolding F_def by blast
  have "ok \<longrightarrow> header_served pd F p' h" using k True t(2) unfolding header_served_def segment_in_memory_def by metis
  moreover have "load_header pd s f p h = Some (ok, s', f', p')" using l(1) True t by (simp add: load_header_def)
  ultimately show ?thesis using l(2-) k by (intro exI [of _ ok] exI [of _ s'] exI [of _ f'] exI [of _ p']) simp
next
  case False
  have "load_header pd s f p h = Some (p_type h \<notin> {PT_DYNAMIC, PT_INTERP, PT_SHLIB}, s, f, p)"
    using False by (auto simp: load_header_def elf_types)
  then show ?thesis using inv f False
    by (intro exI [of _ "p_type h \<notin> {PT_DYNAMIC, PT_INTERP, PT_SHLIB}"] exI [of _ s] exI [of _ f] exI [of _ p]) (auto simp: header_served_def)
qed

lemma load_headers_spec:
  assumes "proc_inv pd p" and "open_wf s (f_inode f) sec" and "file_data (fview s) sec = F"
  shows "\<exists>ok s' f' p'. load_headers n ofs pd s f p = Some (ok, s', f', p') \<and> proc_inv pd p' \<and> fview s' = fview s
    \<and> open_wf s' (f_inode f) sec \<and> f_inode f' = f_inode f
    \<and> (ok \<longrightarrow> (0 < n \<longrightarrow> 0 \<le> ofs \<and> nat ofs + n * PHDR_SIZE \<le> length F) \<and> (\<forall>j < n. header_served pd F p' (header_at F (nat ofs) j))
        \<and> (\<forall>a b. user_byte p pd a = Some b \<longrightarrow> user_byte p' pd a = Some b))"
  using assms
proof (induction n arbitrary: ofs s f p)
  case 0
  then show ?case by (intro exI [of _ True] exI [of _ s] exI [of _ f] exI [of _ p]) simp
next
  case (Suc n)
  obtain s1 where s1: "file_length s f = Some (int (length F), s1)" "fview s1 = fview s" "open_wf s1 (f_inode f) sec" "length F < 2147483648"
    using file_length_spec [OF Suc.prems(2)] Suc.prems(3) by blast
  show ?case
  proof (cases "ofs < 0 \<or> ofs > int (length F)")
    case True
    then show ?thesis using s1 Suc.prems by (intro exI [of _ False] exI [of _ s1] exI [of _ f] exI [of _ p]) simp
  next
    case False
    let ?f = "f\<lparr>f_pos := ofs\<rparr>"
    let ?bs = "take PHDR_SIZE (drop (nat ofs) F)"
    have wf1: "open_wf s1 (f_inode ?f) sec" "0 \<le> f_pos ?f" using s1(3) False by simp_all
    let ?f2 = "?f\<lparr>f_pos := f_pos ?f + int (length ?bs)\<rparr>"
    obtain s2 where s2: "file_read s1 ?f (int PHDR_SIZE) = Some (?bs, ?f2, s2)" "fview s2 = fview s1" "open_wf s2 (f_inode ?f) sec"
      using file_read_spec [OF wf1, of PHDR_SIZE] s1(2) Suc.prems(3) by auto
    show ?thesis
    proof (cases "length ?bs = PHDR_SIZE")
      case short: False
      have "load_headers (Suc n) ofs pd s f p = Some (False, s2, ?f2, p)"
        using s1(1) False by (simp add: file_seek_def s2(1) short del: length_take)
      then show ?thesis using s1(2) s2(2,3) Suc.prems(1)
        by (intro exI [of _ False] exI [of _ s2] exI [of _ ?f2] exI [of _ p]) simp
    next
      case full: True
      let ?h = "phdr_of_bytes ?bs"
      have h: "?h = header_at F (nat ofs) 0" by (simp add: header_at_def)
      have fits: "nat ofs + PHDR_SIZE \<le> length F" using full by (simp add: PHDR_SIZE_def)
      then have nx: "off_add ofs (int PHDR_SIZE) = ofs + int PHDR_SIZE" using False s1(4) by (intro off_add_small) (simp add: off_t_ok_def)
      have wf2: "open_wf s2 (f_inode ?f2) sec" using s2(3) by simp
      obtain ok s3 f3 p3 where o: "load_header pd s2 ?f2 p ?h = Some (ok, s3, f3, p3)"
        "proc_inv pd p3" "fview s3 = fview s2" "open_wf s3 (f_inode ?f2) sec" "f_inode f3 = f_inode ?f2"
        and k: "ok \<longrightarrow> header_served pd F p3 ?h \<and> (\<forall>a b. user_byte p pd a = Some b \<longrightarrow> user_byte p3 pd a = Some b)"
        using one_header_spec [OF Suc.prems(1) wf2, of ?h] s2(2) s1(2) Suc.prems(3) by auto
      have run: "load_headers (Suc n) ofs pd s f p = (if \<not> ok then Some (False, s3, f3, p3) else load_headers n (ofs + int PHDR_SIZE) pd s3 f3 p3)"
        using s1(1) False o(1) [unfolded full] by (simp add: file_seek_def s2(1) full nx del: length_take)
      show ?thesis
      proof (cases ok)
        case no: False
        then show ?thesis using run o(2-5) s1(2) s2(2) by (intro exI [of _ False] exI [of _ s3] exI [of _ f3] exI [of _ p3]) simp
      next
        case yes: True
        have wf3: "open_wf s3 (f_inode f3) sec" "file_data (fview s3) sec = F" using o(3-5) s1(2) s2(2) Suc.prems(3) by simp_all
        obtain ok' s' f' p' where t: "load_headers n (ofs + int PHDR_SIZE) pd s3 f3 p3 = Some (ok', s', f', p')" "proc_inv pd p'"
            "fview s' = fview s3" "open_wf s' (f_inode f3) sec" "f_inode f' = f_inode f3"
          and k': "ok' \<longrightarrow> (0 < n \<longrightarrow> 0 \<le> ofs + int PHDR_SIZE \<and> nat (ofs + int PHDR_SIZE) + n * PHDR_SIZE \<le> length F)
              \<and> (\<forall>j < n. header_served pd F p' (header_at F (nat (ofs + int PHDR_SIZE)) j))
              \<and> (\<forall>a b. user_byte p3 pd a = Some b \<longrightarrow> user_byte p' pd a = Some b)"
          using Suc.IH [OF o(2) wf3, of "ofs + int PHDR_SIZE"] by blast
        have nn: "nat (ofs + int PHDR_SIZE) = nat ofs + PHDR_SIZE" using False by (simp add: nat_add_distrib)
        have "header_served pd F p' (header_at F (nat ofs) j)" if "ok'" "j < Suc n" for j
        proof (cases j)
          case 0
          have "header_served pd F p' ?h" using k k' yes that(1) header_served_mono by blast
          then show ?thesis using h 0 by simp
        next
          case (Suc i)
          then have "header_served pd F p' (header_at F (nat (ofs + int PHDR_SIZE)) i)" using k' that by simp
          then show ?thesis unfolding nn Suc by (simp add: header_at_def ac_simps)
        qed
        moreover have "0 \<le> ofs \<and> nat ofs + Suc n * PHDR_SIZE \<le> length F" if ok'
          using k' that False fits unfolding nn by (cases n) auto
        moreover have "\<forall>a b. user_byte p pd a = Some b \<longrightarrow> user_byte p' pd a = Some b" if ok' using k k' yes that by blast
        ultimately show ?thesis using run yes t o(3,5) s1(2) s2(2)
          by (intro exI [of _ ok'] exI [of _ s'] exI [of _ f'] exI [of _ p']) simp
      qed
    qed
  qed
qed

section \<open>Properties\<close>

lemma demo_proc_inv: "proc_inv 3222282240 demo_paging"
proof -
  have "frames_inv 3222282240 (pal demo_paging)"
    by (simp add: frames_inv_def entry_def has_table_def demo_paging_def load_u32_def)
  moreover have "ram_fits demo_paging" by (auto simp: ram_fits_def demo_paging_def pool_pages_def pg_no_def PGSIZE_def)
  ultimately show ?thesis using demo_paging_inv by (simp add: proc_inv_def)
qed

text \<open>
  C39: loading the program headers of an executable always returns and keeps the page tables and the files in order. If it
  succeeds, the table of headers lies in the file, no header asks for dynamic linking, and of every loadable segment the
  process sees at its addresses, all in user space above the first page, exactly the bytes of the file and then zeros, whatever
  segments were loaded later; the pages it had before are unchanged.
\<close>

theorem program_in_memory:
  assumes "proc_inv pd p" and "open_wf s (f_inode f) sec" and "file_data (fview s) sec = F"
  shows "\<exists>ok s' f' p'. load_headers n ofs pd s f p = Some (ok, s', f', p') \<and> proc_inv pd p' \<and> fview s' = fview s
    \<and> (ok \<longrightarrow> (0 < n \<longrightarrow> 0 \<le> ofs \<and> nat ofs + n * PHDR_SIZE \<le> length F) \<and> (\<forall>j < n. header_served pd F p' (header_at F (nat ofs) j))
        \<and> (\<forall>a b. user_byte p pd a = Some b \<longrightarrow> user_byte p' pd a = Some b))"
  using load_headers_spec [OF assms, of n ofs] by blast

theorem program_in_memory_witness:
  "\<exists>ok s' f' p'. load_headers 2 52 3222282240 (demo_fs [3, 4] 600) \<lparr>f_inode = 0, f_pos = 0, f_deny_write = True\<rparr> demo_paging
    = Some (ok, s', f', p') \<and> proc_inv 3222282240 p'"
  using program_in_memory [OF demo_proc_inv, of "demo_fs [3, 4] 600" "\<lparr>f_inode = 0, f_pos = 0, f_deny_write = True\<rparr>" 2 _ 2 52]
    demo_fs_wf [OF demo_ok_600] by auto

text \<open>
  C40: \<^verbatim>\<open>validate_segment\<close> accepts a header exactly if its segment starts inside the file at the same place in a page
  as in memory, has at least as many bytes in memory as in the file and at least one, and lies between the first page
  and the kernel: the checks on 32-bit words also catch every region that wraps around the address space.
\<close>

theorem validate_segment_exact:
  assumes "0 \<le> len" "len < 2147483648"
  shows "validate_segment phdr len \<longleftrightarrow> unat (p_offset phdr) mod 4096 = unat (p_vaddr phdr) mod 4096 \<and> int (unat (p_offset phdr)) \<le> len
    \<and> unat (p_filesz phdr) \<le> unat (p_memsz phdr) \<and> 0 < unat (p_memsz phdr) \<and> PGSIZE \<le> unat (p_vaddr phdr)
    \<and> unat (p_vaddr phdr) + unat (p_memsz phdr) < PHYS_BASE"
  by (rule validate_segment_iff [OF assms])

theorem validate_segment_exact_witness:
  "\<not> validate_segment \<lparr>p_type = 1, p_offset = 0, p_vaddr = 0x8048000, p_paddr = 0, p_filesz = 0, p_memsz = 0xf8000000, p_flags = 5, p_align = 4096\<rparr> 600"
  by (subst validate_segment_exact) (simp_all add: PHYS_BASE_def)

end
