(* ===== verification/Threads.thy ===== *)
theory Threads
  imports List_Sorting
begin

text \<open>
  Threads and synchronisation (\<^verbatim>\<open>threads/thread.c\<close>, \<^verbatim>\<open>threads/synch.c\<close>, the tick of
  \<^verbatim>\<open>devices/timer.c\<close>). The kernel runs one thread at a time; a thread is the list of statements it has
  still to execute. A statement is executed as one step exactly when the code executes it with
  interrupts off or when it touches only data of the running thread; a function that the scheduler
  can interrupt in the middle expands to the statements it consists of. So \<^verbatim>\<open>lock_acquire\<close> is
  the assertion, then \<^verbatim>\<open>sema_down\<close>, then the assignment of the holder, with timer interrupts and
  other threads between them. One iteration of the loop of \<^verbatim>\<open>sema_down\<close> is one step: a thread
  that blocks keeps the statement and tests the value again when it is woken.

  A \<^verbatim>\<open>struct thread *\<close> is the number of its page. The lists are sequences of threads: theory
  \<open>List_Sorting\<close> shows that the linked lists implement them as long as an element is on one list
  at a time, which is what \<open>Threads_Inv\<close> shows for the \<^verbatim>\<open>elem\<close> members. \<open>None\<close> is a panic.
\<close>

section \<open>State\<close>

datatype thread_status = THREAD_RUNNING | THREAD_READY | THREAD_BLOCKED | THREAD_DYING

text \<open>
  The semaphores: those of clients, the one inside each lock, the \<^verbatim>\<open>timer_semaphore\<close> of each thread,
  and the one a thread in \<^verbatim>\<open>cond_wait\<close> has on its stack.
\<close>

datatype sema_ref = Sema nat | Lock_sema nat | Timer_sema nat | Waiter_sema nat

record semaphore =
  sval :: nat
  waiters :: "nat list"

datatype stmt =
    Sema_init sema_ref nat | Sema_down sema_ref | Sema_up sema_ref | Sema_try_down sema_ref
  | Lock_acquire nat | Lock_try_acquire nat | Set_holder nat | Lock_release nat
  | Cond_wait nat nat | Cond_signal nat nat | Cond_broadcast nat nat
  | Thread_create int "stmt list" | Thread_yield | Thread_exit
  | Thread_sleep int | Insert_wait | Set_idle | Idle

record thread =
  tid :: int
  status :: thread_status
  wakeup_time :: int
  prog :: "stmt list"

record kernel =
  threads :: "nat \<Rightarrow> thread option"
  ready_list :: "nat list"
  all_list :: "nat list"
  wait_list :: "nat list"
  idle_thread :: "nat option"
  initial_thread :: nat
  current :: nat
  semas :: "sema_ref \<Rightarrow> semaphore"
  holders :: "nat \<Rightarrow> nat option"
  conds :: "nat \<Rightarrow> nat list"
  ticks :: int
  thread_ticks :: nat
  next_tid :: int

definition TIME_SLICE :: nat where "TIME_SLICE = 4"
definition PRI_MIN :: int where "PRI_MIN = 0"
definition PRI_MAX :: int where "PRI_MAX = 63"

definition upd_thread :: "kernel \<Rightarrow> nat \<Rightarrow> (thread \<Rightarrow> thread) \<Rightarrow> kernel" where
  "upd_thread k t f = k\<lparr>threads := (threads k)(t := map_option f (threads k t))\<rparr>"

definition upd_sema :: "kernel \<Rightarrow> sema_ref \<Rightarrow> (semaphore \<Rightarrow> semaphore) \<Rightarrow> kernel" where
  "upd_sema k s f = k\<lparr>semas := (semas k)(s := f (semas k s))\<rparr>"

text \<open>The program of the running thread, and its continuation with other statements.\<close>

definition cur_prog :: "kernel \<Rightarrow> stmt list" where
  "cur_prog k = (case threads k (current k) of Some t \<Rightarrow> prog t | None \<Rightarrow> [])"

definition continue_with :: "kernel \<Rightarrow> stmt list \<Rightarrow> kernel" where
  "continue_with k ss = upd_thread k (current k) (\<lambda>t. t\<lparr>prog := ss @ tl (prog t)\<rparr>)"

section \<open>Scheduling\<close>

definition thread_current :: "kernel \<Rightarrow> thread option" where
  "thread_current k = do {
     t \<leftarrow> threads k (current k);
     ASSERT (status t = THREAD_RUNNING);
     Some t }"

definition next_thread_to_run :: "kernel \<Rightarrow> (nat \<times> kernel) option" where
  "next_thread_to_run k =
     (case ready_list k of
        [] \<Rightarrow> do { t \<leftarrow> idle_thread k; Some (t, k) }
      | t # ts \<Rightarrow> Some (t, k\<lparr>ready_list := ts\<rparr>))"

definition thread_schedule_tail :: "kernel \<Rightarrow> nat option \<Rightarrow> kernel option" where
  "thread_schedule_tail k prev = do {
     let k = (upd_thread k (current k) (\<lambda>t. t\<lparr>status := THREAD_RUNNING\<rparr>))\<lparr>thread_ticks := 0\<rparr>;
     case prev of
       None \<Rightarrow> Some k
     | Some p \<Rightarrow>
         if map_option status (threads k p) = Some THREAD_DYING \<and> p \<noteq> initial_thread k then do {
           ASSERT (p \<noteq> current k);
           Some (k\<lparr>threads := (threads k)(p := None)\<rparr>) }
         else Some k }"

definition schedule :: "kernel \<Rightarrow> kernel option" where
  "schedule k = do {
     c \<leftarrow> threads k (current k);
     (nxt, k) \<leftarrow> next_thread_to_run k;
     ASSERT (status c \<noteq> THREAD_RUNNING);
     ASSERT (threads k nxt \<noteq> None);
     thread_schedule_tail (k\<lparr>current := nxt\<rparr>) (if current k \<noteq> nxt then Some (current k) else None) }"

definition thread_block :: "kernel \<Rightarrow> kernel option" where
  "thread_block k = do {
     _ \<leftarrow> thread_current k;
     schedule (upd_thread k (current k) (\<lambda>t. t\<lparr>status := THREAD_BLOCKED\<rparr>)) }"

definition thread_unblock :: "kernel \<Rightarrow> nat \<Rightarrow> kernel option" where
  "thread_unblock k t = do {
     x \<leftarrow> threads k t;
     ASSERT (status x = THREAD_BLOCKED);
     Some ((upd_thread k t (\<lambda>t. t\<lparr>status := THREAD_READY\<rparr>))\<lparr>ready_list := ready_list k @ [t]\<rparr>) }"

definition thread_yield :: "kernel \<Rightarrow> kernel option" where
  "thread_yield k = do {
     _ \<leftarrow> thread_current k;
     let r = (if idle_thread k \<noteq> Some (current k) then ready_list k @ [current k] else ready_list k);
     schedule ((upd_thread k (current k) (\<lambda>t. t\<lparr>status := THREAD_READY\<rparr>))\<lparr>ready_list := r\<rparr>) }"

definition thread_exit :: "kernel \<Rightarrow> kernel option" where
  "thread_exit k = do {
     _ \<leftarrow> thread_current k;
     schedule ((upd_thread k (current k) (\<lambda>t. t\<lparr>status := THREAD_DYING\<rparr>))
       \<lparr>all_list := remove1 (current k) (all_list k)\<rparr>) }"

text \<open>\<open>pg\<close> is the page that \<^verbatim>\<open>palloc_get_page\<close> returns.\<close>

definition init_thread :: "kernel \<Rightarrow> nat \<Rightarrow> int \<Rightarrow> stmt list \<Rightarrow> kernel option" where
  "init_thread k t priority body = do {
     ASSERT (PRI_MIN \<le> priority \<and> priority \<le> PRI_MAX);
     Some (k\<lparr>threads := (threads k)(t \<mapsto> \<lparr>tid = 0, status = THREAD_BLOCKED, wakeup_time = 0, prog = body\<rparr>),
             all_list := all_list k @ [t]\<rparr>) }"

definition allocate_tid :: "kernel \<Rightarrow> int \<times> kernel" where
  "allocate_tid k = (next_tid k, k\<lparr>next_tid := next_tid k + 1\<rparr>)"

definition thread_create :: "kernel \<Rightarrow> nat option \<Rightarrow> int \<Rightarrow> stmt list \<Rightarrow> (int \<times> kernel) option" where
  "thread_create k pg priority body =
     (case pg of
        None \<Rightarrow> Some (- 1, k)
      | Some t \<Rightarrow> do {
          k \<leftarrow> init_thread k t priority body;
          let (i, k) = allocate_tid k;
          k \<leftarrow> thread_unblock (upd_thread k t (\<lambda>x. x\<lparr>tid := i\<rparr>)) t;
          Some (i, k) })"

section \<open>Semaphores, locks and condition variables\<close>

definition sema_init :: "kernel \<Rightarrow> sema_ref \<Rightarrow> nat \<Rightarrow> kernel" where
  "sema_init k s v = upd_sema k s (\<lambda>_. \<lparr>sval = v, waiters = []\<rparr>)"

text \<open>One iteration of the loop of \<^verbatim>\<open>sema_down\<close>, or the decrement that ends it.\<close>

definition sema_down :: "kernel \<Rightarrow> sema_ref \<Rightarrow> kernel option" where
  "sema_down k s =
     (if sval (semas k s) = 0
      then thread_block (upd_sema k s (\<lambda>x. x\<lparr>waiters := waiters x @ [current k]\<rparr>))
      else Some (continue_with (upd_sema k s (\<lambda>x. x\<lparr>sval := sval x - 1\<rparr>)) []))"

definition sema_try_down :: "kernel \<Rightarrow> sema_ref \<Rightarrow> bool \<times> kernel" where
  "sema_try_down k s =
     (if sval (semas k s) > 0 then (True, upd_sema k s (\<lambda>x. x\<lparr>sval := sval x - 1\<rparr>)) else (False, k))"

definition sema_up :: "kernel \<Rightarrow> sema_ref \<Rightarrow> kernel option" where
  "sema_up k s = do {
     k \<leftarrow> (case waiters (semas k s) of
         [] \<Rightarrow> Some k
       | t # ts \<Rightarrow> thread_unblock (upd_sema k s (\<lambda>x. x\<lparr>waiters := ts\<rparr>)) t);
     Some (upd_sema k s (\<lambda>x. x\<lparr>sval := (sval x + 1) mod 4294967296\<rparr>)) }"

definition held_by_current :: "kernel \<Rightarrow> nat \<Rightarrow> bool" where
  "held_by_current k l \<longleftrightarrow> holders k l = Some (current k)"

definition set_holder :: "kernel \<Rightarrow> nat \<Rightarrow> nat option \<Rightarrow> kernel" where
  "set_holder k l t = k\<lparr>holders := (holders k)(l := t)\<rparr>"

section \<open>Sleeping\<close>

definition wake_time :: "kernel \<Rightarrow> nat \<Rightarrow> int" where
  "wake_time k t = (case threads k t of Some x \<Rightarrow> wakeup_time x | None \<Rightarrow> 0)"

definition wake_time_compare :: "kernel \<Rightarrow> nat \<Rightarrow> nat \<Rightarrow> bool" where
  "wake_time_compare k a b \<longleftrightarrow> wake_time k a < wake_time k b"

definition insert_wait :: "kernel \<Rightarrow> kernel" where
  "insert_wait k = k\<lparr>wait_list :=
     takeWhile (\<lambda>e. \<not> wake_time_compare k (current k) e) (wait_list k) @ current k #
     dropWhile (\<lambda>e. \<not> wake_time_compare k (current k) e) (wait_list k)\<rparr>"

definition thread_wake_routine_helper :: "kernel \<Rightarrow> nat \<Rightarrow> kernel option" where
  "thread_wake_routine_helper k t =
     (if ticks k > wake_time k t then sema_up (k\<lparr>wait_list := remove1 t (wait_list k)\<rparr>) (Timer_sema t)
      else Some k)"

fun thread_foreach_wait :: "(kernel \<Rightarrow> nat \<Rightarrow> kernel option) \<Rightarrow> nat list \<Rightarrow> kernel \<Rightarrow> kernel option" where
  "thread_foreach_wait f [] k = Some k"
| "thread_foreach_wait f (t # ts) k = do { k \<leftarrow> f k t; thread_foreach_wait f ts k }"

definition thread_wake_routine :: "kernel \<Rightarrow> kernel option" where
  "thread_wake_routine k = thread_foreach_wait thread_wake_routine_helper (wait_list k) k"

text \<open>Whether the handler asks for a yield when the interrupt returns.\<close>

definition thread_tick :: "kernel \<Rightarrow> bool \<times> kernel" where
  "thread_tick k = (thread_ticks k + 1 \<ge> TIME_SLICE, k\<lparr>thread_ticks := thread_ticks k + 1\<rparr>)"

definition timer_interrupt :: "kernel \<Rightarrow> kernel option" where
  "timer_interrupt k = do {
     let k = k\<lparr>ticks := ticks k + 1\<rparr>;
     let (yield_on_return, k) = thread_tick k;
     k \<leftarrow> thread_wake_routine k;
     if yield_on_return then thread_yield k else Some k }"

section \<open>Steps\<close>

text \<open>The execution of the first statement of the running thread.\<close>

fun exec :: "nat option \<Rightarrow> stmt \<Rightarrow> kernel \<Rightarrow> kernel option" where
  "exec pg (Sema_init s v) k = Some (sema_init (continue_with k []) s v)"
| "exec pg (Sema_down s) k = sema_down k s"
| "exec pg (Sema_up s) k = sema_up (continue_with k []) s"
| "exec pg (Sema_try_down s) k = Some (snd (sema_try_down (continue_with k []) s))"
| "exec pg (Lock_acquire l) k = do {
     ASSERT (\<not> held_by_current k l);
     Some (continue_with k [Sema_down (Lock_sema l), Set_holder l]) }"
| "exec pg (Set_holder l) k = Some (set_holder (continue_with k []) l (Some (current k)))"
| "exec pg (Lock_try_acquire l) k = do {
     ASSERT (\<not> held_by_current k l);
     let (success, k) = sema_try_down k (Lock_sema l);
     Some (continue_with k (if success then [Set_holder l] else [])) }"
| "exec pg (Lock_release l) k = do {
     ASSERT (held_by_current k l);
     Some (continue_with (set_holder k l None) [Sema_up (Lock_sema l)]) }"
| "exec pg (Cond_wait c l) k = do {
     ASSERT (held_by_current k l);
     let w = Waiter_sema (current k);
     Some (continue_with ((sema_init k w 0)\<lparr>conds := (conds k)(c := conds k c @ [current k])\<rparr>)
       [Lock_release l, Sema_down w, Lock_acquire l]) }"
| "exec pg (Cond_signal c l) k = do {
     ASSERT (held_by_current k l);
     case conds k c of
       [] \<Rightarrow> Some (continue_with k [])
     | t # ts \<Rightarrow> sema_up (continue_with (k\<lparr>conds := (conds k)(c := ts)\<rparr>) []) (Waiter_sema t) }"
| "exec pg (Cond_broadcast c l) k =
     Some (continue_with k (if conds k c \<noteq> [] then [Cond_signal c l, Cond_broadcast c l] else []))"
| "exec pg (Thread_create priority body) k = map_option snd (thread_create (continue_with k []) pg priority body)"
| "exec pg Thread_yield k = thread_yield (continue_with k [])"
| "exec pg Thread_exit k = thread_exit k"
| "exec pg (Thread_sleep n) k = Some (continue_with (upd_thread k (current k) (\<lambda>t. t\<lparr>wakeup_time := ticks k + n\<rparr>))
     [Insert_wait, Sema_init (Timer_sema (current k)) 0, Sema_down (Timer_sema (current k))])"
| "exec pg Insert_wait k = Some (insert_wait (continue_with k []))"
| "exec pg Set_idle k = Some ((continue_with k [])\<lparr>idle_thread := Some (current k)\<rparr>)"
| "exec pg Idle k = thread_block k"

text \<open>What a thread can call: no part of a function on its own, and no semaphore inside a lock.\<close>

fun callable :: "stmt \<Rightarrow> bool" where
  "callable (Sema_down (Sema n)) = True"
| "callable (Sema_up (Sema n)) = True"
| "callable (Sema_try_down (Sema n)) = True"
| "callable (Lock_acquire l) = True"
| "callable (Lock_try_acquire l) = True"
| "callable (Lock_release l) = True"
| "callable (Cond_wait c l) = True"
| "callable (Cond_signal c l) = True"
| "callable (Cond_broadcast c l) = True"
| "callable (Thread_create p body) = list_all callable body"
| "callable Thread_yield = True"
| "callable Thread_exit = True"
| "callable (Thread_sleep n) = True"
| "callable _ = False"

text \<open>The page allocator returns no page or one that is not in use.\<close>

definition fresh_page :: "kernel \<Rightarrow> nat option \<Rightarrow> bool" where
  "fresh_page k pg \<longleftrightarrow> (case pg of None \<Rightarrow> True | Some t \<Rightarrow> threads k t = None)"

inductive step :: "kernel \<Rightarrow> kernel \<Rightarrow> bool" where
  run: "cur_prog k = st # ss \<Longrightarrow> fresh_page k pg \<Longrightarrow> exec pg st k = Some k' \<Longrightarrow> step k k'"
| call: "cur_prog k = [] \<Longrightarrow> callable st \<Longrightarrow> step k (upd_thread k (current k) (\<lambda>t. t\<lparr>prog := [st]\<rparr>))"
| tick: "timer_interrupt k = Some k' \<Longrightarrow> step k k'"

section \<open>Start\<close>

text \<open>\<open>main\<close> is the page of the initial thread, \<open>idle\<close> that of the idle thread.\<close>

definition thread_init :: "nat \<Rightarrow> kernel" where
  "thread_init main =
     \<lparr>threads = [main \<mapsto> \<lparr>tid = 1, status = THREAD_RUNNING, wakeup_time = 0, prog = []\<rparr>],
      ready_list = [], all_list = [main], wait_list = [], idle_thread = None, initial_thread = main,
      current = main, semas = (\<lambda>s. case s of Lock_sema l \<Rightarrow> \<lparr>sval = 1, waiters = []\<rparr> | _ \<Rightarrow> \<lparr>sval = 0, waiters = []\<rparr>),
      holders = (\<lambda>_. None), conds = (\<lambda>_. []), ticks = 0, thread_ticks = 0, next_tid = 2\<rparr>"

text \<open>\<open>Sema 0\<close> is \<^verbatim>\<open>idle_started\<close>; the idle thread runs until it blocks.\<close>

definition thread_start :: "kernel \<Rightarrow> nat \<Rightarrow> kernel option" where
  "thread_start k idle = do {
     let k = sema_init k (Sema 0) 0;
     (_, k) \<leftarrow> thread_create k (Some idle) PRI_MIN [Set_idle, Sema_up (Sema 0), Idle];
     let k = upd_thread k (current k) (\<lambda>t. t\<lparr>prog := [Sema_down (Sema 0)]\<rparr>);
     k \<leftarrow> exec None (Sema_down (Sema 0)) k;
     k \<leftarrow> exec None Set_idle k;
     k \<leftarrow> exec None (Sema_up (Sema 0)) k;
     k \<leftarrow> exec None Idle k;
     exec None (Sema_down (Sema 0)) k }"

end
