(* ===== verification/Threads_Inv.thy ===== *)
theory Threads_Inv
  imports Threads
begin

text \<open>
  The invariant of the scheduler and of the synchronisation primitives, and that every step keeps
  it: every thread is where its status says (so that its list element is on one list at most), the
  semaphore of a lock is down exactly while one thread is in its critical section, and no wake-up is
  lost: a positive semaphore with waiting threads has enough runnable threads on their way to
  it. Each part is a predicate on the functions it depends on, with a lemma per change of them.
\<close>

section \<open>What the invariant depends on\<close>

definition stat :: "kernel \<Rightarrow> nat \<Rightarrow> thread_status option" where
  "stat k t = map_option status (threads k t)"

definition prg :: "kernel \<Rightarrow> nat \<Rightarrow> stmt list option" where
  "prg k t = map_option prog (threads k t)"

definition wts :: "kernel \<Rightarrow> sema_ref \<Rightarrow> nat list" where
  "wts k s = waiters (semas k s)"

definition svs :: "kernel \<Rightarrow> sema_ref \<Rightarrow> nat" where
  "svs k s = sval (semas k s)"

named_theorems kview \<open>the state functions after an update\<close>

lemma kview_upd_thread [kview]:
  "stat (upd_thread k t f) = (stat k)(t := map_option (\<lambda>x. status (f x)) (threads k t))"
  "prg (upd_thread k t f) = (prg k)(t := map_option (\<lambda>x. prog (f x)) (threads k t))"
  "wts (upd_thread k t f) = wts k" "svs (upd_thread k t f) = svs k"
  "ready_list (upd_thread k t f) = ready_list k" "holders (upd_thread k t f) = holders k"
  "idle_thread (upd_thread k t f) = idle_thread k" "current (upd_thread k t f) = current k"
  "all_list (upd_thread k t f) = all_list k" "initial_thread (upd_thread k t f) = initial_thread k"
  by (auto simp: fun_eq_iff stat_def prg_def wts_def svs_def upd_thread_def option.map_comp comp_def)

lemma kview_upd_sema [kview]:
  "stat (upd_sema k s g) = stat k" "prg (upd_sema k s g) = prg k"
  "wts (upd_sema k s g) = (wts k)(s := waiters (g (semas k s)))" "svs (upd_sema k s g) = (svs k)(s := sval (g (semas k s)))"
  "ready_list (upd_sema k s g) = ready_list k" "holders (upd_sema k s g) = holders k"
  "idle_thread (upd_sema k s g) = idle_thread k" "current (upd_sema k s g) = current k"
  "all_list (upd_sema k s g) = all_list k" "initial_thread (upd_sema k s g) = initial_thread k"
  "threads (upd_sema k s g) = threads k"
  by (auto simp: fun_eq_iff stat_def prg_def wts_def svs_def upd_sema_def)

lemma kview_fields [kview]:
  "stat (k\<lparr>ready_list := r\<rparr>) = stat k" "prg (k\<lparr>ready_list := r\<rparr>) = prg k" "wts (k\<lparr>ready_list := r\<rparr>) = wts k" "svs (k\<lparr>ready_list := r\<rparr>) = svs k"
  "stat (k\<lparr>current := c\<rparr>) = stat k" "prg (k\<lparr>current := c\<rparr>) = prg k" "wts (k\<lparr>current := c\<rparr>) = wts k" "svs (k\<lparr>current := c\<rparr>) = svs k"
  "stat (k\<lparr>thread_ticks := n\<rparr>) = stat k" "prg (k\<lparr>thread_ticks := n\<rparr>) = prg k" "wts (k\<lparr>thread_ticks := n\<rparr>) = wts k" "svs (k\<lparr>thread_ticks := n\<rparr>) = svs k"
  "stat (k\<lparr>ticks := i\<rparr>) = stat k" "prg (k\<lparr>ticks := i\<rparr>) = prg k" "wts (k\<lparr>ticks := i\<rparr>) = wts k" "svs (k\<lparr>ticks := i\<rparr>) = svs k"
  "stat (k\<lparr>next_tid := i\<rparr>) = stat k" "prg (k\<lparr>next_tid := i\<rparr>) = prg k" "wts (k\<lparr>next_tid := i\<rparr>) = wts k" "svs (k\<lparr>next_tid := i\<rparr>) = svs k"
  "stat (k\<lparr>all_list := r\<rparr>) = stat k" "prg (k\<lparr>all_list := r\<rparr>) = prg k" "wts (k\<lparr>all_list := r\<rparr>) = wts k" "svs (k\<lparr>all_list := r\<rparr>) = svs k"
  "stat (k\<lparr>wait_list := r\<rparr>) = stat k" "prg (k\<lparr>wait_list := r\<rparr>) = prg k" "wts (k\<lparr>wait_list := r\<rparr>) = wts k" "svs (k\<lparr>wait_list := r\<rparr>) = svs k"
  "stat (k\<lparr>conds := cs\<rparr>) = stat k" "prg (k\<lparr>conds := cs\<rparr>) = prg k" "wts (k\<lparr>conds := cs\<rparr>) = wts k" "svs (k\<lparr>conds := cs\<rparr>) = svs k"
  "stat (k\<lparr>holders := hs\<rparr>) = stat k" "prg (k\<lparr>holders := hs\<rparr>) = prg k" "wts (k\<lparr>holders := hs\<rparr>) = wts k" "svs (k\<lparr>holders := hs\<rparr>) = svs k"
  "stat (k\<lparr>threads := (threads k)(t := x)\<rparr>) = (stat k)(t := map_option status x)"
  "prg (k\<lparr>threads := (threads k)(t := x)\<rparr>) = (prg k)(t := map_option prog x)"
  "wts (k\<lparr>threads := m\<rparr>) = wts k" "svs (k\<lparr>threads := m\<rparr>) = svs k"
  by (auto simp: fun_eq_iff stat_def prg_def wts_def svs_def)

section \<open>Queues\<close>

abbreviation runnable :: "thread_status option \<Rightarrow> bool" where
  "runnable s \<equiv> s = Some THREAD_READY \<or> s = Some THREAD_RUNNING"

definition queue_inv ::
  "(nat \<Rightarrow> thread_status option) \<Rightarrow> (nat \<Rightarrow> stmt list option) \<Rightarrow> nat list \<Rightarrow> (sema_ref \<Rightarrow> nat list) \<Rightarrow> nat option \<Rightarrow> bool" where
  "queue_inv st pr rdy wt idl \<longleftrightarrow>
     distinct rdy
   \<and> (\<forall>t. t \<in> set rdy \<longleftrightarrow> st t = Some THREAD_READY \<and> idl \<noteq> Some t)
   \<and> (\<forall>s. distinct (wt s) \<and> (\<forall>t \<in> set (wt s). st t = Some THREAD_BLOCKED \<and> idl \<noteq> Some t \<and> (\<exists>ss. pr t = Some (Sema_down s # ss))))
   \<and> (\<forall>t. st t = Some THREAD_BLOCKED \<and> idl \<noteq> Some t \<longrightarrow> (\<exists>s. t \<in> set (wt s)))
   \<and> (\<exists>i. idl = Some i \<and> pr i = Some [Idle] \<and> st i \<noteq> None \<and> st i \<noteq> Some THREAD_DYING)"

lemma queue_invD:
  assumes "queue_inv st pr rdy wt idl"
  shows "distinct rdy" "t \<in> set rdy \<longleftrightarrow> st t = Some THREAD_READY \<and> idl \<noteq> Some t" "distinct (wt s)"
    "t \<in> set (wt s) \<Longrightarrow> st t = Some THREAD_BLOCKED" "t \<in> set (wt s) \<Longrightarrow> idl \<noteq> Some t"
    "t \<in> set (wt s) \<Longrightarrow> \<exists>ss. pr t = Some (Sema_down s # ss)"
    "st t = Some THREAD_BLOCKED \<Longrightarrow> idl \<noteq> Some t \<Longrightarrow> \<exists>s. t \<in> set (wt s)"
    "\<exists>i. idl = Some i \<and> pr i = Some [Idle] \<and> st i \<noteq> None \<and> st i \<noteq> Some THREAD_DYING"
  using assms unfolding queue_inv_def by blast+

lemma queue_invI:
  assumes "distinct rdy" "\<And>t. t \<in> set rdy \<longleftrightarrow> st t = Some THREAD_READY \<and> idl \<noteq> Some t" "\<And>s. distinct (wt s)"
    "\<And>t s. t \<in> set (wt s) \<Longrightarrow> st t = Some THREAD_BLOCKED \<and> idl \<noteq> Some t \<and> (\<exists>ss. pr t = Some (Sema_down s # ss))"
    "\<And>t. st t = Some THREAD_BLOCKED \<Longrightarrow> idl \<noteq> Some t \<Longrightarrow> \<exists>s. t \<in> set (wt s)"
    "\<exists>i. idl = Some i \<and> pr i = Some [Idle] \<and> st i \<noteq> None \<and> st i \<noteq> Some THREAD_DYING"
  shows "queue_inv st pr rdy wt idl"
  using assms unfolding queue_inv_def by blast

text \<open>A waiting thread waits on one semaphore, and a thread that is not blocked on none.\<close>

lemma queue_one_list:
  assumes "queue_inv st pr rdy wt idl"
  shows "t \<in> set (wt s) \<Longrightarrow> t \<in> set (wt s') \<Longrightarrow> s' = s" "st t \<noteq> Some THREAD_BLOCKED \<Longrightarrow> t \<notin> set (wt s)"
proof -
  show "s' = s" if "t \<in> set (wt s)" "t \<in> set (wt s')"
    using queue_invD(6) [OF assms that(1)] queue_invD(6) [OF assms that(2)] by auto
  show "t \<notin> set (wt s)" if "st t \<noteq> Some THREAD_BLOCKED" using queue_invD(4) [OF assms, of t s] that by auto
qed

text \<open>The thread \<open>t\<close> changes its status or program and the queues follow; nothing else changes.\<close>

lemma queue_upd:
  assumes q: "queue_inv st pr rdy wt idl" and rdy: "distinct rdy'"
    and set_rdy: "\<And>u. u \<in> set rdy' \<longleftrightarrow> (if u = t then x = Some THREAD_READY \<and> idl \<noteq> Some t else u \<in> set rdy)"
    and wt: "\<And>s. distinct (wt' s)" "\<And>s u. u \<noteq> t \<Longrightarrow> u \<in> set (wt' s) \<longleftrightarrow> u \<in> set (wt s)"
    and t: "\<And>s. t \<in> set (wt' s) \<Longrightarrow> x = Some THREAD_BLOCKED \<and> idl \<noteq> Some t \<and> (\<exists>ss. y = Some (Sema_down s # ss))"
      "x = Some THREAD_BLOCKED \<Longrightarrow> idl \<noteq> Some t \<Longrightarrow> \<exists>s. t \<in> set (wt' s)"
    and idl: "idl = Some t \<Longrightarrow> y = Some [Idle] \<and> x \<noteq> None \<and> x \<noteq> Some THREAD_DYING"
  shows "queue_inv (st(t := x)) (pr(t := y)) rdy' wt' idl"
proof (rule queue_invI)
  show "\<exists>i. idl = Some i \<and> (pr(t := y)) i = Some [Idle] \<and> (st(t := x)) i \<noteq> None \<and> (st(t := x)) i \<noteq> Some THREAD_DYING"
    using queue_invD(8) [OF q] idl by auto
  show "u \<in> set rdy' \<longleftrightarrow> (st(t := x)) u = Some THREAD_READY \<and> idl \<noteq> Some u" for u
    using set_rdy [of u] queue_invD(2) [OF q, of u] by simp
  show "(st(t := x)) u = Some THREAD_BLOCKED \<and> idl \<noteq> Some u \<and> (\<exists>ss. (pr(t := y)) u = Some (Sema_down s # ss))"
    if "u \<in> set (wt' s)" for u s
    using that t(1) wt(2) [of u s] queue_invD(4-6) [OF q, of u s] by (cases "u = t") auto
  show "\<exists>s. u \<in> set (wt' s)" if "(st(t := x)) u = Some THREAD_BLOCKED" "idl \<noteq> Some u" for u
    using that t(2) wt(2) [of u] queue_invD(7) [OF q, of u] by (cases "u = t") auto
qed (use rdy wt(1) in auto)

lemma queue_unblock:
  assumes q: "queue_inv st pr rdy wt idl" and w: "wt s = t # ts"
  shows "queue_inv (st(t := Some THREAD_READY)) pr (rdy @ [t]) (wt(s := ts)) idl"
proof -
  have t: "st t = Some THREAD_BLOCKED" "idl \<noteq> Some t" "distinct (t # ts)"
    using queue_invD(3) [OF q, of s] queue_invD(4,5) [OF q, of t s] w by auto
  have "\<And>s'. s' \<noteq> s \<Longrightarrow> t \<notin> set (wt s')" using queue_one_list(1) [OF q, of t s] w by auto
  moreover have "t \<notin> set rdy" using queue_invD(2) [OF q] t(1) by simp
  ultimately have "queue_inv (st(t := Some THREAD_READY)) (pr(t := pr t)) (rdy @ [t]) (wt(s := ts)) idl"
    using t w queue_invD(1,3) [OF q] by (intro queue_upd [OF q]) (auto split: if_splits)
  then show ?thesis by simp
qed

lemma queue_block:
  assumes q: "queue_inv st pr rdy wt idl" and t: "st t = Some THREAD_RUNNING" "pr t = Some (Sema_down s # ss)"
  shows "queue_inv (st(t := Some THREAD_BLOCKED)) pr rdy (wt(s := wt s @ [t])) idl"
proof -
  have "t \<notin> set (wt s')" for s' using queue_one_list(2) [OF q] t(1) by simp
  moreover have "idl \<noteq> Some t" using queue_invD(8) [OF q] t(2) by auto
  moreover have "t \<notin> set rdy" using queue_invD(2) [OF q] t(1) by simp
  ultimately have "queue_inv (st(t := Some THREAD_BLOCKED)) (pr(t := pr t)) rdy (wt(s := wt s @ [t])) idl"
    using t queue_invD(1,3) [OF q] by (intro queue_upd [OF q]) (auto split: if_splits)
  then show ?thesis by simp
qed

text \<open>A running thread changes its program.\<close>

lemma queue_prog:
  assumes q: "queue_inv st pr rdy wt idl" and t: "st t = Some THREAD_RUNNING" "idl \<noteq> Some t"
  shows "queue_inv st (pr(t := y)) rdy wt idl"
proof -
  have "t \<notin> set (wt s')" "t \<notin> set rdy" for s' using queue_one_list(2) [OF q] queue_invD(2) [OF q] t(1) by simp_all
  then have "queue_inv (st(t := st t)) (pr(t := y)) rdy wt idl"
    using t queue_invD(1,3) [OF q] by (intro queue_upd [OF q]) auto
  then show ?thesis by simp
qed

text \<open>A thread that is on no list leaves the processor, is freed, or is created ready.\<close>

lemma queue_leave:
  assumes q: "queue_inv st pr rdy wt idl" and t: "st t = Some THREAD_RUNNING"
    and x: "x = Some THREAD_DYING \<and> idl \<noteq> Some t \<or> x \<in> {Some THREAD_READY, Some THREAD_BLOCKED} \<and> idl = Some t"
  shows "queue_inv (st(t := x)) pr rdy wt idl"
proof -
  have no: "t \<notin> set (wt s')" "t \<notin> set rdy" for s' using queue_one_list(2) [OF q] queue_invD(2) [OF q] t by simp_all
  have "queue_inv (st(t := x)) (pr(t := pr t)) rdy wt idl"
    using x no queue_invD(1,3,8) [OF q] by (intro queue_upd [OF q]) auto
  then show ?thesis by simp
qed

lemma queue_yield:
  assumes q: "queue_inv st pr rdy wt idl" and t: "st t = Some THREAD_RUNNING" "idl \<noteq> Some t"
  shows "queue_inv (st(t := Some THREAD_READY)) pr (rdy @ [t]) wt idl"
proof -
  have no: "t \<notin> set (wt s')" "t \<notin> set rdy" for s' using queue_one_list(2) [OF q] queue_invD(2) [OF q] t(1) by simp_all
  have "queue_inv (st(t := Some THREAD_READY)) (pr(t := pr t)) (rdy @ [t]) wt idl"
    using t no queue_invD(1,3) [OF q] by (intro queue_upd [OF q]) auto
  then show ?thesis by simp
qed

lemma queue_free:
  assumes q: "queue_inv st pr rdy wt idl" and t: "st t = Some THREAD_DYING"
  shows "queue_inv (st(t := None)) (pr(t := None)) rdy wt idl"
proof -
  have no: "t \<notin> set (wt s')" "t \<notin> set rdy" for s' using queue_one_list(2) [OF q] queue_invD(2) [OF q] t by simp_all
  then show ?thesis using t queue_invD(1,3,8) [OF q] by (intro queue_upd [OF q]) auto
qed

lemma queue_create:
  assumes q: "queue_inv st pr rdy wt idl" and t: "st t = None"
  shows "queue_inv (st(t := Some THREAD_READY)) (pr(t := y)) (rdy @ [t]) wt idl"
proof -
  have no: "t \<notin> set (wt s')" "t \<notin> set rdy" "idl \<noteq> Some t" for s'
    using queue_one_list(2) [OF q] queue_invD(2,8) [OF q] t by auto
  then show ?thesis using queue_invD(1,3) [OF q] by (intro queue_upd [OF q]) auto
qed

text \<open>The scheduler picks the first ready thread, or the idle thread.\<close>

lemma queue_dispatch:
  assumes q: "queue_inv st pr (t # ts) wt idl"
  shows "queue_inv (st(t := Some THREAD_RUNNING)) pr ts wt idl"
proof -
  have t: "st t = Some THREAD_READY" "idl \<noteq> Some t" "distinct (t # ts)" using queue_invD(1,2) [OF q] by auto
  have no: "t \<notin> set (wt s')" for s' using queue_one_list(2) [OF q] t by simp
  have "queue_inv (st(t := Some THREAD_RUNNING)) (pr(t := pr t)) ts wt idl"
    using t no queue_invD(3) [OF q] by (intro queue_upd [OF q]) auto
  then show ?thesis by simp
qed

lemma queue_dispatch_idle:
  assumes q: "queue_inv st pr [] wt (Some i)"
  shows "queue_inv (st(i := Some THREAD_RUNNING)) pr [] wt (Some i)"
proof -
  have no: "i \<notin> set (wt s')" for s' using queue_invD(5) [OF q] by auto
  have "queue_inv (st(i := Some THREAD_RUNNING)) (pr(i := pr i)) [] wt (Some i)"
    using no queue_invD(3,8) [OF q] by (intro queue_upd [OF q]) auto
  then show ?thesis by simp
qed

section \<open>Programs\<close>

text \<open>
  The shapes the program of a thread \<open>t\<close> can have: calls, possibly after the rest of a function that
  has been started.
\<close>

inductive prog_ok :: "nat \<Rightarrow> stmt list \<Rightarrow> bool" for t where
  calls: "list_all callable cs \<Longrightarrow> prog_ok t cs"
| down_lock: "list_all callable cs \<Longrightarrow> prog_ok t (Sema_down (Lock_sema l) # Set_holder l # cs)"
| hold: "list_all callable cs \<Longrightarrow> prog_ok t (Set_holder l # cs)"
| up_lock: "list_all callable cs \<Longrightarrow> prog_ok t (Sema_up (Lock_sema l) # cs)"
| wait_release: "list_all callable cs \<Longrightarrow> prog_ok t (Lock_release l # Sema_down (Waiter_sema t) # cs)"
| wait_up: "list_all callable cs \<Longrightarrow> prog_ok t (Sema_up (Lock_sema l) # Sema_down (Waiter_sema t) # cs)"
| wait_down: "list_all callable cs \<Longrightarrow> prog_ok t (Sema_down (Waiter_sema t) # cs)"
| sleep: "list_all callable cs \<Longrightarrow> prog_ok t (Insert_wait # Sema_init (Timer_sema t) 0 # Sema_down (Timer_sema t) # cs)"
| sleep_init: "list_all callable cs \<Longrightarrow> prog_ok t (Sema_init (Timer_sema t) 0 # Sema_down (Timer_sema t) # cs)"
| sleep_down: "list_all callable cs \<Longrightarrow> prog_ok t (Sema_down (Timer_sema t) # cs)"

inductive_cases prog_ok_ConsE: "prog_ok t (st # ss)"

definition progs_ok :: "(nat \<Rightarrow> stmt list option) \<Rightarrow> nat option \<Rightarrow> bool" where
  "progs_ok pr idl \<longleftrightarrow> (\<forall>t ss. pr t = Some ss \<and> idl \<noteq> Some t \<longrightarrow> prog_ok t ss)"

lemma progs_ok_upd: "progs_ok pr idl \<Longrightarrow> (\<And>ss. y = Some ss \<Longrightarrow> idl \<noteq> Some t \<Longrightarrow> prog_ok t ss) \<Longrightarrow> progs_ok (pr(t := y)) idl"
  by (auto simp: progs_ok_def)

section \<open>Critical sections\<close>

text \<open>Between the decrement and the increment of the semaphore of \<open>l\<close> a thread is about to record
  that it holds the lock, holds it, or is about to increment the semaphore.\<close>

definition crit_head :: "nat \<Rightarrow> stmt list \<Rightarrow> bool" where
  "crit_head l ss \<longleftrightarrow> (\<exists>r. ss = Set_holder l # r \<or> ss = Sema_up (Lock_sema l) # r)"

definition in_crit :: "(nat \<Rightarrow> stmt list option) \<Rightarrow> (nat \<Rightarrow> nat option) \<Rightarrow> nat \<Rightarrow> nat \<Rightarrow> bool" where
  "in_crit pr hs l t \<longleftrightarrow> hs l = Some t \<or> (\<exists>ss. pr t = Some ss \<and> crit_head l ss)"

definition lock_inv :: "(nat \<Rightarrow> stmt list option) \<Rightarrow> (nat \<Rightarrow> nat) \<Rightarrow> (nat \<Rightarrow> nat option) \<Rightarrow> bool" where
  "lock_inv pr sv hs \<longleftrightarrow> (\<forall>l.
     (sv l = 1 \<and> (\<forall>t. \<not> in_crit pr hs l t) \<or> sv l = 0 \<and> (\<exists>t. \<forall>u. in_crit pr hs l u \<longleftrightarrow> u = t))
   \<and> (\<forall>t r. pr t = Some (Sema_up (Lock_sema l) # r) \<longrightarrow> hs l = None))"

lemma lock_invD:
  assumes "lock_inv pr sv hs"
  shows "sv l = 1 \<and> (\<forall>t. \<not> in_crit pr hs l t) \<or> sv l = 0 \<and> (\<exists>t. \<forall>u. in_crit pr hs l u \<longleftrightarrow> u = t)"
    "pr t = Some (Sema_up (Lock_sema l) # r) \<Longrightarrow> hs l = None"
  using assms unfolding lock_inv_def by blast+

text \<open>A change outside of critical sections.\<close>

lemma lock_prog:
  assumes li: "lock_inv pr sv hs" and old: "\<And>ss l. pr t = Some ss \<Longrightarrow> \<not> crit_head l ss" and new: "\<And>ss l. y = Some ss \<Longrightarrow> \<not> crit_head l ss"
  shows "lock_inv (pr(t := y)) sv hs"
proof -
  have "in_crit (pr(t := y)) hs l u = in_crit pr hs l u" for l u using old new by (auto simp: in_crit_def)
  moreover have "hs l = None" if "(pr(t := y)) u = Some (Sema_up (Lock_sema l) # r)" for l u r
    using that new [of _ l] lock_invD(2) [OF li, of u l r] by (cases "u = t") (auto simp: crit_head_def)
  ultimately show ?thesis using li unfolding lock_inv_def by simp
qed

lemma lock_down:
  assumes li: "lock_inv pr sv hs" and t: "pr t = Some ss" and ss: "\<And>m. \<not> crit_head m ss" and v: "sv l \<noteq> 0"
  shows "lock_inv (pr(t := Some (Set_holder l # cs))) (sv(l := sv l - 1)) hs"
proof -
  let ?pr = "pr(t := Some (Set_holder l # cs))"
  have one: "sv l = 1" "\<not> in_crit pr hs l u" for u using lock_invD(1) [OF li, of l] v by auto
  have "in_crit ?pr hs m u = (if m = l then u = t else in_crit pr hs m u)" for m u
    using t ss one(2) by (auto simp: in_crit_def crit_head_def)
  moreover have "hs m = None" if "?pr u = Some (Sema_up (Lock_sema m) # r)" for m u r
    using that lock_invD(2) [OF li, of u m r] by (auto split: if_splits)
  ultimately show ?thesis using li one unfolding lock_inv_def by auto
qed

lemma lock_hold:
  assumes li: "lock_inv pr sv hs" and t: "pr t = Some (Set_holder l # cs)" and cs: "\<And>m. \<not> crit_head m cs"
  shows "lock_inv (pr(t := Some cs)) sv (hs(l := Some t))"
proof -
  let ?pr = "pr(t := Some cs)" and ?hs = "hs(l := Some t)"
  have "in_crit pr hs l t" using t by (auto simp: in_crit_def crit_head_def)
  then have zero: "sv l = 0" "\<And>u. in_crit pr hs l u \<longleftrightarrow> u = t" using lock_invD(1) [OF li, of l] by auto
  have "in_crit ?pr ?hs l u \<longleftrightarrow> u = t" for u
    using zero(2) [of u] cs by (auto simp: in_crit_def)
  moreover have "in_crit ?pr ?hs m u = in_crit pr hs m u" if "m \<noteq> l" for m u
    using that t cs by (auto simp: in_crit_def crit_head_def)
  moreover have "?hs m = None" if up: "?pr u = Some (Sema_up (Lock_sema m) # r)" for m u r
  proof -
    have u: "u \<noteq> t" using cs [of m] up by (auto simp: crit_head_def split: if_splits)
    then have "pr u = Some (Sema_up (Lock_sema m) # r)" using up by simp
    then have "hs m = None" "in_crit pr hs m u" using lock_invD(2) [OF li] by (auto simp: in_crit_def crit_head_def)
    moreover have "m \<noteq> l" using zero(2) [of u] u \<open>in_crit pr hs m u\<close> by auto
    ultimately show ?thesis by simp
  qed
  ultimately show ?thesis using li zero(1) unfolding lock_inv_def by (metis (no_types, lifting))
qed

lemma lock_leave:
  assumes li: "lock_inv pr sv hs" and t: "pr t = Some ss" "hs l = Some t" and ss: "\<And>m. \<not> crit_head m ss"
  shows "lock_inv (pr(t := Some (Sema_up (Lock_sema l) # cs))) sv (hs(l := None))"
proof -
  let ?pr = "pr(t := Some (Sema_up (Lock_sema l) # cs))" and ?hs = "hs(l := None)"
  have "in_crit pr hs l t" using t by (auto simp: in_crit_def)
  then have zero: "sv l = 0" "\<And>u. in_crit pr hs l u \<longleftrightarrow> u = t" using lock_invD(1) [OF li, of l] by auto
  have "in_crit ?pr ?hs l u \<longleftrightarrow> u = t" for u
    using zero(2) [of u] by (auto simp: in_crit_def crit_head_def)
  moreover have "in_crit ?pr ?hs m u = in_crit pr hs m u" if "m \<noteq> l" for m u
    using that t ss by (auto simp: in_crit_def crit_head_def)
  moreover have "?hs m = None" if "?pr u = Some (Sema_up (Lock_sema m) # r)" for m u r
    using that lock_invD(2) [OF li, of u m r] by (auto split: if_splits)
  ultimately show ?thesis using li zero(1) unfolding lock_inv_def by (metis (no_types, lifting))
qed

lemma lock_up:
  assumes li: "lock_inv pr sv hs" and t: "pr t = Some (Sema_up (Lock_sema l) # cs)" and cs: "\<And>m. \<not> crit_head m cs"
  shows "lock_inv (pr(t := Some cs)) (sv(l := (sv l + 1) mod 4294967296)) hs"
proof -
  let ?pr = "pr(t := Some cs)"
  have "in_crit pr hs l t" using t by (auto simp: in_crit_def crit_head_def)
  then have zero: "sv l = 0" "\<And>u. in_crit pr hs l u \<longleftrightarrow> u = t" using lock_invD(1) [OF li, of l] by auto
  have "hs l = None" using lock_invD(2) [OF li t] .
  then have "\<not> in_crit ?pr hs l u" for u
    using zero(2) [of u] cs by (auto simp: in_crit_def)
  moreover have "in_crit ?pr hs m u = in_crit pr hs m u" if "m \<noteq> l" for m u
    using that t cs by (auto simp: in_crit_def crit_head_def)
  moreover have "hs m = None" if "?pr u = Some (Sema_up (Lock_sema m) # r)" for m u r
    using that cs [of m] lock_invD(2) [OF li, of u m r] by (auto simp: crit_head_def split: if_splits)
  ultimately show ?thesis using li zero(1) unfolding lock_inv_def by auto
qed

section \<open>Wake-ups\<close>

text \<open>The runnable threads that are about to test the semaphore \<open>s\<close>.\<close>

definition coming :: "(nat \<Rightarrow> thread_status option) \<Rightarrow> (nat \<Rightarrow> stmt list option) \<Rightarrow> sema_ref \<Rightarrow> nat set" where
  "coming st pr s = {t. runnable (st t) \<and> (\<exists>ss. pr t = Some (Sema_down s # ss))}"

definition wake_inv ::
  "(nat \<Rightarrow> thread_status option) \<Rightarrow> (nat \<Rightarrow> stmt list option) \<Rightarrow> (sema_ref \<Rightarrow> nat list) \<Rightarrow> (sema_ref \<Rightarrow> nat) \<Rightarrow> bool" where
  "wake_inv st pr wt sv \<longleftrightarrow> finite {t. st t \<noteq> None} \<and> (\<forall>s. wt s \<noteq> [] \<longrightarrow> sv s \<le> card (coming st pr s))"

lemma finite_upd: "finite {t. st t \<noteq> None} \<Longrightarrow> finite {t. (st(u := x)) t \<noteq> None}"
  by (rule finite_subset [of _ "insert u {t. st t \<noteq> None}"]) auto

lemma finite_coming: "finite {t. st t \<noteq> None} \<Longrightarrow> finite (coming st pr s)"
  by (rule finite_subset [of _ "{t. st t \<noteq> None}"]) (auto simp: coming_def)

lemma wake_mono:
  assumes w: "wake_inv st pr wt sv" and fin: "finite {t. st' t \<noteq> None}"
    and m: "\<And>s. wt' s \<noteq> [] \<Longrightarrow> sv' s = 0 \<or> wt s \<noteq> [] \<and> sv' s \<le> sv s \<and> coming st pr s \<subseteq> coming st' pr' s"
  shows "wake_inv st' pr' wt' sv'"
  unfolding wake_inv_def
proof (intro conjI fin allI impI)
  fix s
  assume ne: "wt' s \<noteq> []"
  show "sv' s \<le> card (coming st' pr' s)"
  proof (cases "sv' s = 0")
    case False
    then have "wt s \<noteq> []" "sv' s \<le> sv s" "coming st pr s \<subseteq> coming st' pr' s" using m [OF ne] by auto
    moreover from this have "sv s \<le> card (coming st pr s)" using w by (simp add: wake_inv_def)
    ultimately show ?thesis using card_mono [OF finite_coming [OF fin], of "coming st pr s" pr' s] by linarith
  qed simp
qed

text \<open>A thread whose program does not start with a wait for a semaphore changes in any way.\<close>

lemma wake_other:
  assumes w: "wake_inv st pr wt sv" and t: "\<And>s ss. pr t \<noteq> Some (Sema_down s # ss)"
  shows "wake_inv (st(t := x)) (pr(t := y)) wt sv"
proof (rule wake_mono [OF w])
  show "finite {u. (st(t := x)) u \<noteq> None}" using w by (intro finite_upd) (simp add: wake_inv_def)
  show "sv s = 0 \<or> wt s \<noteq> [] \<and> sv s \<le> sv s \<and> coming st pr s \<subseteq> coming (st(t := x)) (pr(t := y)) s" if "wt s \<noteq> []" for s
    using that t [of s] by (auto simp: coming_def)
qed

text \<open>A runnable thread stays runnable.\<close>

lemma wake_status:
  assumes w: "wake_inv st pr wt sv" and t: "x \<noteq> None" "runnable (st t) \<Longrightarrow> runnable x"
  shows "wake_inv (st(t := x)) pr wt sv"
proof (rule wake_mono [OF w])
  show "finite {u. (st(t := x)) u \<noteq> None}" using w by (intro finite_upd) (simp add: wake_inv_def)
  show "sv s = 0 \<or> wt s \<noteq> [] \<and> sv s \<le> sv s \<and> coming st pr s \<subseteq> coming (st(t := x)) pr s" if "wt s \<noteq> []" for s
    using that t(2) by (auto simp: coming_def)
qed

lemma wake_down:
  assumes w: "wake_inv st pr wt sv" and t: "pr t = Some (Sema_down s # ss)" and v: "sv s \<noteq> 0"
  shows "wake_inv st (pr(t := Some ss)) wt (sv(s := sv s - 1))"
  unfolding wake_inv_def
proof (intro conjI allI impI)
  let ?pr = "pr(t := Some ss)"
  show fin: "finite {t. st t \<noteq> None}" using w by (simp add: wake_inv_def)
  fix r
  assume "wt r \<noteq> []"
  then have le: "sv r \<le> card (coming st pr r)" using w by (simp add: wake_inv_def)
  have sub: "coming st pr r - (if r = s then {t} else {}) \<subseteq> coming st ?pr r" using t by (auto simp: coming_def)
  have "card (coming st pr r) - (if r = s then 1 else 0) \<le> card (coming st pr r - (if r = s then {t} else {}))"
    by (simp add: card_Diff_singleton_if)
  also have "\<dots> \<le> card (coming st ?pr r)" using sub by (intro card_mono finite_coming [OF fin])
  finally show "(sv(s := sv s - 1)) r \<le> card (coming st ?pr r)" using le by (auto split: if_splits)
qed

lemma wake_block:
  assumes w: "wake_inv st pr wt sv" and t: "pr t = Some (Sema_down s # ss)" and v: "sv s = 0"
  shows "wake_inv (st(t := Some THREAD_BLOCKED)) pr (wt(s := ws)) sv"
proof (rule wake_mono [OF w])
  show "finite {u. (st(t := Some THREAD_BLOCKED)) u \<noteq> None}" using w by (intro finite_upd) (simp add: wake_inv_def)
  show "sv r = 0 \<or> wt r \<noteq> [] \<and> sv r \<le> sv r \<and> coming st pr r \<subseteq> coming (st(t := Some THREAD_BLOCKED)) pr r"
    if "(wt(s := ws)) r \<noteq> []" for r
    using that t v by (cases "r = s") (auto simp: coming_def)
qed

lemma wake_up:
  assumes w: "wake_inv st pr wt sv" and s: "wt s = t # ts" and t: "st t = Some THREAD_BLOCKED" "pr t = Some (Sema_down s # ss)"
  shows "wake_inv (st(t := Some THREAD_READY)) pr (wt(s := ts)) (sv(s := (sv s + 1) mod n))"
  unfolding wake_inv_def
proof (intro conjI allI impI)
  let ?st = "st(t := Some THREAD_READY)"
  have fin: "finite {t. st t \<noteq> None}" using w by (simp add: wake_inv_def)
  then show fin': "finite {t. ?st t \<noteq> None}" by (rule finite_upd)
  fix r
  assume r: "(wt(s := ts)) r \<noteq> []"
  have "coming ?st pr r = (if r = s then insert t (coming st pr r) else coming st pr r)" "t \<notin> coming st pr r"
    using t by (auto simp: coming_def)
  then have c: "card (coming ?st pr r) = card (coming st pr r) + (if r = s then 1 else 0)"
    using finite_coming [OF fin, of pr r] by (cases "r = s") simp_all
  have "wt r \<noteq> []" using r s by (auto split: if_splits)
  then have "sv r \<le> card (coming st pr r)" using w by (simp add: wake_inv_def)
  moreover have "(sv r + 1) mod n \<le> sv r + 1" by (rule mod_less_eq_dividend)
  ultimately have "(sv r + 1) mod n \<le> card (coming st pr r) + 1" by linarith
  then show "(sv(s := (sv s + 1) mod n)) r \<le> card (coming ?st pr r)"
    using \<open>sv r \<le> card (coming st pr r)\<close> unfolding c by (cases "r = s") simp_all
qed

lemma wake_empty: "wake_inv st pr wt sv \<Longrightarrow> wt s = [] \<Longrightarrow> wake_inv st pr wt (sv(s := v))"
  by (auto simp: wake_inv_def)

lemma wake_reset: "wake_inv st pr wt sv \<Longrightarrow> wake_inv st pr (wt(s := [])) (sv(s := v))"
  by (auto simp: wake_inv_def)

lemma wake_less: "wake_inv st pr wt sv \<Longrightarrow> wake_inv st pr wt (sv(s := sv s - n))"
  by (auto simp: wake_inv_def intro: le_trans)

section \<open>The invariant\<close>

definition live_inv :: "(nat \<Rightarrow> thread_status option) \<Rightarrow> nat list \<Rightarrow> bool" where
  "live_inv st all \<longleftrightarrow> distinct all \<and> (\<forall>t. t \<in> set all \<longleftrightarrow> st t \<noteq> None \<and> st t \<noteq> Some THREAD_DYING)"

lemma live_status:
  "live_inv st all \<Longrightarrow> st t \<noteq> None \<Longrightarrow> st t \<noteq> Some THREAD_DYING \<Longrightarrow> x \<noteq> None \<Longrightarrow> x \<noteq> Some THREAD_DYING \<Longrightarrow>
   live_inv (st(t := x)) all"
  by (auto simp: live_inv_def)

definition core_inv :: "kernel \<Rightarrow> bool" where
  "core_inv k \<longleftrightarrow>
     queue_inv (stat k) (prg k) (ready_list k) (wts k) (idle_thread k)
   \<and> wake_inv (stat k) (prg k) (wts k) (svs k)
   \<and> progs_ok (prg k) (idle_thread k)
   \<and> live_inv (stat k) (all_list k)"

definition base_inv :: "kernel \<Rightarrow> bool" where
  "base_inv k \<longleftrightarrow> core_inv k \<and> lock_inv (prg k) (\<lambda>l. svs k (Lock_sema l)) (holders k)"

definition kinv :: "kernel \<Rightarrow> bool" where
  "kinv k \<longleftrightarrow> base_inv k \<and> stat k (current k) = Some THREAD_RUNNING
   \<and> (\<forall>t. stat k t = Some THREAD_RUNNING \<longrightarrow> t = current k)
   \<and> (\<forall>t. stat k t = Some THREAD_DYING \<longrightarrow> t = initial_thread k)"

lemma stat_None: "stat k t = None \<longleftrightarrow> threads k t = None" "prg k t = None \<longleftrightarrow> threads k t = None"
  by (simp_all add: stat_def prg_def)

text \<open>The state in which \<^verbatim>\<open>schedule\<close> is called: the current thread has given up the processor.\<close>

definition descheduled :: "kernel \<Rightarrow> bool" where
  "descheduled k \<longleftrightarrow> base_inv k \<and> stat k (current k) \<noteq> None
   \<and> (\<forall>t. stat k t \<noteq> Some THREAD_RUNNING)
   \<and> (\<forall>t. stat k t = Some THREAD_DYING \<longrightarrow> t = initial_thread k \<or> t = current k)
   \<and> (stat k (current k) = Some THREAD_DYING \<longrightarrow> (\<forall>l ss. prg k (current k) = Some ss \<longrightarrow> \<not> crit_head l ss))
   \<and> (stat k (current k) = Some THREAD_DYING \<longrightarrow> (\<forall>s ss. prg k (current k) \<noteq> Some (Sema_down s # ss)))"

lemma upd_status:
  "map_option status (threads k t) = stat k t" "map_option prog (threads k t) = prg k t"
  "map_option (\<lambda>x. y) (threads k t) = (if threads k t = None then None else Some y)"
  by (auto simp: stat_def prg_def split: option.split)

lemma kview_status:
  "threads k t \<noteq> None \<Longrightarrow> stat (upd_thread k t (\<lambda>x. x\<lparr>status := y\<rparr>)) = (stat k)(t := Some y)"
  "prg (upd_thread k t (\<lambda>x. x\<lparr>status := y\<rparr>)) = prg k"
  by (auto simp: kview fun_eq_iff prg_def)

lemma kview_prog:
  "stat (upd_thread k t (\<lambda>x. x\<lparr>prog := f x\<rparr>)) = stat k"
  "prg (upd_thread k t (\<lambda>x. x\<lparr>prog := f x\<rparr>)) = (prg k)(t := map_option f (threads k t))"
  by (auto simp: kview fun_eq_iff stat_def)

lemma schedule_tail_stat:
  "thread_schedule_tail k prev =
     (let k = (upd_thread k (current k) (\<lambda>t. t\<lparr>status := THREAD_RUNNING\<rparr>))\<lparr>thread_ticks := 0\<rparr>
      in case prev of
           None \<Rightarrow> Some k
         | Some p \<Rightarrow>
             if stat k p = Some THREAD_DYING \<and> p \<noteq> initial_thread k
             then if p \<noteq> current k then Some (k\<lparr>threads := (threads k)(p := None)\<rparr>) else None
             else Some k)"
  by (cases prev) (simp_all add: thread_schedule_tail_def Let_def ASSERT_def flip: stat_def)

lemma schedule_tail_kinv:
  assumes b: "base_inv k" and c: "stat k c \<noteq> None" "stat k c \<noteq> Some THREAD_DYING"
    and norun: "\<And>t. stat k t \<noteq> Some THREAD_RUNNING"
    and q: "queue_inv ((stat k)(c := Some THREAD_RUNNING)) (prg k) rdy (wts k) (idle_thread k)"
    and k': "k' = k\<lparr>ready_list := rdy, current := c\<rparr>"
    and dead: "\<And>t. stat k t = Some THREAD_DYING \<Longrightarrow> t = initial_thread k \<or> prev = Some t"
    and prev: "\<And>p l ss. prev = Some p \<Longrightarrow> stat k p = Some THREAD_DYING \<Longrightarrow> prg k p = Some ss \<Longrightarrow> \<not> crit_head l ss"
      "\<And>p s ss. prev = Some p \<Longrightarrow> stat k p = Some THREAD_DYING \<Longrightarrow> prg k p \<noteq> Some (Sema_down s # ss)"
  shows "\<exists>k''. thread_schedule_tail k' prev = Some k'' \<and> kinv k'' \<and> current k'' = c"
proof -
  let ?st = "(stat k)(c := Some THREAD_RUNNING)"
  define kk where kk: "kk = (upd_thread k' (current k') (\<lambda>t. t\<lparr>status := THREAD_RUNNING\<rparr>))\<lparr>thread_ticks := 0\<rparr>"
  have same: "stat k' = stat k" "prg k' = prg k" "wts k' = wts k" "svs k' = svs k" "holders k' = holders k"
    "idle_thread k' = idle_thread k" "all_list k' = all_list k" "initial_thread k' = initial_thread k" "current k' = c" "threads k' = threads k" "ready_list k' = rdy"
    unfolding k' by (simp_all add: kview)
  have thr: "threads k c \<noteq> None" using c(1) by (simp add: stat_None)
  have thr': "threads k' (current k') \<noteq> None" using thr same by simp
  have v: "stat kk = ?st" "prg kk = prg k" "wts kk = wts k" "svs kk = svs k" "holders kk = holders k" "ready_list kk = rdy"
    "idle_thread kk = idle_thread k" "all_list kk = all_list k" "initial_thread kk = initial_thread k" "current kk = c"
    unfolding kk kview_fields kview_status(1) [OF thr'] kview_status(2) by (simp_all add: kview same)
  have b: "queue_inv (stat k) (prg k) (ready_list k) (wts k) (idle_thread k)" "wake_inv (stat k) (prg k) (wts k) (svs k)"
    "progs_ok (prg k) (idle_thread k)" "live_inv (stat k) (all_list k)" "lock_inv (prg k) (\<lambda>l. svs k (Lock_sema l)) (holders k)"
    using b by (simp_all add: base_inv_def core_inv_def)
  have wake: "wake_inv ?st (prg k) (wts k) (svs k)" by (rule wake_status [OF b(2)]) simp_all
  have live: "live_inv ?st (all_list k)" using c by (intro live_status [OF b(4)]) simp_all
  show ?thesis
  proof (cases "\<exists>p. prev = Some p \<and> ?st p = Some THREAD_DYING \<and> p \<noteq> initial_thread k")
    case False
    then have "thread_schedule_tail k' prev = Some kk"
      using v unfolding schedule_tail_stat kk [symmetric] Let_def by (cases prev) auto
    moreover have "kinv kk"
      unfolding kinv_def base_inv_def core_inv_def v using q wake b(3,5) live norun dead False by (auto split: if_splits)
    ultimately show ?thesis using v(10) by blast
  next
    case True
    then obtain p where p: "prev = Some p" "stat k p = Some THREAD_DYING" "p \<noteq> initial_thread k" "p \<noteq> c" by (auto split: if_splits)
    let ?k2 = "kk\<lparr>threads := (threads kk)(p := None)\<rparr>"
    have pst: "?st p = Some THREAD_DYING" using p by simp
    have "thread_schedule_tail k' prev = Some ?k2"
      using p v pst unfolding schedule_tail_stat kk [symmetric] Let_def by simp
    moreover have v2: "stat ?k2 = ?st(p := None)" "prg ?k2 = (prg k)(p := None)" "wts ?k2 = wts k" "svs ?k2 = svs k" "holders ?k2 = holders k"
      "ready_list ?k2 = rdy" "idle_thread ?k2 = idle_thread k" "all_list ?k2 = all_list k"
      "initial_thread ?k2 = initial_thread k" "current ?k2 = c"
      using v by (simp_all add: kview)
    have "kinv ?k2"
      unfolding kinv_def base_inv_def core_inv_def v2
    proof (intro conjI allI impI)
      show "queue_inv (?st(p := None)) ((prg k)(p := None)) rdy (wts k) (idle_thread k)"
        by (rule queue_free [OF q pst])
      show "wake_inv (?st(p := None)) ((prg k)(p := None)) (wts k) (svs k)"
        using prev(2) [OF p(1,2)] by (intro wake_other [OF wake]) blast
      show "progs_ok ((prg k)(p := None)) (idle_thread k)" by (rule progs_ok_upd [OF b(3)]) simp
      show "live_inv (?st(p := None)) (all_list k)" using live pst by (auto simp: live_inv_def)
      show "lock_inv ((prg k)(p := None)) (\<lambda>l. svs k (Lock_sema l)) (holders k)"
        using prev(1) [OF p(1,2)] by (intro lock_prog [OF b(5)]) auto
      show "t = initial_thread k" if "(?st(p := None)) t = Some THREAD_DYING" for t
        using that dead [of t] p by (auto split: if_splits)
    qed (use p norun in \<open>auto split: if_splits\<close>)
    ultimately show ?thesis using v2(10) by blast
  qed
qed

text \<open>\<^verbatim>\<open>schedule\<close> never fails, and runs the first ready thread, or the idle thread if there is none.\<close>

lemma schedule_kinv:
  assumes d: "descheduled k"
  shows "\<exists>k'. schedule k = Some k' \<and> kinv k'
    \<and> Some (current k') = (case ready_list k of [] \<Rightarrow> idle_thread k | t # ts \<Rightarrow> Some t)"
proof -
  have b: "base_inv k" "queue_inv (stat k) (prg k) (ready_list k) (wts k) (idle_thread k)"
    using d by (simp_all add: descheduled_def base_inv_def core_inv_def)
  have norun: "\<And>t. stat k t \<noteq> Some THREAD_RUNNING" using d by (simp add: descheduled_def)
  obtain c where c: "threads k (current k) = Some c" "status c \<noteq> THREAD_RUNNING"
    using d norun [of "current k"] by (auto simp: descheduled_def stat_def)
  obtain i where i: "idle_thread k = Some i" "stat k i \<noteq> None" "stat k i \<noteq> Some THREAD_DYING" using queue_invD(8) [OF b(2)] by blast
  define nxt where "nxt = (case ready_list k of [] \<Rightarrow> i | t # ts \<Rightarrow> t)"
  define k1 where "k1 = k\<lparr>ready_list := tl (ready_list k), current := nxt\<rparr>"
  have n: "stat k nxt \<noteq> None" "stat k nxt \<noteq> Some THREAD_DYING"
    using i queue_invD(2) [OF b(2), of nxt] by (auto simp: nxt_def split: list.splits)
  have q: "queue_inv ((stat k)(nxt := Some THREAD_RUNNING)) (prg k) (tl (ready_list k)) (wts k) (idle_thread k)"
    using queue_dispatch [of "stat k" "prg k" nxt "tl (ready_list k)" "wts k" "idle_thread k"]
      queue_dispatch_idle [of "stat k" "prg k" "wts k" i] b(2) i(1)
    by (auto simp: nxt_def split: list.splits)
  let ?prev = "if current k \<noteq> nxt then Some (current k) else None"
  have "next_thread_to_run k = Some (nxt, k\<lparr>ready_list := tl (ready_list k)\<rparr>)"
    using i(1) by (auto simp: next_thread_to_run_def nxt_def split: list.split)
  then have "schedule k = thread_schedule_tail k1 ?prev"
    using c n(1) by (auto simp: schedule_def k1_def stat_None)
  moreover have "\<exists>k''. thread_schedule_tail k1 ?prev = Some k'' \<and> kinv k'' \<and> current k'' = nxt"
    using d q n by (intro schedule_tail_kinv [OF b(1) n norun]) (auto simp: k1_def descheduled_def split: if_splits)
  moreover have "Some nxt = (case ready_list k of [] \<Rightarrow> idle_thread k | t # ts \<Rightarrow> Some t)"
    using i(1) by (simp add: nxt_def split: list.split)
  ultimately show ?thesis by auto
qed

section \<open>The operations keep the invariant\<close>

lemma kinvD:
  assumes "kinv k"
  shows "queue_inv (stat k) (prg k) (ready_list k) (wts k) (idle_thread k)" "wake_inv (stat k) (prg k) (wts k) (svs k)"
    "progs_ok (prg k) (idle_thread k)" "live_inv (stat k) (all_list k)" "lock_inv (prg k) (\<lambda>l. svs k (Lock_sema l)) (holders k)"
    "stat k (current k) = Some THREAD_RUNNING" "stat k t = Some THREAD_RUNNING \<Longrightarrow> t = current k"
    "stat k t = Some THREAD_DYING \<Longrightarrow> t = initial_thread k"
  using assms by (simp_all add: kinv_def base_inv_def core_inv_def)

text \<open>The parts of the invariant besides those of locks, in a state with the same running thread.\<close>

definition running_inv :: "kernel \<Rightarrow> bool" where
  "running_inv k \<longleftrightarrow> core_inv k \<and> stat k (current k) = Some THREAD_RUNNING
   \<and> (\<forall>t. stat k t = Some THREAD_RUNNING \<longrightarrow> t = current k)
   \<and> (\<forall>t. stat k t = Some THREAD_DYING \<longrightarrow> t = initial_thread k)"

lemma kinv_iff: "kinv k \<longleftrightarrow> running_inv k \<and> lock_inv (prg k) (\<lambda>l. svs k (Lock_sema l)) (holders k)"
  by (auto simp: kinv_def running_inv_def base_inv_def)

lemma thread_current_kinv: "kinv k \<Longrightarrow> \<exists>c. threads k (current k) = Some c \<and> thread_current k = Some c"
  using kinvD(6) [of k] by (auto simp: stat_def thread_current_def)

text \<open>The current thread gives up the processor with a new status.\<close>

lemma leave_kinv:
  assumes k: "kinv k" and x: "x \<noteq> THREAD_RUNNING"
    and q: "queue_inv ((stat k)(current k := Some x)) (prg k) rdy wt (idle_thread k)"
    and w: "wake_inv ((stat k)(current k := Some x)) (prg k) wt (svs k)"
    and dying: "x = THREAD_DYING \<Longrightarrow> prg k (current k) = Some (Thread_exit # ss)"
    and k1: "k1 = (upd_thread k2 (current k) (\<lambda>t. t\<lparr>status := x\<rparr>))\<lparr>ready_list := rdy, all_list := all\<rparr>"
    and k2: "stat k2 = stat k" "prg k2 = prg k" "wts k2 = wt" "svs k2 = svs k" "holders k2 = holders k"
      "idle_thread k2 = idle_thread k" "initial_thread k2 = initial_thread k" "current k2 = current k" "threads k2 = threads k"
    and all: "all = (if x = THREAD_DYING then remove1 (current k) (all_list k) else all_list k)"
  shows "\<exists>k'. schedule k1 = Some k' \<and> kinv k' \<and> Some (current k') = (case rdy of [] \<Rightarrow> idle_thread k | t # ts \<Rightarrow> Some t)"
proof -
  note kd = kinvD [OF k]
  have thr: "threads k2 (current k) \<noteq> None" using kd(6) k2(9) by (auto simp: stat_def)
  have v: "stat k1 = (stat k)(current k := Some x)" "prg k1 = prg k" "wts k1 = wt" "svs k1 = svs k" "holders k1 = holders k"
    "ready_list k1 = rdy" "idle_thread k1 = idle_thread k" "all_list k1 = all" "initial_thread k1 = initial_thread k" "current k1 = current k"
    unfolding k1 kview_fields kview_status(1) [OF thr] kview_status(2) using k2 by (simp_all add: kview)
  have live: "live_inv ((stat k)(current k := Some x)) all"
    using kd(4,6) unfolding all live_inv_def by auto
  have "descheduled k1"
    unfolding descheduled_def base_inv_def core_inv_def v
    using q w kd(3,5,7,8) live dying x by (auto simp: crit_head_def split: if_splits)
  from schedule_kinv [OF this] show ?thesis unfolding v .
qed

lemma block_kinv:
  assumes k: "kinv k" and p: "prg k (current k) = Some (Sema_down s # ss)" and z: "svs k s = 0"
  shows "\<exists>k'. thread_block (upd_sema k s (\<lambda>x. x\<lparr>waiters := waiters x @ [current k]\<rparr>)) = Some k' \<and> kinv k'"
proof -
  note kd = kinvD [OF k]
  let ?k2 = "upd_sema k s (\<lambda>x. x\<lparr>waiters := waiters x @ [current k]\<rparr>)"
  obtain c where c: "threads k (current k) = Some c" "thread_current k = Some c" using thread_current_kinv [OF k] by blast
  then have tc: "thread_current ?k2 = Some c" by (simp add: thread_current_def kview)
  have "wts ?k2 = (wts k)(s := wts k s @ [current k])" "svs ?k2 = svs k" by (auto simp: kview wts_def svs_def)
  then have "\<exists>k'. schedule ((upd_thread ?k2 (current k) (\<lambda>t. t\<lparr>status := THREAD_BLOCKED\<rparr>))\<lparr>ready_list := ready_list k, all_list := all_list k\<rparr>) = Some k' \<and> kinv k'
      \<and> Some (current k') = (case ready_list k of [] \<Rightarrow> idle_thread k | t # ts \<Rightarrow> Some t)"
    by (intro leave_kinv [OF k _ queue_block [OF kd(1,6) p] wake_block [OF kd(2) p z], where ?k2.0 = ?k2]) (simp_all add: kview)
  moreover have "(upd_thread ?k2 (current k) (\<lambda>t. t\<lparr>status := THREAD_BLOCKED\<rparr>))\<lparr>ready_list := ready_list k, all_list := all_list k\<rparr>
      = upd_thread ?k2 (current k) (\<lambda>t. t\<lparr>status := THREAD_BLOCKED\<rparr>)" by (simp add: upd_thread_def upd_sema_def)
  ultimately show ?thesis using tc by (auto simp: thread_block_def kview)
qed

text \<open>The idle thread blocks, a thread yields, a thread exits.\<close>

lemma leave_simple_kinv:
  assumes k: "kinv k" and x: "x \<noteq> THREAD_RUNNING"
    and q: "queue_inv ((stat k)(current k := Some x)) (prg k) rdy (wts k) (idle_thread k)"
    and w: "wake_inv ((stat k)(current k := Some x)) (prg k) (wts k) (svs k)"
    and dying: "x = THREAD_DYING \<Longrightarrow> prg k (current k) = Some (Thread_exit # ss)"
    and all: "all = (if x = THREAD_DYING then remove1 (current k) (all_list k) else all_list k)"
  shows "\<exists>k'. schedule ((upd_thread k (current k) (\<lambda>t. t\<lparr>status := x\<rparr>))\<lparr>ready_list := rdy, all_list := all\<rparr>) = Some k' \<and> kinv k'
    \<and> Some (current k') = (case rdy of [] \<Rightarrow> idle_thread k | t # ts \<Rightarrow> Some t)"
  by (rule leave_kinv [OF k x q w dying refl]) (simp_all add: all)

lemma idle_block_kinv:
  assumes k: "kinv k" and i: "idle_thread k = Some (current k)"
  shows "\<exists>k'. thread_block k = Some k' \<and> kinv k'"
proof -
  note kd = kinvD [OF k]
  have "prg k (current k) = Some [Idle]" using queue_invD(8) [OF kd(1)] i by auto
  then have "wake_inv ((stat k)(current k := Some THREAD_BLOCKED)) ((prg k)(current k := prg k (current k))) (wts k) (svs k)"
    by (intro wake_other [OF kd(2)]) simp
  then have w: "wake_inv ((stat k)(current k := Some THREAD_BLOCKED)) (prg k) (wts k) (svs k)" by (simp only: fun_upd_triv)
  have q: "queue_inv ((stat k)(current k := Some THREAD_BLOCKED)) (prg k) (ready_list k) (wts k) (idle_thread k)"
    using i by (intro queue_leave [OF kd(1,6)]) simp
  have "\<exists>k'. schedule ((upd_thread k (current k) (\<lambda>t. t\<lparr>status := THREAD_BLOCKED\<rparr>))\<lparr>ready_list := ready_list k, all_list := all_list k\<rparr>) = Some k' \<and> kinv k'
    \<and> Some (current k') = (case ready_list k of [] \<Rightarrow> idle_thread k | t # ts \<Rightarrow> Some t)"
    by (rule leave_simple_kinv [OF k _ q w]) simp_all
  then show ?thesis using thread_current_kinv [OF k] by (auto simp: thread_block_def upd_thread_def)
qed

lemma yield_kinv:
  assumes k: "kinv k"
  shows "\<exists>k'. thread_yield k = Some k' \<and> kinv k'
    \<and> Some (current k') = (case ready_list k of
        [] \<Rightarrow> if idle_thread k = Some (current k) then idle_thread k else Some (current k)
      | t # ts \<Rightarrow> Some t)"
proof -
  note kd = kinvD [OF k]
  let ?r = "if idle_thread k \<noteq> Some (current k) then ready_list k @ [current k] else ready_list k"
  have "queue_inv ((stat k)(current k := Some THREAD_READY)) (prg k) ?r (wts k) (idle_thread k)"
    using queue_yield [OF kd(1,6)] queue_leave [OF kd(1,6), of "Some THREAD_READY"] by simp
  moreover have "wake_inv ((stat k)(current k := Some THREAD_READY)) (prg k) (wts k) (svs k)"
    by (rule wake_status [OF kd(2)]) simp_all
  ultimately have "\<exists>k'. schedule ((upd_thread k (current k) (\<lambda>t. t\<lparr>status := THREAD_READY\<rparr>))\<lparr>ready_list := ?r, all_list := all_list k\<rparr>) = Some k' \<and> kinv k'
    \<and> Some (current k') = (case ?r of [] \<Rightarrow> idle_thread k | t # ts \<Rightarrow> Some t)"
    by (intro leave_simple_kinv [OF k]) simp_all
  moreover have "(upd_thread k (current k) (\<lambda>t. t\<lparr>status := THREAD_READY\<rparr>))\<lparr>ready_list := ?r, all_list := all_list k\<rparr>
    = (upd_thread k (current k) (\<lambda>t. t\<lparr>status := THREAD_READY\<rparr>))\<lparr>ready_list := ?r\<rparr>" by (simp add: upd_thread_def)
  moreover have "(case ?r of [] \<Rightarrow> idle_thread k | t # ts \<Rightarrow> Some t) = (case ready_list k of
        [] \<Rightarrow> if idle_thread k = Some (current k) then idle_thread k else Some (current k) | t # ts \<Rightarrow> Some t)"
    by (simp split: list.split)
  ultimately show ?thesis using thread_current_kinv [OF k] by (auto simp: thread_yield_def Let_def)
qed

lemma exit_kinv:
  assumes k: "kinv k" and p: "prg k (current k) = Some (Thread_exit # ss)"
  shows "\<exists>k'. thread_exit k = Some k' \<and> kinv k'"
proof -
  note kd = kinvD [OF k]
  have i: "idle_thread k \<noteq> Some (current k)" using queue_invD(8) [OF kd(1)] p by auto
  have "wake_inv ((stat k)(current k := Some THREAD_DYING)) ((prg k)(current k := prg k (current k))) (wts k) (svs k)"
    using p by (intro wake_other [OF kd(2)]) simp
  then have w: "wake_inv ((stat k)(current k := Some THREAD_DYING)) (prg k) (wts k) (svs k)" by (simp only: fun_upd_triv)
  have q: "queue_inv ((stat k)(current k := Some THREAD_DYING)) (prg k) (ready_list k) (wts k) (idle_thread k)"
    using i by (intro queue_leave [OF kd(1,6)]) simp
  have "\<exists>k'. schedule ((upd_thread k (current k) (\<lambda>t. t\<lparr>status := THREAD_DYING\<rparr>))\<lparr>ready_list := ready_list k, all_list := remove1 (current k) (all_list k)\<rparr>) = Some k' \<and> kinv k'
    \<and> Some (current k') = (case ready_list k of [] \<Rightarrow> idle_thread k | t # ts \<Rightarrow> Some t)"
    by (rule leave_simple_kinv [OF k _ q w p]) simp_all
  moreover have "(upd_thread k (current k) (\<lambda>t. t\<lparr>status := THREAD_DYING\<rparr>))\<lparr>ready_list := ready_list k, all_list := remove1 (current k) (all_list k)\<rparr>
    = (upd_thread k (current k) (\<lambda>t. t\<lparr>status := THREAD_DYING\<rparr>))\<lparr>all_list := remove1 (current k) (all_list k)\<rparr>" by (simp add: upd_thread_def)
  ultimately show ?thesis using thread_current_kinv [OF k] by (auto simp: thread_exit_def)
qed

text \<open>Waking a thread never fails; only the woken thread and the semaphore change.\<close>

lemma sema_up_running:
  assumes r: "running_inv k"
  shows "\<exists>k'. sema_up k s = Some k' \<and> running_inv k' \<and> prg k' = prg k \<and> holders k' = holders k \<and> current k' = current k
    \<and> svs k' = (svs k)(s := (svs k s + 1) mod 4294967296) \<and> idle_thread k' = idle_thread k
    \<and> (\<exists>ws. ready_list k' = ready_list k @ ws)"
proof -
  let ?up = "\<lambda>x. x\<lparr>sval := (sval x + 1) mod 4294967296\<rparr>"
  have c: "queue_inv (stat k) (prg k) (ready_list k) (wts k) (idle_thread k)" "wake_inv (stat k) (prg k) (wts k) (svs k)"
    "progs_ok (prg k) (idle_thread k)" "live_inv (stat k) (all_list k)" using r by (simp_all add: running_inv_def core_inv_def)
  show ?thesis
  proof (cases "wts k s")
    case Nil
    let ?k = "upd_sema k s ?up"
    have v: "wts ?k = wts k" "svs ?k = (svs k)(s := (svs k s + 1) mod 4294967296)"
      by (simp_all add: wts_def svs_def upd_sema_def fun_eq_iff)
    have "running_inv ?k"
      unfolding running_inv_def core_inv_def v kview_upd_sema(1,2,5-)
      using r wake_empty [OF c(2) Nil, of "(svs k s + 1) mod 4294967296"] c by (simp add: running_inv_def)
    moreover have "sema_up k s = Some ?k" using Nil by (simp add: sema_up_def wts_def)
    ultimately show ?thesis by (intro exI [of _ ?k] conjI) (simp_all only: v kview_upd_sema(1,2,5-), rule exI [of _ "[]"], simp)
  next
    case (Cons t ts)
    then have t: "stat k t = Some THREAD_BLOCKED" "\<exists>ss. prg k t = Some (Sema_down s # ss)"
      using queue_invD(4,6) [OF c(1), of t s] by auto
    then obtain x where x: "threads k t = Some x" "status x = THREAD_BLOCKED" by (auto simp: stat_def)
    define k1 where k1: "k1 = upd_sema k s (\<lambda>x. x\<lparr>waiters := ts\<rparr>)"
    define k2 where k2: "k2 = (upd_thread k1 t (\<lambda>x. x\<lparr>status := THREAD_READY\<rparr>))\<lparr>ready_list := ready_list k @ [t]\<rparr>"
    let ?k = "upd_sema k2 s ?up"
    have thr: "threads k1 t \<noteq> None" using x by (simp add: k1 kview)
    have "stat k2 = (stat k1)(t := Some THREAD_READY)" "prg k2 = prg k1"
      unfolding k2 kview_fields kview_status(1) [OF thr] kview_status(2) by simp_all
    then have v2: "stat k2 = (stat k)(t := Some THREAD_READY)" "prg k2 = prg k" by (simp_all add: k1 kview)
    have w2: "semas k2 = (semas k)(s := (semas k s)\<lparr>waiters := ts\<rparr>)" "holders k2 = holders k" "ready_list k2 = ready_list k @ [t]"
      "idle_thread k2 = idle_thread k" "all_list k2 = all_list k" "initial_thread k2 = initial_thread k" "current k2 = current k"
      by (simp_all add: k2 k1 upd_thread_def upd_sema_def)
    have v: "stat ?k = (stat k)(t := Some THREAD_READY)" "prg ?k = prg k" "wts ?k = (wts k)(s := ts)"
      "svs ?k = (svs k)(s := (svs k s + 1) mod 4294967296)" "holders ?k = holders k" "ready_list ?k = ready_list k @ [t]"
      "idle_thread ?k = idle_thread k" "all_list ?k = all_list k" "initial_thread ?k = initial_thread k" "current ?k = current k"
      unfolding kview_upd_sema v2 w2 by (simp_all add: fun_eq_iff wts_def svs_def w2)
    have "sema_up k s = Some ?k"
      using Cons x unfolding sema_up_def thread_unblock_def k1 k2 by (simp add: wts_def kview_upd_sema)
    moreover have "running_inv ?k"
      unfolding running_inv_def core_inv_def v
    proof (intro conjI)
      show "queue_inv ((stat k)(t := Some THREAD_READY)) (prg k) (ready_list k @ [t]) ((wts k)(s := ts)) (idle_thread k)"
        by (rule queue_unblock [OF c(1) Cons])
      show "wake_inv ((stat k)(t := Some THREAD_READY)) (prg k) ((wts k)(s := ts)) ((svs k)(s := (svs k s + 1) mod 4294967296))"
        using t wake_up [OF c(2) Cons] by blast
      show "live_inv ((stat k)(t := Some THREAD_READY)) (all_list k)" using t by (intro live_status [OF c(4)]) simp_all
      show "progs_ok (prg k) (idle_thread k)" by (rule c(3))
      have "stat k (current k) = Some THREAD_RUNNING" using r by (simp add: running_inv_def)
      then show "((stat k)(t := Some THREAD_READY)) (current k) = Some THREAD_RUNNING" using t(1) by auto
      show "\<forall>u. ((stat k)(t := Some THREAD_READY)) u = Some THREAD_RUNNING \<longrightarrow> u = current k"
        "\<forall>u. ((stat k)(t := Some THREAD_READY)) u = Some THREAD_DYING \<longrightarrow> u = initial_thread k"
        using r by (simp_all add: running_inv_def)
    qed
    ultimately show ?thesis by (intro exI [of _ ?k] conjI) (simp_all only: v, rule exI, rule refl)
  qed
qed

end
