(* ===== verification/Threads_Steps.thy ===== *)
theory Threads_Steps
  imports Threads_Inv
begin

text \<open>
  Every step of the kernel keeps the invariant, one lemma per statement; the invariant of all
  reachable states and what it says of the code.
\<close>

section \<open>Changing the program of the running thread\<close>

lemma kinv_rest:
  "kinv k \<Longrightarrow> \<forall>t. stat k t = Some THREAD_RUNNING \<longrightarrow> t = current k"
  "kinv k \<Longrightarrow> \<forall>t. stat k t = Some THREAD_DYING \<longrightarrow> t = initial_thread k"
  by (auto simp: kinv_def)

lemma cur_prog_prg: "cur_prog k = st # ss \<Longrightarrow> prg k (current k) = Some (st # ss)"
  by (auto simp: cur_prog_def prg_def split: option.splits)

lemma prg_continue: "prg k (current k) = Some (st # ss) \<Longrightarrow> prg (continue_with k cs) = (prg k)(current k := Some (cs @ ss))"
  by (auto simp: continue_with_def kview_prog prg_def fun_eq_iff)

lemma kview_continue [kview]:
  "stat (continue_with k cs) = stat k" "wts (continue_with k cs) = wts k" "svs (continue_with k cs) = svs k"
  "ready_list (continue_with k cs) = ready_list k" "holders (continue_with k cs) = holders k"
  "idle_thread (continue_with k cs) = idle_thread k" "current (continue_with k cs) = current k"
  "all_list (continue_with k cs) = all_list k" "initial_thread (continue_with k cs) = initial_thread k"
  "semas (continue_with k cs) = semas k" "conds (continue_with k cs) = conds k"
  unfolding continue_with_def kview_prog by (simp_all add: kview upd_thread_def)

lemmas callable_shapes = prog_ok.intros crit_head_def

text \<open>Calls are outside of critical sections.\<close>

lemma callable_no_crit: "list_all callable cs \<Longrightarrow> \<not> crit_head l cs"
  by (cases cs) (auto simp: crit_head_def)

text \<open>A step that only changes the program of the running thread, which is not waiting.\<close>

lemma running_prog:
  assumes k: "kinv k" and p: "prg k (current k) = Some ss" and ss: "\<And>s r. ss \<noteq> Sema_down s # r"
    and i: "idle_thread k \<noteq> Some (current k)" and ok: "prog_ok (current k) ss'"
    and k': "stat k' = stat k" "prg k' = (prg k)(current k := Some ss')" "wts k' = wts k" "svs k' = svs k"
      "ready_list k' = ready_list k" "idle_thread k' = idle_thread k" "all_list k' = all_list k"
      "initial_thread k' = initial_thread k" "current k' = current k"
  shows "running_inv k'"
proof -
  note kd = kinvD [OF k]
  have "wake_inv ((stat k)(current k := stat k (current k))) ((prg k)(current k := Some ss')) (wts k) (svs k)"
    using p ss by (intro wake_other [OF kd(2)]) simp
  then have "wake_inv (stat k) ((prg k)(current k := Some ss')) (wts k) (svs k)" by (simp only: fun_upd_triv)
  moreover have "progs_ok ((prg k)(current k := Some ss')) (idle_thread k)" using ok by (intro progs_ok_upd [OF kd(3)]) simp
  ultimately show ?thesis
    unfolding running_inv_def core_inv_def k'
    using queue_prog [OF kd(1,6) i] kd(4,6) kinv_rest [OF k] by blast
qed

text \<open>The same outside of critical sections: the whole invariant is kept.\<close>

lemma kinv_prog:
  assumes k: "kinv k" and p: "prg k (current k) = Some ss" and ss: "\<And>s r. ss \<noteq> Sema_down s # r"
    and i: "idle_thread k \<noteq> Some (current k)" and ok: "prog_ok (current k) ss'"
    and crit: "\<And>l. \<not> crit_head l ss" "\<And>l. \<not> crit_head l ss'"
    and k': "stat k' = stat k" "prg k' = (prg k)(current k := Some ss')" "wts k' = wts k" "svs k' = svs k"
      "ready_list k' = ready_list k" "idle_thread k' = idle_thread k" "all_list k' = all_list k"
      "initial_thread k' = initial_thread k" "current k' = current k" "holders k' = holders k"
  shows "kinv k'"
proof -
  have "lock_inv ((prg k)(current k := Some ss')) (\<lambda>l. svs k (Lock_sema l)) (holders k)"
    using p crit by (intro lock_prog [OF kinvD(5) [OF k]]) auto
  then show ?thesis
    using running_prog [OF k p ss i ok k'(1-9)] unfolding kinv_iff k' by simp
qed

lemma not_idle: "kinv k \<Longrightarrow> prg k (current k) = Some ss \<Longrightarrow> ss \<noteq> [Idle] \<Longrightarrow> idle_thread k \<noteq> Some (current k)"
  using queue_invD(8) [OF kinvD(1)] by fastforce

text \<open>The semaphores a thread owns have no waiting thread while it runs.\<close>

lemma own_semas:
  assumes k: "kinv k" and s: "s = Timer_sema (current k) \<or> s = Waiter_sema (current k)"
  shows "wts k s = []"
proof (rule ccontr)
  assume "wts k s \<noteq> []"
  then obtain t where t: "t \<in> set (wts k s)" by (cases "wts k s") auto
  note kd = kinvD [OF k]
  obtain ss where ss: "prg k t = Some (Sema_down s # ss)" "stat k t = Some THREAD_BLOCKED" "idle_thread k \<noteq> Some t"
    using queue_invD(4-6) [OF kd(1) t] by blast
  then have "prog_ok t (Sema_down s # ss)" using kd(3) by (simp add: progs_ok_def)
  then have "t = current k" using s by (auto elim!: prog_ok_ConsE)
  then show False using ss(2) kd(6) by simp
qed

section \<open>Statements\<close>

lemma step_sema_down:
  assumes k: "kinv k" and p: "prg k (current k) = Some (Sema_down s # ss)"
  shows "\<exists>k'. sema_down k s = Some k' \<and> kinv k'"
proof (cases "svs k s = 0")
  case True
  then show ?thesis using block_kinv [OF k p] by (simp add: sema_down_def svs_def)
next
  case False
  note kd = kinvD [OF k]
  let ?k = "continue_with (upd_sema k s (\<lambda>x. x\<lparr>sval := sval x - 1\<rparr>)) []"
  have p': "prg (upd_sema k s (\<lambda>x. x\<lparr>sval := sval x - 1\<rparr>)) (current (upd_sema k s (\<lambda>x. x\<lparr>sval := sval x - 1\<rparr>))) = Some (Sema_down s # ss)"
    using p by (simp add: kview)
  have sem: "wts (upd_sema k s (\<lambda>x. x\<lparr>sval := sval x - 1\<rparr>)) = wts k" "svs (upd_sema k s (\<lambda>x. x\<lparr>sval := sval x - 1\<rparr>)) = (svs k)(s := svs k s - 1)"
    by (simp_all add: wts_def svs_def upd_sema_def fun_eq_iff)
  have v: "stat ?k = stat k" "prg ?k = (prg k)(current k := Some ss)" "wts ?k = wts k" "svs ?k = (svs k)(s := svs k s - 1)"
    "ready_list ?k = ready_list k" "idle_thread ?k = idle_thread k" "all_list ?k = all_list k"
    "initial_thread ?k = initial_thread k" "current ?k = current k" "holders ?k = holders k"
    unfolding prg_continue [OF p'] kview_continue sem kview_upd_sema(1,2,5-) by simp_all
  have i: "idle_thread k \<noteq> Some (current k)" using not_idle [OF k p] by simp
  have ok: "prog_ok (current k) (Sema_down s # ss)" using kd(3) p i by (simp add: progs_ok_def)
  then have ok': "prog_ok (current k) ss" by (auto elim!: prog_ok_ConsE intro: prog_ok.intros)
  have "lock_inv ((prg k)(current k := Some ss)) (\<lambda>l. ((svs k)(s := svs k s - 1)) (Lock_sema l)) (holders k)"
  proof (cases "\<exists>l. s = Lock_sema l")
    case True
    then obtain l cs where l: "s = Lock_sema l" "ss = Set_holder l # cs" using ok by (auto elim!: prog_ok_ConsE)
    have "(\<lambda>m. ((svs k)(s := svs k s - 1)) (Lock_sema m)) = (\<lambda>m. svs k (Lock_sema m))(l := svs k (Lock_sema l) - 1)"
      using l by (auto simp: fun_eq_iff)
    then show ?thesis
      using lock_down [OF kd(5) p, of l cs] False l by (simp add: crit_head_def)
  next
    case nl: False
    then have "(\<lambda>l. ((svs k)(s := svs k s - 1)) (Lock_sema l)) = (\<lambda>l. svs k (Lock_sema l))" by (auto simp: fun_eq_iff)
    moreover have "\<not> crit_head l ss" for l using ok nl callable_no_crit by (auto elim!: prog_ok_ConsE)
    ultimately show ?thesis using lock_prog [OF kd(5), of "current k" "Some ss"] p by (auto simp: crit_head_def)
  qed
  moreover have "wake_inv (stat k) ((prg k)(current k := Some ss)) (wts k) ((svs k)(s := svs k s - 1))"
    by (rule wake_down [OF kd(2) p False])
  moreover have "progs_ok ((prg k)(current k := Some ss)) (idle_thread k)" using ok' by (intro progs_ok_upd [OF kd(3)]) simp
  ultimately have "kinv ?k"
    unfolding kinv_def base_inv_def core_inv_def v using queue_prog [OF kd(1,6) i] kd(4,6) kinv_rest [OF k] by blast
  moreover have "sema_down k s = Some ?k" using False by (simp add: sema_down_def svs_def)
  ultimately show ?thesis by blast
qed

text \<open>Incrementing a semaphore that is not inside a lock.\<close>

lemma kinv_sema_up:
  assumes k: "kinv k" and s: "\<And>l. s \<noteq> Lock_sema l"
  shows "\<exists>k'. sema_up k s = Some k' \<and> kinv k' \<and> current k' = current k \<and> (\<exists>ws. ready_list k' = ready_list k @ ws)"
proof -
  obtain k' where k': "sema_up k s = Some k'" "running_inv k'" "prg k' = prg k" "holders k' = holders k" "current k' = current k"
    "svs k' = (svs k)(s := (svs k s + 1) mod 4294967296)" "\<exists>ws. ready_list k' = ready_list k @ ws"
    using sema_up_running [of k s] k unfolding kinv_iff by blast
  have "(\<lambda>l. svs k' (Lock_sema l)) = (\<lambda>l. svs k (Lock_sema l))" using s unfolding k'(6) by (auto simp: fun_eq_iff)
  then have "kinv k'" using k k'(2) kinvD(5) [OF k] unfolding kinv_iff k'(3,4) by simp
  then show ?thesis using k' by blast
qed

lemma prog_ok_head:
  assumes k: "kinv k" and p: "prg k (current k) = Some ss" and ss: "ss \<noteq> [Idle]"
  shows "prog_ok (current k) ss" "idle_thread k \<noteq> Some (current k)"
  using kinvD(3) [OF k] p not_idle [OF k p ss] by (simp_all add: progs_ok_def)

text \<open>After the first statement the rest of a program has the shape of a program.\<close>

lemma continue_prog:
  assumes k: "kinv k" and p: "prg k (current k) = Some (st # ss)" and st: "\<And>s. st \<noteq> Sema_down s" "st \<noteq> Idle"
    and ok: "prog_ok (current k) (cs @ ss)"
  shows "running_inv (continue_with k cs)"
proof -
  have i: "idle_thread k \<noteq> Some (current k)" using not_idle [OF k p] st(2) by simp
  show ?thesis
    by (rule running_prog [OF k p _ i ok]) (simp_all add: st(1) kview prg_continue [OF p])
qed

lemma continue_kinv:
  assumes k: "kinv k" and p: "prg k (current k) = Some (st # ss)" and st: "\<And>s. st \<noteq> Sema_down s" "st \<noteq> Idle"
    and ok: "prog_ok (current k) (cs @ ss)" and crit: "\<And>l. \<not> crit_head l (st # ss)" "\<And>l. \<not> crit_head l (cs @ ss)"
  shows "kinv (continue_with k cs)"
proof -
  have i: "idle_thread k \<noteq> Some (current k)" using not_idle [OF k p] st(2) by simp
  show ?thesis
    by (rule kinv_prog [OF k p _ i ok crit]) (simp_all add: st(1) kview prg_continue [OF p])
qed

lemma step_sema_up:
  assumes k: "kinv k" and p: "prg k (current k) = Some (Sema_up s # ss)"
  shows "\<exists>k'. sema_up (continue_with k []) s = Some k' \<and> kinv k'"
proof -
  have ok: "prog_ok (current k) (Sema_up s # ss)" using prog_ok_head [OF k p] by simp
  then have ok': "prog_ok (current k) ([] @ ss)" "\<And>l. \<not> crit_head l ss"
    by (auto elim!: prog_ok_ConsE intro: prog_ok.intros simp: callable_no_crit) (auto simp: crit_head_def)
  show ?thesis
  proof (cases "\<exists>l. s = Lock_sema l")
    case True
    then obtain l where l: "s = Lock_sema l" by blast
    let ?k = "continue_with k []"
    have "running_inv ?k" by (rule continue_prog [OF k p _ _ ok'(1)]) simp_all
    then obtain k' where k': "sema_up ?k s = Some k'" "running_inv k'" "prg k' = prg ?k" "holders k' = holders ?k"
      "svs k' = (svs ?k)(s := (svs ?k s + 1) mod 4294967296)"
      using sema_up_running [of ?k s] by blast
    have "(\<lambda>m. svs k' (Lock_sema m)) = (\<lambda>m. svs k (Lock_sema m))(l := (svs k (Lock_sema l) + 1) mod 4294967296)"
      unfolding k'(5) kview_continue l by (auto simp: fun_eq_iff)
    then have "lock_inv (prg k') (\<lambda>m. svs k' (Lock_sema m)) (holders k')"
      using lock_up [OF kinvD(5) [OF k] p [unfolded l] ok'(2)] unfolding k'(3,4) prg_continue [OF p] kview_continue by simp
    then show ?thesis using k'(1,2) kinv_iff by blast
  next
    case False
    then have "kinv (continue_with k [])"
      using ok' by (intro continue_kinv [OF k p]) (auto simp: crit_head_def)
    then show ?thesis using kinv_sema_up [of "continue_with k []" s] False by auto
  qed
qed

lemma step_set_holder:
  assumes k: "kinv k" and p: "prg k (current k) = Some (Set_holder l # ss)"
  shows "kinv (set_holder (continue_with k []) l (Some (current k)))"
proof -
  have ok: "prog_ok (current k) (Set_holder l # ss)" using prog_ok_head [OF k p] by simp
  then have ok': "prog_ok (current k) ([] @ ss)" "\<And>l. \<not> crit_head l ss"
    by (auto elim!: prog_ok_ConsE intro: prog_ok.intros simp: callable_no_crit)
  let ?k = "set_holder (continue_with k []) l (Some (current k))"
  have "running_inv (continue_with k [])" by (rule continue_prog [OF k p _ _ ok'(1)]) simp_all
  then have "running_inv ?k" by (simp add: running_inv_def core_inv_def set_holder_def kview)
  moreover have "lock_inv (prg ?k) (\<lambda>l. svs ?k (Lock_sema l)) (holders ?k)"
    using lock_hold [OF kinvD(5) [OF k] p ok'(2)] by (simp add: set_holder_def kview prg_continue [OF p])
  ultimately show ?thesis by (simp add: kinv_iff)
qed

lemma step_lock_release:
  assumes k: "kinv k" and p: "prg k (current k) = Some (Lock_release l # ss)" and h: "held_by_current k l"
  shows "kinv (continue_with (set_holder k l None) [Sema_up (Lock_sema l)])"
proof -
  have ok: "prog_ok (current k) (Lock_release l # ss)" using prog_ok_head [OF k p] by simp
  then have ok': "prog_ok (current k) ([Sema_up (Lock_sema l)] @ ss)"
    by (auto elim!: prog_ok_ConsE intro: prog_ok.intros)
  let ?k = "continue_with (set_holder k l None) [Sema_up (Lock_sema l)]"
  have eq: "?k = set_holder (continue_with k [Sema_up (Lock_sema l)]) l None"
    by (simp add: set_holder_def continue_with_def upd_thread_def)
  have "running_inv (continue_with k [Sema_up (Lock_sema l)])" by (rule continue_prog [OF k p _ _ ok']) simp_all
  then have "running_inv ?k" unfolding eq by (simp add: running_inv_def core_inv_def set_holder_def kview)
  moreover have "lock_inv (prg ?k) (\<lambda>l. svs ?k (Lock_sema l)) (holders ?k)"
    using lock_leave [OF kinvD(5) [OF k] p, of l ss] h
    unfolding eq by (simp add: set_holder_def kview prg_continue [OF p] held_by_current_def crit_head_def)
  ultimately show ?thesis by (simp add: kinv_iff)
qed

lemma kinv_try_down:
  assumes k: "kinv k" and s: "\<And>l. s \<noteq> Lock_sema l"
  shows "kinv (snd (sema_try_down k s))"
proof (cases "sval (semas k s) > 0")
  case True
  let ?k = "upd_sema k s (\<lambda>x. x\<lparr>sval := sval x - 1\<rparr>)"
  note kd = kinvD [OF k]
  have sem: "wts ?k = wts k" "svs ?k = (svs k)(s := svs k s - 1)"
    by (simp_all add: wts_def svs_def upd_sema_def fun_eq_iff)
  have "(\<lambda>l. svs ?k (Lock_sema l)) = (\<lambda>l. svs k (Lock_sema l))" using s unfolding sem by (auto simp: fun_eq_iff)
  then have "lock_inv (prg k) (\<lambda>l. svs ?k (Lock_sema l)) (holders k)" using kd(5) by simp
  moreover have "wake_inv (stat k) (prg k) (wts k) (svs ?k)" using wake_less [OF kd(2), of s 1] sem(2) by simp
  ultimately have "kinv ?k"
    unfolding kinv_def base_inv_def core_inv_def sem(1) kview_upd_sema(1,2,5-)
    using kd(1,3,4,6) kinv_rest [OF k] by blast
  then show ?thesis using True by (simp add: sema_try_down_def)
qed (use k in \<open>simp add: sema_try_down_def\<close>)

lemma step_lock_try_acquire:
  assumes k: "kinv k" and p: "prg k (current k) = Some (Lock_try_acquire l # ss)"
  shows "kinv (continue_with (snd (sema_try_down k (Lock_sema l))) (if fst (sema_try_down k (Lock_sema l)) then [Set_holder l] else []))"
proof -
  have ok: "list_all callable ss" using prog_ok_head [OF k p] by (auto elim!: prog_ok_ConsE)
  show ?thesis
  proof (cases "svs k (Lock_sema l) > 0")
    case False
    have "kinv (continue_with k [])"
      using ok by (intro continue_kinv [OF k p]) (auto simp: crit_head_def intro: prog_ok.intros dest: callable_no_crit)
    then show ?thesis using False by (simp add: sema_try_down_def svs_def)
  next
    case True
    let ?u = "upd_sema k (Lock_sema l) (\<lambda>x. x\<lparr>sval := sval x - 1\<rparr>)"
    let ?k = "continue_with ?u [Set_holder l]"
    note kd = kinvD [OF k]
    have sem: "wts ?u = wts k" "svs ?u = (svs k)(Lock_sema l := svs k (Lock_sema l) - 1)"
      by (simp_all add: wts_def svs_def upd_sema_def fun_eq_iff)
    have p': "prg ?u (current ?u) = Some (Lock_try_acquire l # ss)" using p by (simp add: kview)
    have "running_inv (continue_with k [Set_holder l])"
      using ok by (intro continue_prog [OF k p]) (auto intro: prog_ok.intros)
    then have "running_inv ?k"
      unfolding running_inv_def core_inv_def kview_continue sem prg_continue [OF p'] prg_continue [OF p] kview_upd_sema(1,2,5-)
      using wake_less [of _ _ _ "svs k" "Lock_sema l" 1] by blast
    moreover have "(\<lambda>m. svs ?k (Lock_sema m)) = (\<lambda>m. svs k (Lock_sema m))(l := svs k (Lock_sema l) - 1)"
      unfolding kview_continue sem by (auto simp: fun_eq_iff)
    then have "lock_inv (prg ?k) (\<lambda>m. svs ?k (Lock_sema m)) (holders ?k)"
      using lock_down [OF kd(5) p, of l ss] True
      unfolding prg_continue [OF p'] kview_continue(5) kview_upd_sema by (simp add: crit_head_def)
    ultimately show ?thesis using True by (simp add: kinv_iff sema_try_down_def svs_def)
  qed
qed

text \<open>Creating a thread on a page that is not in use.\<close>

lemma thread_create_kinv:
  assumes k: "kinv k" and pg: "fresh_page k pg" and body: "list_all callable body"
    and r: "thread_create k pg priority body = Some (i, k')"
  shows "kinv k' \<and> current k' = current k"
proof (cases pg)
  case None
  then show ?thesis using r k by (simp add: thread_create_def)
next
  case (Some t)
  note kd = kinvD [OF k]
  have t: "threads k t = None" using pg Some by (simp add: fresh_page_def)
  then have st: "stat k t = None" "prg k t = None" by (simp_all add: stat_None)
  let ?new = "\<lparr>tid = next_tid k, status = THREAD_READY, wakeup_time = 0, prog = body\<rparr>"
  have k': "k' = k\<lparr>threads := (threads k)(t \<mapsto> ?new), all_list := all_list k @ [t], next_tid := next_tid k + 1, ready_list := ready_list k @ [t]\<rparr>"
    using r Some by (auto simp: thread_create_def init_thread_def allocate_tid_def thread_unblock_def upd_thread_def)
  have v: "stat k' = (stat k)(t := Some THREAD_READY)" "prg k' = (prg k)(t := Some body)" "wts k' = wts k" "svs k' = svs k"
    "ready_list k' = ready_list k @ [t]" "idle_thread k' = idle_thread k" "all_list k' = all_list k @ [t]"
    "initial_thread k' = initial_thread k" "current k' = current k" "holders k' = holders k"
    unfolding k' by (auto simp: stat_def prg_def wts_def svs_def fun_eq_iff)
  have "queue_inv ((stat k)(t := Some THREAD_READY)) ((prg k)(t := Some body)) (ready_list k @ [t]) (wts k) (idle_thread k)"
    by (rule queue_create [OF kd(1) st(1)])
  moreover have "wake_inv ((stat k)(t := Some THREAD_READY)) ((prg k)(t := Some body)) (wts k) (svs k)"
    using st(2) by (intro wake_other [OF kd(2)]) simp
  moreover have "progs_ok ((prg k)(t := Some body)) (idle_thread k)"
    using body by (intro progs_ok_upd [OF kd(3)]) (auto intro: prog_ok.intros)
  moreover have "live_inv ((stat k)(t := Some THREAD_READY)) (all_list k @ [t])" using kd(4) st by (auto simp: live_inv_def)
  moreover have "lock_inv ((prg k)(t := Some body)) (\<lambda>l. svs k (Lock_sema l)) (holders k)"
    using st(2) callable_no_crit [OF body] by (intro lock_prog [OF kd(5)]) auto
  moreover have "((stat k)(t := Some THREAD_READY)) (current k) = Some THREAD_RUNNING" using kd(6) st by auto
  moreover have "\<forall>u. ((stat k)(t := Some THREAD_READY)) u = Some THREAD_RUNNING \<longrightarrow> u = current k"
    "\<forall>u. ((stat k)(t := Some THREAD_READY)) u = Some THREAD_DYING \<longrightarrow> u = initial_thread k"
    using kinv_rest [OF k] by simp_all
  ultimately show ?thesis unfolding kinv_def base_inv_def core_inv_def v by blast
qed

text \<open>Initialising a semaphore of the running thread.\<close>

lemma sema_init_kinv:
  assumes k: "kinv k" and s: "s = Timer_sema (current k) \<or> s = Waiter_sema (current k)"
  shows "kinv (sema_init k s v)"
proof -
  note kd = kinvD [OF k]
  have sem: "wts (sema_init k s v) = wts k" "svs (sema_init k s v) = (svs k)(s := v)"
    using own_semas [OF k s] by (simp_all add: sema_init_def wts_def svs_def upd_sema_def fun_eq_iff)
  have "(\<lambda>l. svs (sema_init k s v) (Lock_sema l)) = (\<lambda>l. svs k (Lock_sema l))" using s unfolding sem by (auto simp: fun_eq_iff)
  then have "lock_inv (prg k) (\<lambda>l. svs (sema_init k s v) (Lock_sema l)) (holders k)" using kd(5) by simp
  moreover have "wake_inv (stat k) (prg k) (wts k) (svs (sema_init k s v))"
    unfolding sem by (rule wake_empty [OF kd(2) own_semas [OF k s]])
  moreover have fld: "stat (sema_init k s v) = stat k" "prg (sema_init k s v) = prg k" "ready_list (sema_init k s v) = ready_list k"
    "holders (sema_init k s v) = holders k" "idle_thread (sema_init k s v) = idle_thread k" "current (sema_init k s v) = current k"
    "all_list (sema_init k s v) = all_list k" "initial_thread (sema_init k s v) = initial_thread k"
    by (simp_all add: sema_init_def kview)
  ultimately show ?thesis
    unfolding kinv_def base_inv_def core_inv_def sem(1) fld
    using kd(1,3,4,6) kinv_rest [OF k] by blast
qed

text \<open>Fields the invariant does not depend on.\<close>

lemma kinv_fields:
  "kinv (k\<lparr>wait_list := r\<rparr>) = kinv k" "kinv (k\<lparr>conds := cs\<rparr>) = kinv k" "kinv (k\<lparr>ticks := i\<rparr>) = kinv k"
  "kinv (k\<lparr>thread_ticks := n\<rparr>) = kinv k"
  by (simp_all add: kinv_def base_inv_def core_inv_def kview)

lemma step_cond_wait:
  assumes k: "kinv k" and p: "prg k (current k) = Some (Cond_wait c l # ss)"
  shows "kinv (continue_with ((sema_init k (Waiter_sema (current k)) 0)\<lparr>conds := (conds k)(c := conds k c @ [current k])\<rparr>)
    [Lock_release l, Sema_down (Waiter_sema (current k)), Lock_acquire l])"
proof -
  let ?u = "(sema_init k (Waiter_sema (current k)) 0)\<lparr>conds := (conds k)(c := conds k c @ [current k])\<rparr>"
  have cs: "list_all callable ss" using prog_ok_head [OF k p] by (auto elim!: prog_ok_ConsE)
  have u: "kinv ?u" unfolding kinv_fields by (rule sema_init_kinv [OF k]) simp
  have v: "prg ?u = prg k" "current ?u = current k" by (simp_all add: sema_init_def kview)
  have "kinv (continue_with ?u [Lock_release l, Sema_down (Waiter_sema (current k)), Lock_acquire l])"
    using p cs by (intro continue_kinv [OF u, of "Cond_wait c l" ss]) (auto simp: v crit_head_def intro: prog_ok.intros)
  then show ?thesis .
qed

lemma step_cond_signal:
  assumes k: "kinv k" and p: "prg k (current k) = Some (Cond_signal c l # ss)"
  shows "kinv (continue_with k [])" "\<exists>k'. sema_up (continue_with (k\<lparr>conds := cs\<rparr>) []) (Waiter_sema t) = Some k' \<and> kinv k'"
proof -
  have cs: "list_all callable ss" using prog_ok_head [OF k p] by (auto elim!: prog_ok_ConsE)
  have *: "kinv (continue_with k' [])" if "kinv k'" "prg k' (current k') = Some (Cond_signal c l # ss)" for k'
    using cs by (intro continue_kinv [OF that]) (auto simp: crit_head_def intro: prog_ok.intros dest: callable_no_crit)
  show "kinv (continue_with k [])" by (rule * [OF k p])
  have "kinv (continue_with (k\<lparr>conds := cs\<rparr>) [])" using k p by (intro *) (simp_all add: kinv_fields kview)
  then show "\<exists>k'. sema_up (continue_with (k\<lparr>conds := cs\<rparr>) []) (Waiter_sema t) = Some k' \<and> kinv k'"
    using kinv_sema_up [of "continue_with (k\<lparr>conds := cs\<rparr>) []" "Waiter_sema t"] by auto
qed

lemma step_thread_sleep:
  assumes k: "kinv k" and p: "prg k (current k) = Some (Thread_sleep n # ss)"
  shows "kinv (continue_with (upd_thread k (current k) (\<lambda>t. t\<lparr>wakeup_time := w\<rparr>))
     [Insert_wait, Sema_init (Timer_sema (current k)) 0, Sema_down (Timer_sema (current k))])"
proof -
  let ?u = "upd_thread k (current k) (\<lambda>t. t\<lparr>wakeup_time := w\<rparr>)"
  have cs: "list_all callable ss" using prog_ok_head [OF k p] by (auto elim!: prog_ok_ConsE)
  have v: "stat ?u = stat k" "prg ?u = prg k" by (auto simp: kview fun_eq_iff stat_def prg_def)
  have pu: "prg ?u (current ?u) = Some (Thread_sleep n # ss)" unfolding v kview_upd_thread(8) by (rule p)
  have u: "kinv ?u"
    using k unfolding kinv_def base_inv_def core_inv_def v kview_upd_thread(3-) .
  have "kinv (continue_with ?u [Insert_wait, Sema_init (Timer_sema (current k)) 0, Sema_down (Timer_sema (current k))])"
    using cs by (intro continue_kinv [OF u pu]) (auto simp: kview_upd_thread(8) crit_head_def intro: prog_ok.intros)
  then show ?thesis .
qed

text \<open>Statements that only continue with the statements they consist of.\<close>

lemma step_continue:
  assumes k: "kinv k" and p: "prg k (current k) = Some (st # ss)"
    and st: "callable st" "\<And>s. st \<noteq> Sema_down s" "\<And>m. st \<noteq> Lock_release m"
    and ok: "\<And>t. list_all callable ss \<Longrightarrow> prog_ok t (cs @ ss)" and crit: "\<And>l. list_all callable ss \<Longrightarrow> \<not> crit_head l (cs @ ss)"
  shows "kinv (continue_with k cs)"
proof -
  have "st \<noteq> Idle" using st(1) by auto
  then have "list_all callable ss" using prog_ok_head [OF k p] st(1,3) by (auto elim!: prog_ok_ConsE)
  then show ?thesis
    using st \<open>st \<noteq> Idle\<close> ok crit by (intro continue_kinv [OF k p]) (auto simp: crit_head_def)
qed

lemma step_thread_create:
  assumes k: "kinv k" and p: "prg k (current k) = Some (Thread_create priority body # ss)" and pg: "fresh_page k pg"
    and r: "map_option snd (thread_create (continue_with k []) pg priority body) = Some k'"
  shows "kinv k'"
proof -
  have cs: "list_all callable ss" "list_all callable body" using prog_ok_head [OF k p] by (auto elim!: prog_ok_ConsE)
  have "kinv (continue_with k [])"
    using cs by (intro step_continue [OF k p]) (auto intro: prog_ok.intros dest: callable_no_crit simp: crit_head_def)
  moreover have "fresh_page (continue_with k []) pg"
    using pg by (auto simp: fresh_page_def continue_with_def upd_thread_def split: option.splits)
  ultimately show ?thesis using r thread_create_kinv [OF _ _ cs(2), of _ pg priority] by auto
qed

lemma exec_kinv:
  assumes k: "kinv k" and p: "prg k (current k) = Some (st # ss)" and pg: "fresh_page k pg" and e: "exec pg st k = Some k'"
  shows "kinv k'"
proof (cases "idle_thread k = Some (current k)")
  case True
  then have "st = Idle" using queue_invD(8) [OF kinvD(1) [OF k]] p by auto
  then show ?thesis using e idle_block_kinv [OF k True] by auto
next
  case False
  then have ok: "prog_ok (current k) (st # ss)" using kinvD(3) [OF k] p by (simp add: progs_ok_def)
  note cont = step_continue [OF k p]
  have shapes: "\<And>t cs. list_all callable cs \<Longrightarrow> prog_ok t cs" by (rule prog_ok.calls)
  show ?thesis
  proof (cases st)
    case (Sema_init s v)
    then obtain cs where cs: "s = Timer_sema (current k)" "ss = Sema_down s # cs" "list_all callable cs"
      using ok by (auto elim!: prog_ok_ConsE)
    then have "kinv (continue_with k [])"
      using Sema_init by (intro continue_kinv [OF k p]) (auto intro: prog_ok.intros simp: crit_head_def)
    then show ?thesis using e Sema_init sema_init_kinv [of "continue_with k []" s v] cs(1) by (simp add: kview)
  next
    case (Sema_down s)
    then show ?thesis using e step_sema_down [OF k, of s ss] p by auto
  next
    case (Sema_up s)
    then show ?thesis using e step_sema_up [OF k, of s ss] p by auto
  next
    case (Sema_try_down s)
    have "kinv (continue_with k [])"
      using ok Sema_try_down by (intro continue_kinv [OF k p]) (auto elim!: prog_ok_ConsE intro: shapes simp: crit_head_def dest: callable_no_crit)
    moreover have "\<And>l. s \<noteq> Lock_sema l" using ok Sema_try_down by (auto elim!: prog_ok_ConsE)
    ultimately show ?thesis using e Sema_try_down kinv_try_down [of "continue_with k []" s] by auto
  next
    case (Lock_acquire l)
    have "kinv (continue_with k [Sema_down (Lock_sema l), Set_holder l])"
      using Lock_acquire by (intro cont) (auto intro: prog_ok.intros simp: crit_head_def)
    then show ?thesis using e Lock_acquire by simp
  next
    case (Lock_try_acquire l)
    then show ?thesis using e step_lock_try_acquire [OF k, of l ss] p by (auto simp: split_beta Let_def)
  next
    case (Set_holder l)
    then show ?thesis using e step_set_holder [OF k, of l ss] p by auto
  next
    case (Lock_release l)
    then show ?thesis using e step_lock_release [OF k, of l ss] p by auto
  next
    case (Cond_wait c l)
    then show ?thesis using e step_cond_wait [OF k, of c l ss] p by (auto simp: Let_def)
  next
    case (Cond_signal c l)
    then have p': "prg k (current k) = Some (Cond_signal c l # ss)" using p by simp
    show ?thesis
    proof (cases "conds k c")
      case Nil
      then show ?thesis using e Cond_signal step_cond_signal(1) [OF k p'] by auto
    next
      case (Cons t ts)
      then show ?thesis using e Cond_signal step_cond_signal(2) [OF k p', of "(conds k)(c := ts)" t] by auto
    qed
  next
    case (Cond_broadcast c l)
    have "kinv (continue_with k (if conds k c \<noteq> [] then [Cond_signal c l, Cond_broadcast c l] else []))"
      using Cond_broadcast by (intro cont) (auto intro!: shapes simp: crit_head_def dest: callable_no_crit)
    then show ?thesis using e Cond_broadcast by simp
  next
    case (Thread_create priority body)
    then show ?thesis using e step_thread_create [OF k _ pg, of priority body ss] p by simp
  next
    case Thread_yield
    have "kinv (continue_with k [])"
      using Thread_yield by (intro cont) (auto intro!: shapes simp: crit_head_def dest: callable_no_crit)
    then show ?thesis using e Thread_yield yield_kinv [of "continue_with k []"] by auto
  next
    case Thread_exit
    then show ?thesis using e exit_kinv [OF k, of ss] p by auto
  next
    case (Thread_sleep n)
    then show ?thesis using e step_thread_sleep [OF k, of n ss] p by auto
  next
    case Insert_wait
    have "kinv (continue_with k [])"
      using ok Insert_wait by (intro continue_kinv [OF k p]) (auto elim!: prog_ok_ConsE intro: prog_ok.intros simp: crit_head_def)
    then show ?thesis using e Insert_wait by (auto simp: insert_wait_def kinv_fields)
  qed (use ok in \<open>auto elim!: prog_ok_ConsE\<close>)
qed

section \<open>Interrupts\<close>

lemma wake_helper_kinv:
  assumes "kinv k"
  shows "\<exists>k'. thread_wake_routine_helper k t = Some k' \<and> kinv k' \<and> current k' = current k \<and> (\<exists>ws. ready_list k' = ready_list k @ ws)"
proof (cases "ticks k > wake_time k t")
  case True
  then show ?thesis
    using kinv_sema_up [of "k\<lparr>wait_list := remove1 t (wait_list k)\<rparr>" "Timer_sema t"] assms
    by (simp add: thread_wake_routine_helper_def kinv_fields)
qed (use assms in \<open>auto simp: thread_wake_routine_helper_def\<close>)

lemma foreach_wait_kinv:
  "kinv k \<Longrightarrow> \<exists>k'. thread_foreach_wait thread_wake_routine_helper ts k = Some k' \<and> kinv k' \<and> current k' = current k
    \<and> (\<exists>ws. ready_list k' = ready_list k @ ws)"
proof (induction ts arbitrary: k)
  case (Cons t ts)
  obtain k1 where k1: "thread_wake_routine_helper k t = Some k1" "kinv k1" "current k1 = current k" "\<exists>ws. ready_list k1 = ready_list k @ ws"
    using wake_helper_kinv [OF Cons.prems] by blast
  then show ?case using Cons.IH [OF k1(2)] by auto
qed simp

text \<open>The timer interrupt never fails.\<close>

lemma timer_interrupt_kinv:
  assumes k: "kinv k"
  shows "\<exists>k'. timer_interrupt k = Some k' \<and> kinv k'"
proof -
  let ?k = "k\<lparr>ticks := ticks k + 1, thread_ticks := thread_ticks k + 1\<rparr>"
  have "kinv ?k" using k by (simp add: kinv_fields)
  then obtain k1 where k1: "thread_wake_routine ?k = Some k1" "kinv k1"
    using foreach_wait_kinv [of ?k "wait_list ?k"] by (auto simp: thread_wake_routine_def)
  then show ?thesis
    using yield_kinv [OF k1(2)] by (auto simp: timer_interrupt_def thread_tick_def Let_def)
qed

lemma step_kinv: "step k k' \<Longrightarrow> kinv k \<Longrightarrow> kinv k'"
proof (induction rule: step.induct)
  case (run k st ss pg k')
  then show ?case using exec_kinv [OF run.prems cur_prog_prg [OF run.hyps(1)]] by blast
next
  case (call k st)
  let ?k = "upd_thread k (current k) (\<lambda>t. t\<lparr>prog := [st]\<rparr>)"
  obtain c where c: "threads k (current k) = Some c" using thread_current_kinv [OF call.prems] by blast
  then have p: "prg k (current k) = Some []" using call.hyps(1) by (simp add: cur_prog_def prg_def)
  have v: "stat ?k = stat k" "prg ?k = (prg k)(current k := Some [st])" unfolding kview_prog using c by simp_all
  show ?case
    using p call.hyps(2) callable_no_crit [of "[st]"] not_idle [OF call.prems p]
    by (intro kinv_prog [OF call.prems p]) (auto simp: v kview_upd_thread(3-) crit_head_def intro: prog_ok.intros)
next
  case (tick k k')
  then show ?case using timer_interrupt_kinv by fastforce
qed

end
