(* ===== verification/Threads_Props.thy ===== *)
theory Threads_Props
  imports Threads_Steps
begin

text \<open>
  What the invariant says of every reachable state of the kernel, the order in which threads are
  dispatched, and the race of \<^verbatim>\<open>thread_sleep\<close> with the timer.
\<close>

section \<open>Reachable states\<close>

text \<open>The states reached from the one \<^verbatim>\<open>thread_start\<close> returns in, with any calls and interrupts.\<close>

inductive reachable :: "nat \<Rightarrow> nat \<Rightarrow> kernel \<Rightarrow> bool" for main idle where
  boot: "thread_start (thread_init main) idle = Some k \<Longrightarrow> reachable main idle k"
| more: "reachable main idle k \<Longrightarrow> step k k' \<Longrightarrow> reachable main idle k'"

definition booted :: "nat \<Rightarrow> nat \<Rightarrow> kernel" where
  "booted main idle =
     \<lparr>threads = [main \<mapsto> \<lparr>tid = 1, status = THREAD_RUNNING, wakeup_time = 0, prog = []\<rparr>,
                 idle \<mapsto> \<lparr>tid = 2, status = THREAD_BLOCKED, wakeup_time = 0, prog = [Idle]\<rparr>],
      ready_list = [], all_list = [main, idle], wait_list = [], idle_thread = Some idle, initial_thread = main,
      current = main, semas = (\<lambda>s. case s of Lock_sema l \<Rightarrow> \<lparr>sval = 1, waiters = []\<rparr> | _ \<Rightarrow> \<lparr>sval = 0, waiters = []\<rparr>),
      holders = (\<lambda>_. None), conds = (\<lambda>_. []), ticks = 0, thread_ticks = 0, next_tid = 3\<rparr>"

lemma thread_start_booted:
  assumes "main \<noteq> idle"
  shows "thread_start (thread_init main) idle = Some (booted main idle)"
  using assms
  by (simp add: thread_start_def thread_init_def booted_def sema_init_def upd_sema_def thread_create_def init_thread_def
      PRI_MIN_def PRI_MAX_def allocate_tid_def upd_thread_def thread_unblock_def sema_down_def thread_block_def
      thread_current_def schedule_def next_thread_to_run_def thread_schedule_tail_def Let_def continue_with_def sema_up_def fun_eq_iff split: sema_ref.split)

lemma booted_kinv:
  assumes "main \<noteq> idle"
  shows "kinv (booted main idle)"
proof -
  let ?k = "booted main idle"
  have st: "stat ?k = [main \<mapsto> THREAD_RUNNING, idle \<mapsto> THREAD_BLOCKED]" and pr: "prg ?k = [main \<mapsto> [], idle \<mapsto> [Idle]]"
    and wt: "wts ?k = (\<lambda>s. [])" and sv: "(\<lambda>l. svs ?k (Lock_sema l)) = (\<lambda>l. 1)"
    using assms by (auto simp: stat_def prg_def wts_def svs_def booted_def fun_eq_iff split: sema_ref.split)
  have "queue_inv (stat ?k) (prg ?k) [] (wts ?k) (Some idle)"
    unfolding st pr wt using assms by (intro queue_invI) (auto split: if_splits)
  moreover have "{t. (stat ?k) t \<noteq> None} \<subseteq> {main, idle}" unfolding st by (auto split: if_splits)
  then have "wake_inv (stat ?k) (prg ?k) (wts ?k) (svs ?k)"
    unfolding wake_inv_def wt by (auto intro: finite_subset)
  moreover have "progs_ok (prg ?k) (Some idle)"
    unfolding progs_ok_def pr by (auto intro: prog_ok.intros split: if_splits)
  moreover have "live_inv (stat ?k) [main, idle]" using assms unfolding live_inv_def st by auto
  moreover have "lock_inv (prg ?k) (\<lambda>l. svs ?k (Lock_sema l)) (holders ?k)"
    unfolding lock_inv_def sv pr by (auto simp: in_crit_def crit_head_def booted_def split: if_splits)
  moreover have "\<forall>t. stat ?k t = Some THREAD_RUNNING \<longrightarrow> t = main" "\<forall>t. stat ?k t \<noteq> Some THREAD_DYING" "stat ?k main = Some THREAD_RUNNING"
    unfolding st using assms by auto
  ultimately show ?thesis unfolding kinv_def base_inv_def core_inv_def by (simp add: booted_def)
qed

lemma reachable_kinv:
  assumes "reachable main idle k" and "main \<noteq> idle"
  shows "kinv k"
  using assms
proof (induction rule: reachable.induct)
  case (boot k)
  then show ?case using thread_start_booted booted_kinv by (metis option.inject)
next
  case (more k k')
  then show ?case using step_kinv by blast
qed

section \<open>The order of dispatching\<close>

text \<open>A step appends to the ready list and may then dispatch its first thread.\<close>

definition advances :: "kernel \<Rightarrow> kernel \<Rightarrow> bool" where
  "advances k k' \<longleftrightarrow> (\<exists>ws. current k' = current k \<and> ready_list k' = ready_list k @ ws
     \<or> ready_list k @ ws = current k' # ready_list k' \<or> ready_list k @ ws = [] \<and> ready_list k' = [])"

lemma advances_same: "current k' = current k \<Longrightarrow> ready_list k' = ready_list k @ ws \<Longrightarrow> advances k k'"
  by (auto simp: advances_def)

lemma schedule_ready:
  assumes "schedule k = Some k'"
  shows "ready_list k = [] \<and> ready_list k' = [] \<or> ready_list k = current k' # ready_list k'"
proof -
  obtain c nxt k1 where k1: "next_thread_to_run k = Some (nxt, k1)"
    and t: "thread_schedule_tail (k1\<lparr>current := nxt\<rparr>) (if current k1 \<noteq> nxt then Some (current k1) else None) = Some k'"
    using assms by (auto simp: schedule_def split: Option.bind_splits prod.splits)
  have "ready_list k' = ready_list k1 \<and> current k' = nxt"
    using t by (auto simp: thread_schedule_tail_def Let_def upd_thread_def split: option.splits if_splits)
  then show ?thesis using k1 by (auto simp: next_thread_to_run_def split: list.splits Option.bind_splits)
qed

lemma schedule_advances:
  assumes "schedule k1 = Some k'" and "ready_list k1 = ready_list k @ ws"
  shows "advances k k'"
  using schedule_ready [OF assms(1)] assms(2) by (auto simp: advances_def intro: exI [of _ ws])

lemma block_advances: "thread_block k1 = Some k' \<Longrightarrow> ready_list k1 = ready_list k \<Longrightarrow> advances k k'"
  by (auto simp: thread_block_def kview_upd_thread split: Option.bind_splits intro!: schedule_advances [where ws = "[]"])

lemma yield_advances:
  assumes "thread_yield k1 = Some k'" and "ready_list k1 = ready_list k @ ws"
  shows "advances k k'"
proof -
  let ?r = "if idle_thread k1 \<noteq> Some (current k1) then ready_list k1 @ [current k1] else ready_list k1"
  have "schedule ((upd_thread k1 (current k1) (\<lambda>t. t\<lparr>status := THREAD_READY\<rparr>))\<lparr>ready_list := ?r\<rparr>) = Some k'"
    using assms(1) by (auto simp: thread_yield_def Let_def split: Option.bind_splits)
  then show ?thesis
    by (rule schedule_advances [where ws = "if idle_thread k1 \<noteq> Some (current k1) then ws @ [current k1] else ws"])
      (simp add: assms(2))
qed

lemma exit_advances: "thread_exit k1 = Some k' \<Longrightarrow> ready_list k1 = ready_list k \<Longrightarrow> advances k k'"
  by (auto simp: thread_exit_def kview_upd_thread split: Option.bind_splits intro!: schedule_advances [where ws = "[]"])

lemma sema_up_ready: "sema_up k s = Some k' \<Longrightarrow> current k' = current k \<and> (\<exists>ws. ready_list k' = ready_list k @ ws)"
  by (auto simp: sema_up_def thread_unblock_def kview_upd_sema kview_upd_thread upd_sema_def upd_thread_def
      split: list.splits Option.bind_splits)

lemma sema_up_advances:
  assumes "sema_up k1 s = Some k'" and "current k1 = current k" "ready_list k1 = ready_list k"
  shows "advances k k'"
  using sema_up_ready [OF assms(1)] assms(2,3) by (auto intro: advances_same)

lemma exec_advances:
  assumes "exec pg st k = Some k'"
  shows "advances k k'"
proof (cases st)
  case (Sema_down s)
  then show ?thesis
    using assms block_advances [of "upd_sema k s (\<lambda>x. x\<lparr>waiters := waiters x @ [current k]\<rparr>)" k' k]
    by (auto simp: sema_down_def kview split: if_splits intro: advances_same [of _ _ "[]"])
next
  case (Sema_up s)
  then show ?thesis using assms sema_up_advances [of "continue_with k []" s k' k] by (simp add: kview)
next
  case (Sema_try_down s)
  then show ?thesis
    using assms by (auto simp: sema_try_down_def kview intro!: advances_same [of _ _ "[]"])
next
  case (Lock_try_acquire l)
  then show ?thesis
    using assms by (auto simp: sema_try_down_def Let_def kview split: if_splits intro!: advances_same [of _ _ "[]"])
next
  case (Cond_signal c l)
  then show ?thesis
    using assms sema_up_advances [of "continue_with (k\<lparr>conds := cs\<rparr>) []" "Waiter_sema t" k' k for cs t]
    by (auto simp: kview split: list.splits intro: advances_same [of _ _ "[]"])
next
  case (Thread_create priority body)
  then show ?thesis
    using assms
    by (auto simp: thread_create_def init_thread_def allocate_tid_def thread_unblock_def upd_thread_def kview
        split: option.splits Option.bind_splits intro: advances_same [of _ _ "[]"] advances_same [of _ _ "[t]" for t])
next
  case Thread_yield
  then show ?thesis using assms yield_advances [of "continue_with k []" k' k "[]"] by (simp add: kview)
next
  case Thread_exit
  then show ?thesis using assms exit_advances [of k k' k] by simp
next
  case Idle
  then show ?thesis using assms block_advances [of k k' k] by simp
qed (use assms in \<open>auto simp: kview sema_init_def set_holder_def insert_wait_def Let_def intro!: advances_same [of _ _ "[]"]\<close>)

lemma wake_helper_ready:
  "thread_wake_routine_helper k t = Some k' \<Longrightarrow> current k' = current k \<and> (\<exists>ws. ready_list k' = ready_list k @ ws)"
  using sema_up_ready [of "k\<lparr>wait_list := remove1 t (wait_list k)\<rparr>" "Timer_sema t" k']
  by (auto simp: thread_wake_routine_helper_def split: if_splits)

lemma foreach_wait_ready:
  "thread_foreach_wait thread_wake_routine_helper ts k = Some k' \<Longrightarrow> current k' = current k \<and> (\<exists>ws. ready_list k' = ready_list k @ ws)"
proof (induction ts arbitrary: k)
  case (Cons t ts)
  then obtain k1 where "thread_wake_routine_helper k t = Some k1" "thread_foreach_wait thread_wake_routine_helper ts k1 = Some k'"
    by (auto split: Option.bind_splits)
  then show ?case using Cons.IH [of k1] wake_helper_ready [of k t k1] by auto
qed auto

lemma step_advances: "step k k' \<Longrightarrow> advances k k'"
proof (induction rule: step.induct)
  case (tick k k')
  let ?k = "k\<lparr>ticks := ticks k + 1, thread_ticks := thread_ticks k + 1\<rparr>"
  obtain k1 where k1: "thread_wake_routine ?k = Some k1" "(if thread_ticks k + 1 \<ge> TIME_SLICE then thread_yield k1 else Some k1) = Some k'"
    using tick by (auto simp: timer_interrupt_def thread_tick_def Let_def split: Option.bind_splits)
  obtain ws where ws: "current k1 = current k" "ready_list k1 = ready_list k @ ws"
    using foreach_wait_ready [of "wait_list ?k" ?k k1] k1(1) by (auto simp: thread_wake_routine_def)
  then show ?case using k1(2) yield_advances [of k1 k' k ws] by (auto split: if_splits intro: advances_same)
qed (auto intro: exec_advances advances_same [of _ _ "[]"] simp: kview)

text \<open>An execution with the threads that were dispatched in it, in order.\<close>

inductive dispatches :: "kernel \<Rightarrow> nat list \<Rightarrow> kernel \<Rightarrow> bool" where
  start: "dispatches k [] k"
| stay: "dispatches k ds k' \<Longrightarrow> step k' k'' \<Longrightarrow> current k'' = current k' \<Longrightarrow> dispatches k ds k''"
| switch: "dispatches k ds k' \<Longrightarrow> step k' k'' \<Longrightarrow> current k'' \<noteq> current k' \<Longrightarrow> dispatches k (ds @ [current k'']) k''"

lemma current_not_ready: "kinv k \<Longrightarrow> current k \<notin> set (ready_list k)"
  using queue_invD(2) [OF kinvD(1)] kinvD(6) by fastforce

text \<open>The threads dispatched so far, followed by the ready list, extend the ready list at the start.\<close>

lemma dispatches_fifo:
  assumes "dispatches k ds k'" and "kinv k"
  shows "kinv k' \<and> (length ds \<le> length (ready_list k) \<longrightarrow> (\<exists>ws. ds @ ready_list k' = ready_list k @ ws))
    \<and> take (length (ready_list k)) ds = take (length ds) (ready_list k)"
  using assms
proof (induction rule: dispatches.induct)
  case (start k)
  then show ?case by auto
next
  case (stay k ds k' k'')
  have k': "kinv k'" using stay by blast
  have "\<exists>ws. ready_list k'' = ready_list k' @ ws"
    using step_advances [OF stay.hyps(2)] stay.hyps(3) current_not_ready [OF k']
    unfolding advances_def by (cases "ready_list k'") auto
  then show ?case using stay.IH [OF stay.prems] step_kinv [OF stay.hyps(2) k'] by (metis append.assoc)
next
  case (switch k ds k' k'')
  have k': "kinv k'" using switch by blast
  have IH: "length ds \<le> length (ready_list k) \<Longrightarrow> \<exists>ws. ds @ ready_list k' = ready_list k @ ws"
    "take (length (ready_list k)) ds = take (length ds) (ready_list k)"
    using switch.IH [OF switch.prems] by auto
  have adv: "\<exists>ws. ready_list k' @ ws = current k'' # ready_list k''" if "ready_list k' \<noteq> []"
    using step_advances [OF switch.hyps(2)] switch.hyps(3) that unfolding advances_def by auto
  show ?case
  proof (cases "length ds < length (ready_list k)")
    case False
    then show ?thesis using IH step_kinv [OF switch.hyps(2) k'] by auto
  next
    case True
    then obtain ws where ws: "ds @ ready_list k' = ready_list k @ ws" using IH(1) by auto
    then have "ready_list k' \<noteq> []" using True by (metis append_Nil2 length_append less_not_refl trans_less_add1)
    then obtain vs where "ready_list k' @ vs = current k'' # ready_list k''" using adv by blast
    then have ext: "(ds @ [current k'']) @ ready_list k'' = ready_list k @ (ws @ vs)"
      using ws by (metis append.assoc append_Cons append_Nil)
    then have "take (length (ds @ [current k''])) (ready_list k) = ds @ [current k'']"
      using True by (metis append_eq_conv_conj length_append_singleton not_less_eq Suc_leI take_append append_Nil2 diff_is_0_eq take_0 le_eq_less_or_eq)
    then show ?thesis using ext True step_kinv [OF switch.hyps(2) k'] by auto
  qed
qed

section \<open>Sleeping threads\<close>

interpretation wake: list_less "wake_time_compare k" for k
  by unfold_locales (auto simp: wake_time_compare_def)

text \<open>The list of sleeping threads stays sorted by the time to wake up.\<close>

lemma insert_wait_sorted:
  assumes "sorted_wrt (\<lambda>a b. wake_time k a \<le> wake_time k b) (wait_list k)"
  shows "sorted_wrt (\<lambda>a b. wake_time (insert_wait k) a \<le> wake_time (insert_wait k) b) (wait_list (insert_wait k))"
proof -
  have "wake_time (insert_wait k) = wake_time k" by (simp add: insert_wait_def wake_time_def fun_eq_iff)
  moreover have "sorted_wrt (\<lambda>a b. \<not> wake_time_compare k b a) (wait_list k)"
    using assms by (simp add: wake_time_compare_def not_less)
  ultimately show ?thesis using wake.insert_sorted [of k "wait_list k" "current k"] by (simp add: insert_wait_def wake_time_compare_def not_less)
qed

section \<open>Progress\<close>

text \<open>The calls that fail an assertion: wrong use of a lock, or a bad priority.\<close>

definition misuse :: "kernel \<Rightarrow> stmt \<Rightarrow> bool" where
  "misuse k st \<longleftrightarrow> (\<exists>l. st \<in> {Lock_acquire l, Lock_try_acquire l} \<and> held_by_current k l)
     \<or> (\<exists>c l. st \<in> {Lock_release l, Cond_wait c l, Cond_signal c l} \<and> \<not> held_by_current k l)
     \<or> (\<exists>p body. st = Thread_create p body \<and> \<not> (PRI_MIN \<le> p \<and> p \<le> PRI_MAX))"

lemma exec_progress:
  assumes k: "kinv k" and p: "prg k (current k) = Some (st # ss)" and pg: "fresh_page k pg" and m: "\<not> misuse k st"
  shows "\<exists>k'. exec pg st k = Some k'"
proof (cases "idle_thread k = Some (current k)")
  case True
  then have "st = Idle" using queue_invD(8) [OF kinvD(1) [OF k]] p by auto
  then show ?thesis using idle_block_kinv [OF k True] by auto
next
  case False
  then have ok: "prog_ok (current k) (st # ss)" using kinvD(3) [OF k] p by (simp add: progs_ok_def)
  show ?thesis
  proof (cases st)
    case (Sema_down s)
    then show ?thesis using step_sema_down [OF k, of s ss] p by auto
  next
    case (Sema_up s)
    then show ?thesis using step_sema_up [OF k, of s ss] p by auto
  next
    case (Cond_signal c l)
    then have p': "prg k (current k) = Some (Cond_signal c l # ss)" using p by simp
    show ?thesis
      using m Cond_signal step_cond_signal(2) [OF k p'] by (auto simp: misuse_def split: list.split)
  next
    case (Thread_create priority body)
    then show ?thesis
      using m pg by (auto simp: misuse_def thread_create_def init_thread_def allocate_tid_def thread_unblock_def upd_thread_def split: option.split)
  next
    case Thread_yield
    have "kinv (continue_with k [])"
      using Thread_yield by (intro step_continue [OF k p]) (auto intro!: prog_ok.calls simp: crit_head_def dest: callable_no_crit)
    then show ?thesis using Thread_yield yield_kinv [of "continue_with k []"] by auto
  next
    case Thread_exit
    then show ?thesis using exit_kinv [OF k, of ss] p by auto
  next
    case Idle
    then show ?thesis using ok by (auto elim!: prog_ok_ConsE)
  qed (use m in \<open>auto simp: misuse_def Let_def split_beta\<close>)
qed

section \<open>Executions for the witnesses\<close>

lemma reachable_booted: "reachable 1 2 (booted 1 2)"
  by (rule reachable.boot, rule thread_start_booted) simp

text \<open>The initial thread calls something.\<close>

definition calling :: "stmt \<Rightarrow> kernel" where
  "calling st = upd_thread (booted 1 2) 1 (\<lambda>t. t\<lparr>prog := [st]\<rparr>)"

lemma step_calling: "callable st \<Longrightarrow> step (booted 1 2) (calling st)"
proof -
  assume c: "callable st"
  have "cur_prog (booted 1 2) = []" "current (booted 1 2) = 1" by (simp_all add: booted_def cur_prog_def)
  then show ?thesis using step.call [of "booted 1 2" st] c by (simp add: calling_def)
qed

lemma reachable_calling: "callable st \<Longrightarrow> reachable 1 2 (calling st)"
  by (rule reachable.more [OF reachable_booted step_calling])

lemma cur_prog_calling: "cur_prog (calling st) = [st]"
  by (simp add: calling_def cur_prog_def booted_def upd_thread_def)

lemma reachable_exec:
  "reachable m i k \<Longrightarrow> cur_prog k = st # ss \<Longrightarrow> exec None st k = Some k' \<Longrightarrow> reachable m i k'"
  by (rule reachable.more, assumption, rule step.run [of k st ss None]) (simp_all add: fresh_page_def)

lemmas kernel_defs = calling_def booted_def cur_prog_def continue_with_def upd_thread_def upd_sema_def sema_down_def
  thread_block_def thread_current_def schedule_def next_thread_to_run_def thread_schedule_tail_def sema_init_def sema_up_def
  thread_unblock_def thread_yield_def held_by_current_def set_holder_def thread_create_def init_thread_def allocate_tid_def
  insert_wait_def wake_time_compare_def PRI_MIN_def PRI_MAX_def

text \<open>A blocked thread that nothing will wake: only the idle thread runs and no thread sleeps.\<close>

definition stranded :: "kernel \<Rightarrow> nat \<Rightarrow> bool" where
  "stranded k t \<longleftrightarrow> stat k t = Some THREAD_BLOCKED \<and> t \<noteq> current k \<and> idle_thread k = Some (current k)
     \<and> ready_list k = [] \<and> wait_list k = [] \<and> threads k (current k) \<noteq> None
     \<and> stat k (current k) = Some THREAD_RUNNING \<and> prg k (current k) = Some [Idle]"

lemma schedule_idle:
  assumes "idle_thread k = Some (current k)" "ready_list k = []" "threads k (current k) = Some c" "status c \<noteq> THREAD_RUNNING"
  shows "schedule k = Some ((upd_thread k (current k) (\<lambda>t. t\<lparr>status := THREAD_RUNNING\<rparr>))\<lparr>thread_ticks := 0\<rparr>)"
  using assms by (simp add: schedule_def next_thread_to_run_def thread_schedule_tail_def)

lemma stranded_step:
  assumes s: "stranded k t" and st: "step k k'"
  shows "stranded k' t"
proof -
  obtain c where c: "threads k (current k) = Some c" "status c = THREAD_RUNNING" "prog c = [Idle]"
    using s by (auto simp: stranded_def stat_def prg_def)
  have again: "stranded k2 t"
    if "schedule (k1\<lparr>threads := (threads k1)(current k1 \<mapsto> c\<lparr>status := x\<rparr>)\<rparr>) = Some k2" "stranded k1 t" "x \<noteq> THREAD_RUNNING"
      "current k1 = current k" "threads k1 = threads k" for k1 k2 x
  proof -
    have "k2 = k1\<lparr>threads := (threads k1)(current k1 \<mapsto> c\<lparr>status := THREAD_RUNNING\<rparr>), thread_ticks := 0\<rparr>"
      using that schedule_idle [of "k1\<lparr>threads := (threads k1)(current k1 \<mapsto> c\<lparr>status := x\<rparr>)\<rparr>" "c\<lparr>status := x\<rparr>"]
      by (auto simp: stranded_def upd_thread_def)
    then show ?thesis using that(2,4,5) c by (auto simp: stranded_def stat_def prg_def)
  qed
  show ?thesis
    using st
  proof cases
    case (run stm ss pg)
    then have "stm = Idle" using s c by (auto simp: cur_prog_def)
    then have "schedule (k\<lparr>threads := (threads k)(current k \<mapsto> c\<lparr>status := THREAD_BLOCKED\<rparr>)\<rparr>) = Some k'"
      using run(3) c by (simp add: thread_block_def thread_current_def upd_thread_def)
    then show ?thesis using again [of k THREAD_BLOCKED k'] s by simp
  next
    case (call stm)
    then show ?thesis using c by (simp add: cur_prog_def)
  next
    case tick
    let ?k = "k\<lparr>ticks := ticks k + 1, thread_ticks := thread_ticks k + 1\<rparr>"
    let ?k2 = "?k\<lparr>ready_list := []\<rparr>"
    have sk: "stranded ?k t" "stranded ?k2 t" using s by (simp_all add: stranded_def stat_def prg_def)
    have "k' = ?k \<or> schedule (?k\<lparr>threads := (threads ?k)(current ?k \<mapsto> c\<lparr>status := THREAD_READY\<rparr>), ready_list := []\<rparr>) = Some k'"
      using tick s c by (auto simp: timer_interrupt_def thread_tick_def Let_def thread_wake_routine_def stranded_def
          thread_yield_def thread_current_def upd_thread_def split: if_splits)
    moreover have "?k\<lparr>threads := (threads ?k)(current ?k \<mapsto> c\<lparr>status := THREAD_READY\<rparr>), ready_list := []\<rparr>
        = ?k2\<lparr>threads := (threads ?k2)(current ?k2 \<mapsto> c\<lparr>status := THREAD_READY\<rparr>)\<rparr>" by simp
    ultimately have "k' = ?k \<or> schedule (?k2\<lparr>threads := (threads ?k2)(current ?k2 \<mapsto> c\<lparr>status := THREAD_READY\<rparr>)\<rparr>) = Some k'" by (simp only:)
    then show ?thesis using again [of ?k2 THREAD_READY k'] sk by auto
  qed
qed

lemma stranded_forever: "step\<^sup>*\<^sup>* k k' \<Longrightarrow> stranded k t \<Longrightarrow> stranded k' t"
  by (induction rule: rtranclp_induct) (auto intro: stranded_step)

section \<open>Properties\<close>

text \<open>
  C3: mutual exclusion. In every reachable state, whatever threads call and whenever interrupts come,
  at most one thread is in the critical section of a lock (about to record that it holds the lock,
  recorded as its holder, or about to increment its semaphore), and the semaphore of the lock is 0
  exactly when there is one.
\<close>

theorem mutual_exclusion:
  assumes "reachable main idle k" and "main \<noteq> idle"
  shows "(in_crit (prg k) (holders k) l t \<longrightarrow> in_crit (prg k) (holders k) l u \<longrightarrow> t = u)
    \<and> (sval (semas k (Lock_sema l)) = 0 \<longleftrightarrow> (\<exists>t. in_crit (prg k) (holders k) l t))"
  using lock_invD(1) [OF kinvD(5) [OF reachable_kinv [OF assms]], of l] by (auto simp: svs_def)

theorem mutual_exclusion_witness:
  "\<exists>k. reachable 1 2 k \<and> in_crit (prg k) (holders k) 0 1 \<and> sval (semas k (Lock_sema 0)) = 0"
proof -
  let ?k = "calling (Lock_try_acquire 0)"
  obtain k' where k': "exec None (Lock_try_acquire 0) ?k = Some k'" "cur_prog k' = [Set_holder 0]" "current k' = 1"
    by (auto simp: kernel_defs sema_try_down_def)
  have r: "reachable 1 2 k'"
    using reachable_exec [OF reachable_calling cur_prog_calling k'(1)] by simp
  have "in_crit (prg k') (holders k') 0 1"
    using cur_prog_prg [OF k'(2)] k'(3) by (auto simp: in_crit_def crit_head_def)
  then show ?thesis using mutual_exclusion [OF r, of 0] r by auto
qed



text \<open>
  C6: no wake-up is lost by semaphores. In every reachable state, if threads wait for a semaphore then
  its value is at most the number of runnable threads that are about to test it: a positive
  value never meets only sleeping threads.
\<close>

theorem no_lost_wakeup:
  assumes "reachable main idle k" and "main \<noteq> idle" and "waiters (semas k s) \<noteq> []"
  shows "sval (semas k s) \<le> card {t. (stat k t = Some THREAD_READY \<or> stat k t = Some THREAD_RUNNING) \<and> (\<exists>ss. prg k t = Some (Sema_down s # ss))}"
  using kinvD(2) [OF reachable_kinv [OF assms(1,2)]] assms(3) by (simp add: wake_inv_def wts_def svs_def coming_def)

theorem no_lost_wakeup_witness:
  "\<exists>k. reachable 1 2 k \<and> waiters (semas k (Sema 5)) = [1]
    \<and> sval (semas k (Sema 5)) \<le> card {t. (stat k t = Some THREAD_READY \<or> stat k t = Some THREAD_RUNNING) \<and> (\<exists>ss. prg k t = Some (Sema_down (Sema 5) # ss))}"
proof -
  obtain k' where k': "exec None (Sema_down (Sema 5)) (calling (Sema_down (Sema 5))) = Some k'" "waiters (semas k' (Sema 5)) = [1]"
    by (auto simp: kernel_defs)
  have r: "reachable 1 2 k'"
    using reachable_exec [OF reachable_calling cur_prog_calling k'(1)] by simp
  then show ?thesis using no_lost_wakeup [OF r, of "Sema 5"] k'(2) by auto
qed

text \<open>
  C13: round robin. From any reachable state on, threads are dispatched in the order of the ready
  list at that state, before any thread that becomes ready later: the \<open>n\<close>-th dispatch goes to the
  \<open>n\<close>-th ready thread.
\<close>

theorem round_robin:
  assumes "reachable main idle k" and "main \<noteq> idle" and "dispatches k ds k'"
  shows "take (length (ready_list k)) ds = take (length ds) (ready_list k)"
  using dispatches_fifo [OF assms(3) reachable_kinv [OF assms(1,2)]] by blast

theorem round_robin_witness:
  "\<exists>k k'. reachable 1 2 k \<and> ready_list k = [3] \<and> dispatches k [3] k' \<and> take (length (ready_list k)) [3] = take 1 (ready_list k)"
proof -
  let ?c = "Thread_create 31 [Thread_exit]"
  obtain k where k: "exec (Some 3) ?c (calling ?c) = Some k" "cur_prog k = []" "ready_list k = [3]" "current k = 1"
    by (auto simp: kernel_defs)
  have "step (calling ?c) k"
    by (rule step.run [OF cur_prog_calling _ k(1)]) (simp add: fresh_page_def kernel_defs)
  then have r: "reachable 1 2 k" using reachable.more [OF reachable_calling [of ?c]] by simp
  let ?y = "upd_thread k (current k) (\<lambda>t. t\<lparr>prog := [Thread_yield]\<rparr>)"
  have y: "step k ?y" by (rule step.call) (simp_all add: k(2))
  have yk: "kinv ?y" using step_kinv [OF y] reachable_kinv [OF r] by simp
  obtain c where c: "threads k 1 = Some c" using thread_current_kinv [OF reachable_kinv [OF r]] k(4) by auto
  then have p: "cur_prog ?y = [Thread_yield]" by (simp add: cur_prog_def upd_thread_def k(4))
  obtain k' where k': "exec None Thread_yield ?y = Some k'"
    using exec_progress [OF yk cur_prog_prg [OF p], of None] by (auto simp: fresh_page_def misuse_def)
  have "step ?y k'" by (rule step.run [OF p _ k']) (simp add: fresh_page_def)
  moreover have "current k' = 3"
    using k' k(3) by (auto simp: thread_yield_def Let_def kview split: Option.bind_splits if_splits dest!: schedule_ready)
  moreover have "dispatches k [] ?y" by (rule dispatches.stay [OF dispatches.start y]) (simp add: kview)
  ultimately have d: "dispatches k [3] k'" using dispatches.switch [of k "[]" ?y k'] by (simp add: kview k(4))
  show ?thesis using round_robin [OF r _ d] r k(3) d by auto
qed

text \<open>
  C14: preemption. In every reachable state the timer interrupt is handled without a failed assertion,
  and when the time slice of the current thread is over and a thread is ready, the first ready
  thread is dispatched.
\<close>

theorem preemption:
  assumes "reachable main idle k" and "main \<noteq> idle"
  shows "\<exists>k'. timer_interrupt k = Some k' \<and> reachable main idle k'
    \<and> (thread_ticks k + 1 \<ge> TIME_SLICE \<and> ready_list k \<noteq> [] \<longrightarrow> current k' = hd (ready_list k))"
proof -
  note k = reachable_kinv [OF assms]
  let ?k = "k\<lparr>ticks := ticks k + 1, thread_ticks := thread_ticks k + 1\<rparr>"
  obtain k1 where k1: "thread_wake_routine ?k = Some k1" "kinv k1" "\<exists>ws. ready_list k1 = ready_list k @ ws"
    using foreach_wait_kinv [of ?k "wait_list ?k"] k by (auto simp: thread_wake_routine_def kinv_fields)
  obtain k2 where k2: "thread_yield k1 = Some k2"
    "Some (current k2) = (case ready_list k1 of [] \<Rightarrow> if idle_thread k1 = Some (current k1) then idle_thread k1 else Some (current k1) | t # ts \<Rightarrow> Some t)"
    using yield_kinv [OF k1(2)] by blast
  have "timer_interrupt k = Some (if thread_ticks k + 1 \<ge> TIME_SLICE then k2 else k1)"
    using k1(1) k2(1) by (simp add: timer_interrupt_def thread_tick_def Let_def)
  moreover from this have "reachable main idle (if thread_ticks k + 1 \<ge> TIME_SLICE then k2 else k1)"
    using assms(1) by (intro reachable.more [OF assms(1) step.tick])
  moreover have "current k2 = hd (ready_list k)" if "ready_list k \<noteq> []" using that k1(3) k2(2) by (cases "ready_list k") auto
  ultimately show ?thesis by auto
qed

theorem preemption_witness: "\<exists>k'. timer_interrupt (booted 1 2) = Some k' \<and> reachable 1 2 k'"
  using preemption [OF reachable_booted] by auto



text \<open>
  C18: \<^verbatim>\<open>thread_sleep\<close> can lose its wake-up. It puts the thread on the list of sleeping threads before
  it initialises the semaphore it waits on; when the timer wakes the thread in between, the
  initialisation erases the wake-up, and the thread sleeps forever: in no state that follows is it
  anything but blocked.
\<close>

theorem thread_sleep_race:
  "\<exists>k k'. reachable 1 2 k \<and> cur_prog k = [Thread_sleep 1] \<and> step\<^sup>*\<^sup>* k k'
    \<and> {k''. step\<^sup>*\<^sup>* k' k''} \<subseteq> {k''. stat k'' 1 = Some THREAD_BLOCKED}"
proof -
  let ?k = "calling (Thread_sleep 1)"
  let ?t = "Timer_sema 1"
  obtain k1 k2 k3 k4 k5 k6 where
    1: "exec None (Thread_sleep 1) ?k = Some k1" "cur_prog k1 = [Insert_wait, Sema_init ?t 0, Sema_down ?t]"
    and 2: "exec None Insert_wait k1 = Some k2"
    and 3: "timer_interrupt k2 = Some k3" and 4: "timer_interrupt k3 = Some k4" "cur_prog k4 = [Sema_init ?t 0, Sema_down ?t]"
    and 5: "exec None (Sema_init ?t 0) k4 = Some k5" "cur_prog k5 = [Sema_down ?t]"
    and 6: "exec None (Sema_down ?t) k5 = Some k6" "stranded k6 1"
    by (auto simp: kernel_defs timer_interrupt_def thread_tick_def thread_wake_routine_def thread_wake_routine_helper_def
        wake_time_def TIME_SLICE_def Let_def stranded_def stat_def prg_def)
  have step: "step k k'" if "cur_prog k = st # ss" "exec None st k = Some k'" for k k' st ss
    using step.run [OF that(1) _ that(2)] by (simp add: fresh_page_def)
  have "step ?k k1" "step k1 k2" "step k4 k5" "step k5 k6"
    using step [OF cur_prog_calling 1(1)] step [OF 1(2) 2] step [OF 4(2) 5(1)] step [OF 5(2) 6(1)] .
  moreover have "step k2 k3" "step k3 k4" using 3 4(1) by (auto intro: step.tick)
  ultimately have "step\<^sup>*\<^sup>* ?k k6" by (meson converse_rtranclp_into_rtranclp r_into_rtranclp)
  moreover have "reachable 1 2 ?k" "cur_prog ?k = [Thread_sleep 1]"
    using reachable_calling [of "Thread_sleep 1"] by (simp_all add: cur_prog_calling)
  moreover have "stat k'' 1 = Some THREAD_BLOCKED" if "step\<^sup>*\<^sup>* k6 k''" for k''
    using stranded_forever [OF that 6(2)] by (simp add: stranded_def)
  ultimately show ?thesis by blast
qed

end
