(* ===== verification/Spec2Isabelle.thy ===== *)
theory Spec2Isabelle
  imports Directory Arithmetic Stdio Kernel_Hash Malloc Loader Threads_Props
begin

text \<open>
  A verification development for the Pintos kernel of this repository (\<^verbatim>\<open>src/pintos/src\<close>): a teaching
  operating system for a 32-bit PC in C, with threads, a file system on block devices and its own C
  library. The development is a shallow embedding of the parts that carry the logic of the kernel.

  \<^bold>\<open>Conventions.\<close> A failed \<^verbatim>\<open>ASSERT\<close> or a \<^verbatim>\<open>PANIC\<close> is the value \<open>None\<close> of an option type, or an
  error of type \<open>stop\<close> where waiting for a lock is a possible outcome too; a null pointer is an inner
  option or the address \<open>NULL\<close>. Integers are words where the wrap-around matters and numbers with the
  bounds written out elsewhere. Loops over data are recursive functions; loops that need not end are
  partial functions, and the theorems show that they return.

  \<^bold>\<open>Library.\<close> \<open>Kernel_Prelude\<close>: machine types, panics, buffers, \<^verbatim>\<open>lib/round.h\<close>.
  \<open>Kernel_List\<close> and \<open>List_Sorting\<close>: \<^verbatim>\<open>lib/kernel/list.c\<close> on a heap of link fields; every operation
  acts on the represented sequence, the in-place merge sort is the stable sort, and a list is a
  queue (locales \<open>list_less\<close> for orders and \<open>list_queue\<close>). \<open>Kernel_Bitmap\<close>: \<^verbatim>\<open>lib/kernel/bitmap.c\<close> on
  32-bit elements; a first-fit allocator of ranges (locale \<open>range_allocator\<close>). \<open>Cstring\<close>:
  \<^verbatim>\<open>lib/string.c\<close> on a flat memory. \<open>Stdlib\<close>: \<^verbatim>\<open>lib/stdlib.c\<close>, heap sort and binary search for every
  consistent comparison (locale \<open>comparator\<close>) and \<^verbatim>\<open>atoi\<close>. \<open>Arithmetic\<close>: the 64-bit division of
  \<^verbatim>\<open>lib/arithmetic.c\<close> over the processor's 32-bit divide instruction.

  \<^bold>\<open>Threads.\<close> \<open>Threads\<close>: \<^verbatim>\<open>threads/thread.c\<close>, \<^verbatim>\<open>threads/synch.c\<close> and the tick of
  \<^verbatim>\<open>devices/timer.c\<close> as a step relation over all interleavings of the calls of all threads and of timer
  interrupts; a call is split where interrupts are on. \<open>Threads_Inv\<close> states the invariant of the
  scheduler, \<open>Threads_Steps\<close> shows that every step keeps it, \<open>Threads_Props\<close> what follows: mutual
  exclusion, no lost wake-up, round-robin dispatch, preemption, and the race in \<^verbatim>\<open>thread_sleep\<close>.
  \<open>Kernel_Lock\<close> is the view that sequential clients have of a lock.

  \<^bold>\<open>File system.\<close> \<open>Block_Device\<close>: \<^verbatim>\<open>devices/block.c\<close>. \<open>Buffer_Cache\<close>: \<^verbatim>\<open>filesys/cache.c\<close>, which refines
  an array of sectors (locale \<open>sector_store\<close>), with its concurrency flaws as theorems. \<open>Inode_Disk\<close>,
  \<open>Inode\<close>, \<open>Inode_Data\<close> and \<open>Inode_Table\<close>: \<^verbatim>\<open>filesys/inode.c\<close> and \<^verbatim>\<open>filesys/free-map.c\<close>: the layout on
  disk, the index of up to two levels, reading and writing, and the table of open inodes. \<open>File\<close>:
  \<^verbatim>\<open>filesys/file.c\<close>. \<open>Directory\<close>: \<^verbatim>\<open>filesys/directory.c\<close>, which refines a map from names to sectors.

  \<^bold>\<open>Bounds.\<close> Allocating a sector writes the free map, which is a file whose inode may have to grow,
  which allocates: this recursion of the code is unfolded to depth 2, one more than the code can reach,
  as the file of the free map is created with its full length.

  \<^bold>\<open>Not modelled.\<close> Drivers (\<^verbatim>\<open>devices/ide.c\<close>, USB, PCI, keyboard, serial, VGA, clocks) are register and
  port protocols whose other side is hardware; \<^verbatim>\<open>threads/interrupt.c\<close>, \<^verbatim>\<open>threads/init.c\<close>,
  \<^verbatim>\<open>userprog/gdt.c\<close>, \<^verbatim>\<open>userprog/tss.c\<close> and \<^verbatim>\<open>userprog/exception.c\<close> set up tables of the processor;
  user programs, tests and host tools are outside the kernel.
\<close>

end
